(* ===== verification/S3Prelude.thy ===== *)
theory S3Prelude
  imports Main "HOL-Library.Word" "HOL-Library.Char_ord" "HOL-Library.List_Lexorder"
begin

text \<open>
  Shared ground of the development: the types of the model (a Go \<open>string\<close> is a HOL
  \<open>string\<close>, that is a list of 8-bit characters; a Go \<open>[]byte\<close> is a list of
  \<open>8 word\<close>), the few functions of Go's \<open>strings\<close> package the code uses, the
  collections of facts the component theories fill, and generic lemmas on lists.
\<close>

section \<open>Types and collections\<close>

type_synonym byte = "8 word"
type_synonym bytes = "byte list"

named_theorems go_simps \<open>evaluation and characterisation rules for the modelled Go library functions\<close>
named_theorems inr_iff \<open>rules that invert a successful result\<close>
named_theorems limits \<open>definitions of the numeric constants of the code\<close>

section \<open>Conversions between strings and byte slices\<close>

definition byte_of_char :: "char \<Rightarrow> byte" where
  "byte_of_char c = word_of_nat (of_char c)"

definition char_of_byte :: "byte \<Rightarrow> char" where
  "char_of_byte b = char_of (unat b)"

definition bytes_of :: "string \<Rightarrow> bytes" where
  "bytes_of s = map byte_of_char s"

definition string_of :: "bytes \<Rightarrow> string" where
  "string_of bs = map char_of_byte bs"

lemma of_char_less_256 [simp]: "(of_char c :: nat) < 256"
  by (rule nat_of_char_less_256)

lemma unat_byte_of_char [simp]: "unat (byte_of_char c) = of_char c"
  by (simp add: byte_of_char_def unat_of_nat take_bit_eq_mod)

lemma char_of_byte_of_char [simp]: "char_of_byte (byte_of_char c) = c"
  by (simp add: char_of_byte_def)

lemma unat_byte_less [simp]: "unat (b :: byte) < 256"
  using unsigned_less [of b] by simp

lemma word_of_nat_unat: "word_of_nat (unat (w :: 'a :: len word)) = w"
  by simp

lemma unat_byte_of_nat: "n < 256 \<Longrightarrow> unat (word_of_nat n :: byte) = n"
  by (simp add: unat_of_nat take_bit_eq_mod)

lemma byte_of_char_of_byte [simp]: "byte_of_char (char_of_byte b) = b"
proof -
  have "unat (byte_of_char (char_of_byte b)) = unat b"
    by (simp add: char_of_byte_def mod_less)
  then show ?thesis by (simp add: word_unat_eq_iff)
qed

lemma string_of_bytes_of [simp]: "string_of (bytes_of s) = s"
  by (simp add: string_of_def bytes_of_def o_def)

lemma bytes_of_string_of [simp]: "bytes_of (string_of bs) = bs"
  by (simp add: string_of_def bytes_of_def o_def)

lemma length_bytes_of [simp]: "length (bytes_of s) = length s"
  by (simp add: bytes_of_def)

lemma length_string_of [simp]: "length (string_of bs) = length bs"
  by (simp add: string_of_def)

lemma bytes_of_append [simp]: "bytes_of (s @ t) = bytes_of s @ bytes_of t"
  by (simp add: bytes_of_def)

lemma string_of_append [simp]: "string_of (s @ t) = string_of s @ string_of t"
  by (simp add: string_of_def)

lemma bytes_of_inject [simp]: "bytes_of s = bytes_of t \<longleftrightarrow> s = t"
  by (metis string_of_bytes_of)

lemma string_of_inject [simp]: "string_of s = string_of t \<longleftrightarrow> s = t"
  by (metis bytes_of_string_of)

lemma bytes_of_Nil [simp]: "bytes_of [] = []"
  by (simp add: bytes_of_def)

lemma string_of_Nil [simp]: "string_of [] = []"
  by (simp add: string_of_def)

section \<open>The strings package\<close>

text \<open>\<open>strings.HasPrefix\<close>, \<open>strings.TrimPrefix\<close>, \<open>strings.TrimSuffix\<close>,
  \<open>strings.Contains\<close>, \<open>strings.Split\<close> at a one-character separator, \<open>strings.Join\<close>.\<close>

definition has_prefix :: "string \<Rightarrow> string \<Rightarrow> bool" where
  "has_prefix s p \<longleftrightarrow> take (length p) s = p"

definition trim_prefix :: "string \<Rightarrow> string \<Rightarrow> string" where
  "trim_prefix s p = (if has_prefix s p then drop (length p) s else s)"

definition has_suffix :: "string \<Rightarrow> string \<Rightarrow> bool" where
  "has_suffix s p \<longleftrightarrow> length p \<le> length s \<and> drop (length s - length p) s = p"

definition trim_suffix :: "string \<Rightarrow> string \<Rightarrow> string" where
  "trim_suffix s p = (if has_suffix s p then take (length s - length p) s else s)"

fun contains :: "string \<Rightarrow> string \<Rightarrow> bool" where
  "contains [] sub \<longleftrightarrow> sub = []"
| "contains (c # s) sub \<longleftrightarrow> has_prefix (c # s) sub \<or> contains s sub"

fun split_on :: "char \<Rightarrow> string \<Rightarrow> string list" where
  "split_on c [] = [[]]"
| "split_on c (x # xs) =
     (if x = c then [] # split_on c xs
      else case split_on c xs of [] \<Rightarrow> [[x]] | p # ps \<Rightarrow> (x # p) # ps)"

fun join :: "string \<Rightarrow> string list \<Rightarrow> string" where
  "join sep [] = []"
| "join sep [x] = x"
| "join sep (x # y # zs) = x @ sep @ join sep (y # zs)"

abbreviation slash :: char where
  "slash \<equiv> CHR ''/''"

lemma has_prefix_iff [go_simps]: "has_prefix s p \<longleftrightarrow> (\<exists>r. s = p @ r)"
proof
  assume "has_prefix s p"
  then have "s = p @ drop (length p) s"
    by (metis append_take_drop_id has_prefix_def)
  then show "\<exists>r. s = p @ r" by blast
qed (auto simp: has_prefix_def)

lemma has_prefix_append [simp]: "has_prefix (p @ r) p"
  by (auto simp: has_prefix_iff)

lemma has_prefix_Nil [simp]: "has_prefix s []"
  by (simp add: has_prefix_def)

lemma trim_prefix_append [simp]: "trim_prefix (p @ r) p = r"
  by (simp add: trim_prefix_def)

lemma split_on_nonempty [simp]: "split_on c s \<noteq> []"
  by (cases s) (auto split: list.splits)

lemma split_on_append_sep:
  "c \<notin> set a \<Longrightarrow> split_on c (a @ c # b) = a # split_on c b"
  by (induction a) auto

lemma split_on_single: "c \<notin> set a \<Longrightarrow> split_on c a = [a]"
  by (induction a) auto

lemma split_on_no_sep: "p \<in> set (split_on c s) \<Longrightarrow> c \<notin> set p"
  by (induction s arbitrary: p) (auto split: if_splits list.splits)

lemma join_Cons: "ps \<noteq> [] \<Longrightarrow> join sep (p # ps) = p @ sep @ join sep ps"
  by (cases ps) auto

lemma join_split_on [simp]: "join [c] (split_on c s) = s"
proof (induction s)
  case (Cons x xs)
  obtain p ps where sp: "split_on c xs = p # ps"
    by (cases "split_on c xs") auto
  with Cons.IH show ?case
    by (cases ps) (auto simp: join_Cons)
qed simp

lemma split_on_join:
  "ps \<noteq> [] \<Longrightarrow> (\<And>p. p \<in> set ps \<Longrightarrow> c \<notin> set p) \<Longrightarrow> split_on c (join [c] ps) = ps"
proof (induction ps)
  case (Cons p ps)
  show ?case
  proof (cases "ps = []")
    case True
    with Cons.prems show ?thesis by (simp add: split_on_single)
  next
    case False
    with Cons show ?thesis by (simp add: join_Cons split_on_append_sep)
  qed
qed simp

lemma join_empty_sep: "join [] ps = concat ps"
  by (induction "[] :: string" ps rule: join.induct) auto

lemma length_join_sep:
  "ps \<noteq> [] \<Longrightarrow> length (join [c] ps) = length (concat ps) + length ps - 1"
proof (induction ps)
  case (Cons p ps)
  then show ?case by (cases ps) (auto simp: join_Cons)
qed simp

section \<open>Integers at the width of Go's int64\<close>

text \<open>Go's \<open>int\<close> and \<open>int64\<close> are 64-bit two's complement on the supported
  targets; sums and products wrap. The model computes in \<open>int\<close> and applies
  \<open>wrap64\<close> at every operation whose overflow a claim is about.\<close>

definition wrap64 :: "int \<Rightarrow> int" where
  "wrap64 x = (x + 2 ^ 63) mod 2 ^ 64 - 2 ^ 63"

definition max_int64 :: int where
  "max_int64 = 2 ^ 63 - 1"

lemma wrap64_id: "- (2 ^ 63) \<le> x \<Longrightarrow> x < 2 ^ 63 \<Longrightarrow> wrap64 x = x"
  by (simp add: wrap64_def mod_pos_pos_trivial)

lemma wrap64_range: "- (2 ^ 63) \<le> wrap64 x \<and> wrap64 x < 2 ^ 63"
proof -
  have "0 \<le> (x + 2 ^ 63) mod 2 ^ 64" "(x + 2 ^ 63) mod 2 ^ 64 < 2 ^ 64"
    by simp_all
  then show ?thesis unfolding wrap64_def by simp
qed

section \<open>Lists\<close>

lemma take_append_exact: "length a = n \<Longrightarrow> take n (a @ b) = a"
  by simp

lemma drop_append_exact: "length a = n \<Longrightarrow> drop n (a @ b) = b"
  by simp

lemma append_eq_same_length:
  "a @ b = c @ d \<Longrightarrow> length a = length c \<Longrightarrow> a = c \<and> b = d"
  by simp

lemma append_eq_same_length_right:
  "a @ b = c @ d \<Longrightarrow> length b = length d \<Longrightarrow> a = c \<and> b = d"
  by simp

end
