(* ===== verification/GoEncoding.thy ===== *)
theory GoEncoding
  imports S3Prelude
begin

text \<open>
  The encodings of Go's standard library the code calls: \<open>encoding/hex\<close>,
  \<open>base64.RawURLEncoding\<close>, the big-endian \<open>encoding/binary\<close> accessors and
  \<open>strconv.Itoa\<close>, with the round trips and the lengths the key and manifest codecs need.
\<close>

section \<open>hex\<close>

definition hex_digits :: string where
  "hex_digits = ''0123456789abcdef''"

definition hex_char :: "nat \<Rightarrow> char" where
  "hex_char n = hex_digits ! n"

text \<open>\<open>hex.EncodeToString\<close>: two lower-case digits a byte.\<close>

definition hex_encode :: "bytes \<Rightarrow> string" where
  "hex_encode bs = concat (map (\<lambda>b. [hex_char (unat b div 16), hex_char (unat b mod 16)]) bs)"

text \<open>The decoder's digit table accepts both cases.\<close>

definition hex_val :: "char \<Rightarrow> nat option" where
  "hex_val c =
     (let n = of_char c :: nat
      in if 48 \<le> n \<and> n \<le> 57 then Some (n - 48)
         else if 97 \<le> n \<and> n \<le> 102 then Some (n - 87)
         else if 65 \<le> n \<and> n \<le> 70 then Some (n - 55)
         else None)"

text \<open>\<open>hex.DecodeString\<close>; \<open>None\<close> is its error (a bad digit or an odd length).\<close>

fun hex_decode :: "string \<Rightarrow> bytes option" where
  "hex_decode [] = Some []"
| "hex_decode [c] = None"
| "hex_decode (c # d # s) =
     (case (hex_val c, hex_val d, hex_decode s) of
        (Some h, Some l, Some bs) \<Rightarrow> Some (word_of_nat (16 * h + l) # bs)
      | _ \<Rightarrow> None)"

lemma hex_val_hex_char: "n < 16 \<Longrightarrow> hex_val (hex_char n) = Some n"
proof -
  have "list_all (\<lambda>n. hex_val (hex_char n) = Some n) [0..<16]" by code_simp
  then show "n < 16 \<Longrightarrow> hex_val (hex_char n) = Some n" by (auto simp: list_all_iff)
qed

lemma hex_val_less: "hex_val c = Some n \<Longrightarrow> n < 16"
  by (auto simp: hex_val_def Let_def split: if_splits)

lemma hex_encode_Nil [simp]: "hex_encode [] = []"
  by (simp add: hex_encode_def)

lemma hex_encode_Cons:
  "hex_encode (b # bs) = hex_char (unat b div 16) # hex_char (unat b mod 16) # hex_encode bs"
  by (simp add: hex_encode_def)

lemma length_hex_encode [simp]: "length (hex_encode bs) = 2 * length bs"
  by (induction bs) (simp_all add: hex_encode_Cons)

lemma hex_decode_encode [simp]: "hex_decode (hex_encode bs) = Some bs"
proof (induction bs)
  case (Cons b bs)
  have "unat b div 16 < 16" by (simp add: less_mult_imp_div_less)
  then have "hex_val (hex_char (unat b div 16)) = Some (unat b div 16)"
    by (rule hex_val_hex_char)
  moreover have "hex_val (hex_char (unat b mod 16)) = Some (unat b mod 16)"
    by (simp add: hex_val_hex_char)
  ultimately show ?case using Cons.IH by (simp add: hex_encode_Cons)
qed simp

lemma hex_encode_inject [simp]: "hex_encode a = hex_encode b \<longleftrightarrow> a = b"
  by (metis hex_decode_encode option.inject)

lemma hex_decode_length: "hex_decode s = Some bs \<Longrightarrow> length s = 2 * length bs"
  by (induction s arbitrary: bs rule: hex_decode.induct) (auto split: option.splits)

definition hex_chars :: "char set" where
  "hex_chars = set hex_digits"

lemma hex_char_in: "n < 16 \<Longrightarrow> hex_char n \<in> hex_chars"
  unfolding hex_char_def hex_chars_def by (rule nth_mem) (simp add: hex_digits_def)

lemma set_hex_encode: "set (hex_encode bs) \<subseteq> hex_chars"
proof (induction bs)
  case (Cons b bs)
  have "unat b div 16 < 16" by (simp add: less_mult_imp_div_less)
  with Cons.IH show ?case by (simp add: hex_encode_Cons hex_char_in)
qed simp

lemma slash_not_in_hex [simp]: "slash \<notin> set (hex_encode bs)"
  using set_hex_encode [of bs] by (auto simp: hex_chars_def hex_digits_def)

text \<open>A decoded string is the encoding of its value up to the case of its letters.\<close>

definition lower_hex :: "char \<Rightarrow> char" where
  "lower_hex c = (let n = of_char c :: nat in if 65 \<le> n \<and> n \<le> 70 then char_of (n + 32) else c)"

lemma hex_char_of_val:
  assumes "hex_val c = Some v"
  shows "hex_char v = lower_hex c"
proof -
  have tab: "list_all (\<lambda>n. char_of n \<in> set ''0123456789ABCDEFabcdef'')
      ([48..<58 :: nat] @ [65..<71] @ [97..<103])"
    by code_simp
  have vals: "list_all (\<lambda>c. map_option hex_char (hex_val c) = Some (lower_hex c))
      ''0123456789ABCDEFabcdef''"
    by code_simp
  from assms have "(of_char c :: nat) \<in> set ([48..<58] @ [65..<71] @ [97..<103])"
    unfolding hex_val_def Let_def set_append set_upt Un_iff atLeastLessThan_iff
    by (simp split: if_splits)
  with tab have "char_of (of_char c :: nat) \<in> set ''0123456789ABCDEFabcdef''"
    unfolding list_all_iff by (rule bspec)
  then have "c \<in> set ''0123456789ABCDEFabcdef''" by (simp only: char_of_char)
  with vals have "map_option hex_char (hex_val c) = Some (lower_hex c)"
    unfolding list_all_iff by (rule bspec)
  with assms show ?thesis by simp
qed

lemma hex_encode_decode:
  "hex_decode s = Some bs \<Longrightarrow> hex_encode bs = map lower_hex s"
proof (induction s arbitrary: bs rule: hex_decode.induct)
  case (3 c d s)
  from "3.prems" obtain h l bs' where hl: "hex_val c = Some h" "hex_val d = Some l"
    and bs': "hex_decode s = Some bs'" and bs: "bs = word_of_nat (16 * h + l) # bs'"
    by (auto split: option.splits)
  have "h < 16" "l < 16" using hl by (auto dest: hex_val_less)
  then have "unat (word_of_nat (16 * h + l) :: byte) = 16 * h + l"
    by (intro unat_byte_of_nat) linarith
  with hl bs bs' "3.IH" \<open>l < 16\<close> show ?case
    by (simp add: hex_encode_Cons hex_char_of_val)
qed auto

section \<open>base64.RawURLEncoding\<close>

definition b64_alphabet :: string where
  "b64_alphabet =
     ''ABCDEFGHIJKLMNOPQRSTUVWXYZabcdefghijklmnopqrstuvwxyz0123456789-_''"

definition b64_char :: "nat \<Rightarrow> char" where
  "b64_char n = b64_alphabet ! n"

definition b64_val :: "char \<Rightarrow> nat option" where
  "b64_val c =
     (let n = of_char c :: nat
      in if 65 \<le> n \<and> n \<le> 90 then Some (n - 65)
         else if 97 \<le> n \<and> n \<le> 122 then Some (n - 71)
         else if 48 \<le> n \<and> n \<le> 57 then Some (n + 4)
         else if n = 45 then Some 62
         else if n = 95 then Some 63
         else None)"

text \<open>\<open>RawURLEncoding.EncodeToString\<close>: no padding, so a tail of one or two bytes
  gives two or three characters.\<close>

fun b64_encode :: "bytes \<Rightarrow> string" where
  "b64_encode [] = []"
| "b64_encode [a] = [b64_char (unat a div 4), b64_char (unat a mod 4 * 16)]"
| "b64_encode [a, b] =
     [b64_char (unat a div 4), b64_char (unat a mod 4 * 16 + unat b div 16),
      b64_char (unat b mod 16 * 4)]"
| "b64_encode (a # b # c # bs) =
     b64_char (unat a div 4) # b64_char (unat a mod 4 * 16 + unat b div 16)
       # b64_char (unat b mod 16 * 4 + unat c div 64) # b64_char (unat c mod 64)
       # b64_encode bs"

text \<open>
  The decoder works on the digit values of the characters that are left when carriage
  returns and newlines are skipped, as Go's does: four digits give three bytes, a tail
  of two or three digits gives one or two bytes and its unused low bits are ignored
  (the encoding is not \<open>Strict\<close>), a tail of one digit is an error.
\<close>

fun b64_quanta :: "nat list \<Rightarrow> bytes option" where
  "b64_quanta [] = Some []"
| "b64_quanta [p] = None"
| "b64_quanta [p, q] = Some [word_of_nat (p * 4 + q div 16)]"
| "b64_quanta [p, q, r] =
     Some [word_of_nat (p * 4 + q div 16), word_of_nat (q mod 16 * 16 + r div 4)]"
| "b64_quanta (p # q # r # s # ds) =
     map_option (\<lambda>bs. word_of_nat (p * 4 + q div 16) # word_of_nat (q mod 16 * 16 + r div 4)
       # word_of_nat (r mod 4 * 64 + s) # bs) (b64_quanta ds)"

fun b64_vals :: "string \<Rightarrow> nat list option" where
  "b64_vals [] = Some []"
| "b64_vals (c # s) =
     (if c = CHR 0x0A \<or> c = CHR 0x0D then b64_vals s
      else case (b64_val c, b64_vals s) of
             (Some v, Some vs) \<Rightarrow> Some (v # vs) | _ \<Rightarrow> None)"

definition b64_decode :: "string \<Rightarrow> bytes option" where
  "b64_decode s = (case b64_vals s of None \<Rightarrow> None | Some vs \<Rightarrow> b64_quanta vs)"

lemma b64_table:
  "list_all (\<lambda>(n, c). b64_val c = Some n \<and> c \<noteq> CHR 0x0A \<and> c \<noteq> CHR 0x0D \<and> c \<noteq> slash)
     (zip [0..<64] b64_alphabet)"
  by (simp add: upt_rec b64_alphabet_def b64_val_def)

lemma length_b64_alphabet: "length b64_alphabet = 64"
  by (simp add: b64_alphabet_def)

lemma b64_char_facts:
  assumes "n < 64"
  shows "b64_val (b64_char n) = Some n \<and> b64_char n \<noteq> CHR 0x0A \<and> b64_char n \<noteq> CHR 0x0D
    \<and> b64_char n \<noteq> slash"
proof -
  have "(n, b64_char n) \<in> set (zip [0..<64] b64_alphabet)"
    using assms by (auto simp: set_zip b64_char_def length_b64_alphabet intro!: exI [of _ n])
  with b64_table show ?thesis unfolding list_all_iff by blast
qed

lemma b64_vals_Cons:
  "n < 64 \<Longrightarrow> b64_vals (b64_char n # s) = map_option (Cons n) (b64_vals s)"
  by (simp add: b64_char_facts split: option.splits)

lemma byte_parts:
  fixes a b :: byte
  shows "unat a div 4 < 64" "unat a mod 4 * 16 < 64" "unat a div 16 < 16" "unat a div 64 < 4"
    "unat a mod 4 * 16 + unat b div 16 < 64" "unat b mod 16 * 4 < 64"
    "unat b mod 16 * 4 + unat a div 64 < 64" "unat a mod 64 < 64"
proof -
  have m: "unat a mod 4 < 4" "unat b mod 16 < 16" by simp_all
  show d: "unat a div 4 < 64" "unat a div 16 < 16" "unat a div 64 < 4"
    by (simp_all add: less_mult_imp_div_less)
  have "unat b div 16 < 16" by (simp add: less_mult_imp_div_less)
  with m d show "unat a mod 4 * 16 < 64" "unat a mod 4 * 16 + unat b div 16 < 64"
    "unat b mod 16 * 4 < 64" "unat b mod 16 * 4 + unat a div 64 < 64"
    by linarith+
qed simp

lemma digit_split:
  fixes m k d :: nat
  assumes "k < d"
  shows "(m * d + k) div d = m" "(m * d + k) mod d = k"
proof -
  have "(m * d + k) div d = m + k div d" using assms by (intro div_mult_self3) simp
  then show "(m * d + k) div d = m" using assms by simp
  show "(m * d + k) mod d = k" unfolding mod_mult_self3 using assms by (rule mod_less)
qed

lemma byte_rejoin:
  fixes a b c :: byte
  shows "unat a div 4 * 4 + (unat a mod 4 * 16) div 16 = unat a"
    "unat a div 4 * 4 + (unat a mod 4 * 16 + unat b div 16) div 16 = unat a"
    "(unat a mod 4 * 16 + unat b div 16) mod 16 * 16 + (unat b mod 16 * 4) div 4 = unat b"
    "(unat a mod 4 * 16 + unat b div 16) mod 16 * 16
        + (unat b mod 16 * 4 + unat c div 64) div 4 = unat b"
    "(unat b mod 16 * 4 + unat c div 64) mod 4 * 64 + unat c mod 64 = unat c"
proof -
  note k = byte_parts(3) [of b] byte_parts(4) [of c]
  show "unat a div 4 * 4 + (unat a mod 4 * 16) div 16 = unat a"
    using digit_split(1) [of 0 16 "unat a mod 4"] by (simp only: add_0_right div_mult_mod_eq)
  show "unat a div 4 * 4 + (unat a mod 4 * 16 + unat b div 16) div 16 = unat a"
    by (simp only: digit_split(1) [OF k(1)] div_mult_mod_eq)
  show "(unat a mod 4 * 16 + unat b div 16) mod 16 * 16 + (unat b mod 16 * 4) div 4 = unat b"
    using digit_split(1) [of 0 4 "unat b mod 16"]
    by (simp only: digit_split(2) [OF k(1)] add_0_right div_mult_mod_eq)
  show "(unat a mod 4 * 16 + unat b div 16) mod 16 * 16
        + (unat b mod 16 * 4 + unat c div 64) div 4 = unat b"
    by (simp only: digit_split(2) [OF k(1)] digit_split(1) [OF k(2)] div_mult_mod_eq)
  show "(unat b mod 16 * 4 + unat c div 64) mod 4 * 64 + unat c mod 64 = unat c"
    by (simp only: digit_split(2) [OF k(2)] div_mult_mod_eq)
qed

lemma b64_quanta_tail:
  "b64_quanta [unat a div 4, unat a mod 4 * 16] = Some [a]"
  "b64_quanta [unat a div 4, unat a mod 4 * 16 + unat b div 16, unat b mod 16 * 4] = Some [a, b]"
  by (simp_all only: b64_quanta.simps byte_rejoin word_of_nat_unat)

lemma b64_quanta_step:
  "b64_quanta (unat a div 4 # (unat a mod 4 * 16 + unat b div 16)
      # (unat b mod 16 * 4 + unat c div 64) # unat c mod 64 # ds)
    = map_option (\<lambda>bs. a # b # c # bs) (b64_quanta ds)"
  by (simp only: b64_quanta.simps byte_rejoin word_of_nat_unat)

lemma b64_decode_encode [simp]: "b64_decode (b64_encode bs) = Some bs"
proof -
  have "\<exists>vs. b64_vals (b64_encode bs) = Some vs \<and> b64_quanta vs = Some bs"
  proof (induction bs rule: b64_encode.induct)
    case (4 a b c bs)
    then obtain vs where "b64_vals (b64_encode bs) = Some vs" "b64_quanta vs = Some bs"
      by blast
    then show ?case
      by (simp add: b64_vals_Cons byte_parts b64_quanta_step
          del: b64_vals.simps(2) b64_quanta.simps)
  qed (simp_all add: b64_vals_Cons byte_parts b64_quanta_tail
        del: b64_vals.simps(2) b64_quanta.simps(2-))
  then show ?thesis by (auto simp: b64_decode_def)
qed

lemma b64_encode_inject [simp]: "b64_encode a = b64_encode b \<longleftrightarrow> a = b"
  by (metis b64_decode_encode option.inject)

lemma length_b64_encode: "length (b64_encode bs) = (4 * length bs + 2) div 3"
  by (induction bs rule: b64_encode.induct) simp_all

lemma slash_not_b64_char: "n < 64 \<Longrightarrow> slash \<noteq> b64_char n"
  using b64_char_facts [of n] by metis

lemma slash_not_in_b64 [simp]: "slash \<notin> set (b64_encode bs)"
  by (induction bs rule: b64_encode.induct) (simp_all add: byte_parts slash_not_b64_char)

lemma b64_encode_Nil_iff [simp]: "b64_encode bs = [] \<longleftrightarrow> bs = []"
  by (cases bs rule: b64_encode.cases) auto

section \<open>binary.BigEndian\<close>

text \<open>The \<open>k\<close> low bytes of a number, most significant first, and back.\<close>

fun be_digits :: "nat \<Rightarrow> nat \<Rightarrow> bytes" where
  "be_digits 0 n = []"
| "be_digits (Suc k) n = be_digits k (n div 256) @ [word_of_nat (n mod 256)]"

definition be_nat :: "bytes \<Rightarrow> nat" where
  "be_nat bs = foldl (\<lambda>n b. 256 * n + unat b) 0 bs"

text \<open>\<open>PutUint16\<close> and \<open>PutUint64\<close>, as the bytes they write.\<close>

definition put_u16 :: "16 word \<Rightarrow> bytes" where
  "put_u16 w = be_digits 2 (unat w)"

definition put_u64 :: "64 word \<Rightarrow> bytes" where
  "put_u64 w = be_digits 8 (unat w)"

lemma length_be_digits [simp]: "length (be_digits k n) = k"
  by (induction k arbitrary: n) simp_all

lemma be_nat_snoc: "be_nat (bs @ [b]) = 256 * be_nat bs + unat b"
  by (simp add: be_nat_def)

lemma be_nat_digits: "be_nat (be_digits k n) = n mod 256 ^ k"
proof (induction k arbitrary: n)
  case 0
  show ?case by (simp add: be_nat_def)
next
  case (Suc k)
  have "be_nat (be_digits (Suc k) n) = 256 * (n div 256 mod 256 ^ k) + n mod 256"
    by (simp add: be_nat_snoc Suc.IH unat_byte_of_nat)
  also have "\<dots> = n mod (256 * 256 ^ k)" by (rule mod_mult2_eq [symmetric])
  finally show ?case by simp
qed

lemma be_digits_nat: "be_digits (length bs) (be_nat bs) = bs"
proof (induction bs rule: rev_induct)
  case (snoc b bs)
  have "(256 * be_nat bs + unat b) div 256 = be_nat bs"
    "(256 * be_nat bs + unat b) mod 256 = unat b"
    by simp_all
  with snoc show ?case by (simp add: be_nat_snoc)
qed (simp add: be_nat_def)

lemma be_nat_less: "be_nat bs < 256 ^ length bs"
proof (induction bs rule: rev_induct)
  case (snoc b bs)
  then have "256 * be_nat bs + 256 \<le> 256 * 256 ^ length bs" by simp
  with unat_byte_less [of b] show ?case by (simp add: be_nat_snoc del: unat_byte_less)
qed (simp add: be_nat_def)

lemma length_put_u16 [simp]: "length (put_u16 w) = 2"
  by (simp add: put_u16_def)

lemma length_put_u64 [simp]: "length (put_u64 w) = 8"
  by (simp add: put_u64_def)

lemma be_nat_put_u16 [simp]: "be_nat (put_u16 w) = unat w"
  using unsigned_less [of w, where ?'a = nat] by (simp add: put_u16_def be_nat_digits)

lemma be_nat_put_u64 [simp]: "be_nat (put_u64 w) = unat w"
  using unsigned_less [of w, where ?'a = nat] by (simp add: put_u64_def be_nat_digits)

lemma put_u16_be_nat: "length bs = 2 \<Longrightarrow> put_u16 (word_of_nat (be_nat bs)) = bs"
  using be_digits_nat [of bs] be_nat_less [of bs]
  by (simp add: put_u16_def unat_of_nat take_bit_eq_mod)

lemma put_u64_be_nat: "length bs = 8 \<Longrightarrow> put_u64 (word_of_nat (be_nat bs)) = bs"
  using be_digits_nat [of bs] be_nat_less [of bs]
  by (simp add: put_u64_def unat_of_nat take_bit_eq_mod)

section \<open>strconv.Itoa and strconv.Atoi\<close>

definition digit_char :: "nat \<Rightarrow> char" where
  "digit_char n = char_of (48 + n)"

fun utoa :: "nat \<Rightarrow> string" where
  "utoa n = (if n < 10 then [digit_char n] else utoa (n div 10) @ [digit_char (n mod 10)])"

declare utoa.simps [simp del]

definition itoa :: "int \<Rightarrow> string" where
  "itoa i = (if i < 0 then CHR ''-'' # utoa (nat (- i)) else utoa (nat i))"

definition digit_val :: "char \<Rightarrow> nat option" where
  "digit_val c = (let n = of_char c :: nat in if 48 \<le> n \<and> n \<le> 57 then Some (n - 48) else None)"

fun digits_val :: "nat \<Rightarrow> string \<Rightarrow> nat option" where
  "digits_val acc [] = Some acc"
| "digits_val acc (c # s) =
     (case digit_val c of None \<Rightarrow> None | Some d \<Rightarrow> digits_val (10 * acc + d) s)"

text \<open>\<open>strconv.Atoi\<close>: an optional sign, at least one digit, and a value in the range of
  a 64-bit \<open>int\<close>; \<open>None\<close> is its error.\<close>

definition atoi :: "string \<Rightarrow> int option" where
  "atoi s =
     (let neg = (s \<noteq> [] \<and> hd s = CHR ''-'');
          ds = (if s \<noteq> [] \<and> (hd s = CHR ''-'' \<or> hd s = CHR ''+'') then tl s else s)
      in if ds = [] then None
         else case digits_val 0 ds of
                None \<Rightarrow> None
              | Some n \<Rightarrow>
                  (if neg then (if n \<le> 2 ^ 63 then Some (- int n) else None)
                   else if n < 2 ^ 63 then Some (int n) else None))"

lemma digit_val_char: "n < 10 \<Longrightarrow> digit_val (digit_char n) = Some n"
  by (simp add: digit_val_def digit_char_def)

lemma digits_val_append:
  "digits_val acc (s @ t) = Option.bind (digits_val acc s) (\<lambda>n. digits_val n t)"
  by (induction s arbitrary: acc) (auto split: option.splits)

lemma digits_val_utoa: "digits_val 0 (utoa n) = Some n"
proof (induction n rule: utoa.induct)
  case (1 n)
  show ?case
  proof (cases "n < 10")
    case True
    then show ?thesis by (simp add: utoa.simps [of n] digit_val_char)
  next
    case False
    with "1.IH" show ?thesis
      by (simp add: utoa.simps [of n] digits_val_append digit_val_char)
  qed
qed

definition decimal_chars :: "char set" where
  "decimal_chars = set ''0123456789''"

lemma digit_char_in: "n < 10 \<Longrightarrow> digit_char n \<in> decimal_chars"
proof -
  have "list_all (\<lambda>n. digit_char n \<in> set ''0123456789'') [0..<10]" by code_simp
  then show "n < 10 \<Longrightarrow> digit_char n \<in> decimal_chars"
    unfolding list_all_iff decimal_chars_def by simp
qed

lemma utoa_set: "utoa n \<noteq> [] \<and> set (utoa n) \<subseteq> decimal_chars"
proof (induction n rule: utoa.induct)
  case (1 n)
  show ?case
  proof (cases "n < 10")
    case True
    then show ?thesis by (simp add: utoa.simps [of n] digit_char_in)
  next
    case False
    with "1.IH" show ?thesis by (simp add: utoa.simps [of n] digit_char_in)
  qed
qed

lemma hd_utoa: "hd (utoa n) \<in> decimal_chars"
  using utoa_set [of n] hd_in_set by blast

lemma atoi_itoa: "0 \<le> i \<Longrightarrow> i < 2 ^ 63 \<Longrightarrow> atoi (itoa i) = Some i"
proof -
  assume i: "0 \<le> i" "i < 2 ^ 63"
  have "hd (utoa (nat i)) \<noteq> CHR ''-''" "hd (utoa (nat i)) \<noteq> CHR ''+''" "utoa (nat i) \<noteq> []"
    using hd_utoa [of "nat i"] utoa_set [of "nat i"] by (auto simp: decimal_chars_def)
  moreover have "nat i < 2 ^ 63" using i by (simp add: nat_less_iff)
  ultimately show ?thesis using i by (simp add: atoi_def itoa_def digits_val_utoa)
qed

lemma itoa_chars: "0 \<le> i \<Longrightarrow> itoa i \<noteq> [] \<and> set (itoa i) \<subseteq> decimal_chars"
  using utoa_set by (simp add: itoa_def)

end
