(* ===== verification/GoUtf8.thy ===== *)
theory GoUtf8
  imports S3Prelude GoEncoding
begin

text \<open>
  UTF-8 as Go's \<open>unicode/utf8\<close> decodes it, and what the code builds on it:
  \<open>utf8.ValidString\<close>, \<open>unicode.IsControl\<close>, \<open>unicode.IsSpace\<close> (for
  \<open>strings.TrimSpace\<close>), \<open>strings.EqualFold\<close> against an ASCII word and
  \<open>strconv.Quote\<close>.
\<close>

section \<open>Decoding\<close>

abbreviation ord :: "char \<Rightarrow> nat" where
  "ord c \<equiv> of_char c"

definition cont_byte :: "char \<Rightarrow> bool" where
  "cont_byte c \<longleftrightarrow> 0x80 \<le> ord c \<and> ord c \<le> 0xBF"

text \<open>The range of the second byte that the first one allows.\<close>

definition second_ok :: "nat \<Rightarrow> char \<Rightarrow> bool" where
  "second_ok b d =
     (let n = ord d
      in (if b = 0xE0 then 0xA0 else if b = 0xF0 then 0x90 else 0x80) \<le> n
       \<and> n \<le> (if b = 0xED then 0x9F else if b = 0xF4 then 0x8F else 0xBF))"

text \<open>
  \<open>utf8.DecodeRuneInString\<close> of a non-empty string: the rune and its width, or
  \<open>None\<close> and width 1 where Go returns \<open>RuneError\<close> for an invalid encoding.
\<close>

fun decode_rune :: "string \<Rightarrow> nat option \<times> nat" where
  "decode_rune [] = (None, 0)"
| "decode_rune (c # s) =
     (let b = ord c in
      if b < 0x80 then (Some b, 1)
      else if 0xC2 \<le> b \<and> b \<le> 0xDF then
        (case s of d # _ \<Rightarrow>
           if cont_byte d then (Some ((b - 0xC0) * 64 + (ord d - 0x80)), 2) else (None, 1)
         | _ \<Rightarrow> (None, 1))
      else if 0xE0 \<le> b \<and> b \<le> 0xEF then
        (case s of d # e # _ \<Rightarrow>
           if second_ok b d \<and> cont_byte e
           then (Some ((b - 0xE0) * 4096 + (ord d - 0x80) * 64 + (ord e - 0x80)), 3)
           else (None, 1)
         | _ \<Rightarrow> (None, 1))
      else if 0xF0 \<le> b \<and> b \<le> 0xF4 then
        (case s of d # e # f # _ \<Rightarrow>
           if second_ok b d \<and> cont_byte e \<and> cont_byte f
           then (Some ((b - 0xF0) * 262144 + (ord d - 0x80) * 4096 + (ord e - 0x80) * 64
                   + (ord f - 0x80)), 4)
           else (None, 1)
         | _ \<Rightarrow> (None, 1))
      else (None, 1))"

text \<open>The runes of a string with the bytes each was decoded from: a \<open>range\<close> loop.\<close>

function runes :: "string \<Rightarrow> (nat option \<times> string) list" where
  "runes [] = []"
| "runes (c # s) =
     (let (r, w) = decode_rune (c # s)
      in (r, take w (c # s)) # runes (drop (w - 1) s))"
  by pat_completeness auto
termination
  by (relation "measure length") (auto simp: less_Suc_eq_le)

definition valid_utf8 :: "string \<Rightarrow> bool" where
  "valid_utf8 s \<longleftrightarrow> list_all (\<lambda>(r, _). r \<noteq> None) (runes s)"

lemma decode_rune_ascii: "ord c < 128 \<Longrightarrow> decode_rune (c # s) = (Some (ord c), 1)"
  by simp

lemma runes_ascii_Cons: "ord c < 128 \<Longrightarrow> runes (c # s) = (Some (ord c), [c]) # runes s"
  by simp

lemma runes_ascii:
  "(\<And>c. c \<in> set s \<Longrightarrow> ord c < 128) \<Longrightarrow> runes s = map (\<lambda>c. (Some (ord c), [c])) s"
  by (induction s) (simp_all add: runes_ascii_Cons del: runes.simps(2))

lemma valid_utf8_ascii: "(\<And>c. c \<in> set s \<Longrightarrow> ord c < 128) \<Longrightarrow> valid_utf8 s"
  by (simp add: valid_utf8_def runes_ascii list_all_iff)

section \<open>Classes of runes\<close>

definition is_control :: "nat \<Rightarrow> bool" where
  "is_control r \<longleftrightarrow> r \<le> 0x1F \<or> (0x7F \<le> r \<and> r \<le> 0x9F)"

definition is_space :: "nat \<Rightarrow> bool" where
  "is_space r \<longleftrightarrow> (9 \<le> r \<and> r \<le> 13) \<or> r = 0x20 \<or> r = 0x85 \<or> r = 0xA0 \<or> r = 0x1680
     \<or> (0x2000 \<le> r \<and> r \<le> 0x200A) \<or> r = 0x2028 \<or> r = 0x2029 \<or> r = 0x202F \<or> r = 0x205F
     \<or> r = 0x3000"

text \<open>\<open>strings.TrimSpace(s) == ""\<close>: every rune of \<open>s\<close> is white space.\<close>

definition blank :: "string \<Rightarrow> bool" where
  "blank s \<longleftrightarrow> list_all (\<lambda>(r, _). case r of Some n \<Rightarrow> is_space n | None \<Rightarrow> False) (runes s)"

text \<open>\<open>strings.IndexFunc(s, unicode.IsControl) >= 0\<close>.\<close>

definition has_control :: "string \<Rightarrow> bool" where
  "has_control s \<longleftrightarrow> list_ex (\<lambda>(r, _). case r of Some n \<Rightarrow> is_control n | None \<Rightarrow> False) (runes s)"

section \<open>Case\<close>

definition ascii_lower :: "char \<Rightarrow> char" where
  "ascii_lower c = (if 65 \<le> ord c \<and> ord c \<le> 90 then char_of (ord c + 32) else c)"

text \<open>\<open>strings.ToLower\<close> of an ASCII string.\<close>

definition to_lower :: "string \<Rightarrow> string" where
  "to_lower s = map ascii_lower s"

text \<open>
  \<open>strings.EqualFold(s, w)\<close> for a lower-case ASCII word \<open>w\<close>. Unicode simple folding
  joins \<open>s\<close> with U+017F and \<open>k\<close> with U+212A.
\<close>

definition fold_rune :: "nat option \<Rightarrow> nat option" where
  "fold_rune r =
     (case r of
        Some n \<Rightarrow> Some (if 65 \<le> n \<and> n \<le> 90 then n + 32
                        else if n = 0x17F then 115 else if n = 0x212A then 107 else n)
      | None \<Rightarrow> None)"

definition equal_fold :: "string \<Rightarrow> string \<Rightarrow> bool" where
  "equal_fold s w \<longleftrightarrow> map (fold_rune \<circ> fst) (runes s) = map (fold_rune \<circ> fst) (runes w)"

section \<open>strconv.Quote\<close>

definition hex_pad :: "nat \<Rightarrow> nat \<Rightarrow> string" where
  "hex_pad k n = map (\<lambda>i. hex_char (n div 16 ^ i mod 16)) (rev [0..<k])"

text \<open>
  \<open>is_print\<close> stands for Go's table of printable runes outside ASCII; inside ASCII they are
  U+0020 to U+007E.
\<close>

definition quote_rune :: "(nat \<Rightarrow> bool) \<Rightarrow> nat option \<times> string \<Rightarrow> string" where
  "quote_rune is_print rb =
     (case rb of
        (None, bs) \<Rightarrow> concat (map (\<lambda>c. [CHR 0x5C, CHR ''x''] @ hex_pad 2 (ord c)) bs)
      | (Some r, bs) \<Rightarrow>
          (if r = 0x22 \<or> r = 0x5C then CHR 0x5C # bs
           else if (if r < 0x80 then 0x20 \<le> r \<and> r \<le> 0x7E else is_print r) then bs
           else if r = 7 then [CHR 0x5C, CHR ''a'']
           else if r = 8 then [CHR 0x5C, CHR ''b'']
           else if r = 12 then [CHR 0x5C, CHR ''f'']
           else if r = 10 then [CHR 0x5C, CHR ''n'']
           else if r = 13 then [CHR 0x5C, CHR ''r'']
           else if r = 9 then [CHR 0x5C, CHR ''t'']
           else if r = 11 then [CHR 0x5C, CHR ''v'']
           else if r < 0x20 \<or> r = 0x7F then [CHR 0x5C, CHR ''x''] @ hex_pad 2 r
           else if r < 0x10000 then [CHR 0x5C, CHR ''u''] @ hex_pad 4 r
           else [CHR 0x5C, CHR ''U''] @ hex_pad 8 r))"

definition quote :: "(nat \<Rightarrow> bool) \<Rightarrow> string \<Rightarrow> string" where
  "quote is_print s = [CHR 0x22] @ concat (map (quote_rune is_print) (runes s)) @ [CHR 0x22]"

text \<open>A string of printable ASCII without a quote or a backslash is quoted as it is.\<close>

definition plain_char :: "char \<Rightarrow> bool" where
  "plain_char c \<longleftrightarrow> 0x20 \<le> ord c \<and> ord c \<le> 0x7E \<and> ord c \<noteq> 0x22 \<and> ord c \<noteq> 0x5C"

lemma quote_plain: "list_all plain_char s \<Longrightarrow> quote is_print s = CHR 0x22 # s @ [CHR 0x22]"
proof -
  assume s: "list_all plain_char s"
  then have "runes s = map (\<lambda>c. (Some (ord c), [c])) s"
    by (intro runes_ascii) (auto simp: list_all_iff plain_char_def)
  moreover have "concat (map (quote_rune is_print) (map (\<lambda>c. (Some (ord c), [c])) s)) = s"
    using s by (induction s) (auto simp: quote_rune_def plain_char_def)
  ultimately show ?thesis by (simp add: quote_def)
qed

end
