(* ===== verification/EncryptionMode.thy ===== *)
theory EncryptionMode
  imports S3Prelude
begin

text \<open>
  \<open>EncryptionMode\<close> of options.go and its methods in encryption.go. The Go type is a
  \<open>uint8\<close>, so a value outside the four named postures exists and is modelled.
\<close>

type_synonym encryption_mode = "8 word"

definition EncryptionUnspecified :: encryption_mode where "EncryptionUnspecified = 0"
definition EncryptionBucketDefault :: encryption_mode where "EncryptionBucketDefault = 1"
definition EncryptionAES256 :: encryption_mode where "EncryptionAES256 = 2"
definition EncryptionKMS :: encryption_mode where "EncryptionKMS = 3"

lemmas encryption_modes =
  EncryptionUnspecified_def EncryptionBucketDefault_def EncryptionAES256_def EncryptionKMS_def

definition mode_string :: "encryption_mode \<Rightarrow> string" where
  "mode_string m =
     (if m = EncryptionUnspecified then ''unspecified''
      else if m = EncryptionBucketDefault then ''bucket-default''
      else if m = EncryptionAES256 then ''aes256''
      else if m = EncryptionKMS then ''kms''
      else ''unknown'')"

definition confirmedByThisModule :: "encryption_mode \<Rightarrow> bool" where
  "confirmedByThisModule m \<longleftrightarrow> m = EncryptionAES256 \<or> m = EncryptionKMS"

end
