(* ===== verification/Errors.thy ===== *)
theory Errors
  imports GoUtf8 EncryptionMode
begin

text \<open>
  The errors of the module as values, \<open>errors.As\<close> on error trees, the texts of the
  module's own error types and \<open>RedactedErrorText\<close> (redact.go), the one function that
  may record an error. The storage errors (\<open>InvalidNameError\<close>, \<open>BlobNotFoundError\<close>,
  \<open>BlobConflictError\<close>) and the SDK's \<open>ResponseError\<close> come from other modules; only
  the fields this code reads are kept.
\<close>

section \<open>Error values\<close>

datatype err =
    EOF
  | UnexpectedEOF
  | CtxCanceled
  | CtxDeadlineExceeded
  | DeadlineRequiredError string
  | NotImplementedError string
  | UnconstructedStoreError string
  | OptionsError string string
  | EncryptionPolicyError encryption_mode string
  | BackendError string
  | BlobIntegrityError string
  | ObjectTooLargeError int
  | BlobReaderClosedError
  | InvalidNameError string string
  | BlobNotFoundError string
  | BlobConflictError string
  | ResponseError nat
  | PlainError string
  | WrapError string err
  | JoinError string "err list"

text \<open>
  A call's result: \<open>Inl\<close> the error, \<open>Inr\<close> the value. \<open>errors.New\<close> gives a
  \<open>PlainError\<close>; an error with an \<open>Unwrap() error\<close> method is a \<open>WrapError\<close>, one
  with \<open>Unwrap() []error\<close> a \<open>JoinError\<close>, each with its own text.
\<close>

type_synonym 'a result = "err + 'a"

definition integrityError :: "string \<Rightarrow> err" where
  "integrityError operation = BlobIntegrityError operation"

definition invalidOption :: "string \<Rightarrow> string \<Rightarrow> err" where
  "invalidOption field reason = OptionsError field reason"

definition NotImplemented :: "string \<Rightarrow> err" where
  "NotImplemented operation = NotImplementedError operation"

section \<open>errors.As\<close>

text \<open>
  Pre-order, depth first: the error itself, then what it wraps. The selector plays the
  target type: it gives what the caller reads from an error of that type.
\<close>

fun errors_as :: "(err \<Rightarrow> 'a option) \<Rightarrow> err \<Rightarrow> 'a option"
  and errors_as_list :: "(err \<Rightarrow> 'a option) \<Rightarrow> err list \<Rightarrow> 'a option" where
  "errors_as sel (WrapError t e) =
     (case sel (WrapError t e) of Some x \<Rightarrow> Some x | None \<Rightarrow> errors_as sel e)"
| "errors_as sel (JoinError t es) =
     (case sel (JoinError t es) of Some x \<Rightarrow> Some x | None \<Rightarrow> errors_as_list sel es)"
| "errors_as sel e = sel e"
| "errors_as_list sel [] = None"
| "errors_as_list sel (e # es) =
     (case errors_as sel e of Some x \<Rightarrow> Some x | None \<Rightarrow> errors_as_list sel es)"

fun as_options :: "err \<Rightarrow> (string \<times> string) option" where
  "as_options (OptionsError f r) = Some (f, r)" | "as_options _ = None"

fun as_deadline :: "err \<Rightarrow> string option" where
  "as_deadline (DeadlineRequiredError op) = Some op" | "as_deadline _ = None"

fun as_not_implemented :: "err \<Rightarrow> string option" where
  "as_not_implemented (NotImplementedError op) = Some op" | "as_not_implemented _ = None"

fun as_unconstructed :: "err \<Rightarrow> string option" where
  "as_unconstructed (UnconstructedStoreError op) = Some op" | "as_unconstructed _ = None"

fun as_reader_closed :: "err \<Rightarrow> unit option" where
  "as_reader_closed BlobReaderClosedError = Some ()" | "as_reader_closed _ = None"

fun as_encryption_policy :: "err \<Rightarrow> (encryption_mode \<times> string) option" where
  "as_encryption_policy (EncryptionPolicyError m r) = Some (m, r)"
| "as_encryption_policy _ = None"

fun as_backend :: "err \<Rightarrow> string option" where
  "as_backend (BackendError op) = Some op" | "as_backend _ = None"

fun as_integrity :: "err \<Rightarrow> string option" where
  "as_integrity (BlobIntegrityError op) = Some op" | "as_integrity _ = None"

fun as_too_large :: "err \<Rightarrow> int option" where
  "as_too_large (ObjectTooLargeError m) = Some m" | "as_too_large _ = None"

fun as_invalid_name :: "err \<Rightarrow> (string \<times> string) option" where
  "as_invalid_name (InvalidNameError n r) = Some (n, r)" | "as_invalid_name _ = None"

fun as_not_found :: "err \<Rightarrow> string option" where
  "as_not_found (BlobNotFoundError k) = Some k" | "as_not_found _ = None"

fun as_response :: "err \<Rightarrow> nat option" where
  "as_response (ResponseError st) = Some st" | "as_response _ = None"

definition isHTTPStatus :: "err \<Rightarrow> nat \<Rightarrow> bool" where
  "isHTTPStatus e status \<longleftrightarrow> errors_as as_response e = Some status"

definition isConditionalConflict :: "err \<Rightarrow> bool" where
  "isConditionalConflict e \<longleftrightarrow> isHTTPStatus e 409 \<or> isHTTPStatus e 412"

section \<open>Texts\<close>

text \<open>\<open>Error()\<close> of the types this module defines (guard.go, options.go, encryption.go,
  blob.go, manifest.go, blob_io.go, blob_reader.go).\<close>

definition options_text :: "(nat \<Rightarrow> bool) \<Rightarrow> string \<times> string \<Rightarrow> string" where
  "options_text isp fr = ''s3store: invalid option '' @ quote isp (fst fr) @ '': '' @ snd fr"

definition deadline_text :: "(nat \<Rightarrow> bool) \<Rightarrow> string \<Rightarrow> string" where
  "deadline_text isp op =
     ''s3store: operation '' @ quote isp op @ '' requires a caller context deadline''"

definition not_implemented_text :: "(nat \<Rightarrow> bool) \<Rightarrow> string \<Rightarrow> string" where
  "not_implemented_text isp op = ''s3store: operation '' @ quote isp op @ '' is not implemented''"

definition unconstructed_text :: "(nat \<Rightarrow> bool) \<Rightarrow> string \<Rightarrow> string" where
  "unconstructed_text isp op =
     ''s3store: operation '' @ quote isp op
       @ '' used a Store that was not built by the package constructor''"

definition reader_closed_text :: string where
  "reader_closed_text = ''s3store: blob reader is closed''"

definition encryption_policy_text :: "encryption_mode \<times> string \<Rightarrow> string" where
  "encryption_policy_text mr =
     ''s3store: encryption posture '' @ mode_string (fst mr)
       @ '' does not satisfy the deployment policy: '' @ snd mr"

definition backend_text :: "string \<Rightarrow> string" where
  "backend_text op = ''s3store: backend operation failed during '' @ op"

definition integrity_text :: "string \<Rightarrow> string" where
  "integrity_text op = ''s3store: blob integrity verification failed during '' @ op"

definition too_large_text :: string where
  "too_large_text = ''s3store: blob exceeds the configured accounted object-size maximum''"

text \<open>The text the redactor gives an invalid name: its grammar rule, never the name.\<close>

definition invalid_name_text :: "string \<times> string \<Rightarrow> string" where
  "invalid_name_text nr = ''s3store: invalid storage name: '' @ snd nr"

text \<open>\<open>errors.Is(err, fs.ErrClosed)\<close> for the reader's terminal error.\<close>

definition is_fs_closed :: "err \<Rightarrow> bool" where
  "is_fs_closed e \<longleftrightarrow> errors_as as_reader_closed e \<noteq> None"

section \<open>Redaction\<close>

definition redactedText :: string where
  "redactedText = ''s3store: error withheld from the record''"

text \<open>
  A nil error is \<open>None\<close>. The cascade asks \<open>errors.As\<close> for one type after the other
  and renders the first that is found.
\<close>

fun first_text :: "string option list \<Rightarrow> string \<Rightarrow> string" where
  "first_text [] d = d"
| "first_text (None # ts) d = first_text ts d"
| "first_text (Some t # ts) d = t"

definition redaction_cascade :: "(nat \<Rightarrow> bool) \<Rightarrow> err \<Rightarrow> string option list" where
  "redaction_cascade isp e =
     [map_option (options_text isp) (errors_as as_options e),
      map_option (deadline_text isp) (errors_as as_deadline e),
      map_option (not_implemented_text isp) (errors_as as_not_implemented e),
      map_option (unconstructed_text isp) (errors_as as_unconstructed e),
      map_option (\<lambda>_. reader_closed_text) (errors_as as_reader_closed e),
      map_option encryption_policy_text (errors_as as_encryption_policy e),
      map_option backend_text (errors_as as_backend e),
      map_option integrity_text (errors_as as_integrity e),
      map_option (\<lambda>_. too_large_text) (errors_as as_too_large e),
      map_option invalid_name_text (errors_as as_invalid_name e)]"

definition RedactedErrorText :: "(nat \<Rightarrow> bool) \<Rightarrow> err option \<Rightarrow> string" where
  "RedactedErrorText isp eo =
     (case eo of None \<Rightarrow> [] | Some e \<Rightarrow> first_text (redaction_cascade isp e) redactedText)"

section \<open>What redaction forgets\<close>

text \<open>
  \<open>scrub\<close> blanks everything in an error tree that may name a tenant, a session or a key:
  the name of an invalid name, the keys of the storage errors, the size limit, the texts of
  unclassified and wrapping errors and the status of a service response.
\<close>

fun scrub :: "err \<Rightarrow> err" where
  "scrub (InvalidNameError n r) = InvalidNameError [] r"
| "scrub (BlobNotFoundError k) = BlobNotFoundError []"
| "scrub (BlobConflictError k) = BlobConflictError []"
| "scrub (ObjectTooLargeError m) = ObjectTooLargeError 0"
| "scrub (ResponseError st) = ResponseError 0"
| "scrub (PlainError t) = PlainError []"
| "scrub (WrapError t e) = WrapError [] (scrub e)"
| "scrub (JoinError t es) = JoinError [] (map scrub es)"
| "scrub e = e"

text \<open>A selector whose answer survives scrubbing up to \<open>f\<close> at every node of a tree
  survives it on the whole tree.\<close>

lemma errors_as_list_cong:
  "(\<And>e. e \<in> set es \<Longrightarrow> map_option f (errors_as sel (g e)) = map_option f (errors_as sel e)) \<Longrightarrow>
   map_option f (errors_as_list sel (map g es)) = map_option f (errors_as_list sel es)"
  by (induction es) (force split: option.splits)+

lemma errors_as_scrub:
  assumes node: "\<And>e. map_option f (sel (scrub e)) = map_option f (sel e)"
    and wrap: "\<And>t e. sel (WrapError t e) = None"
    and join: "\<And>t es. sel (JoinError t es) = None"
  shows "map_option f (errors_as sel (scrub e)) = map_option f (errors_as sel e)"
proof (induction e)
  case (JoinError t es)
  then show ?case by (simp add: join errors_as_list_cong)
qed (use node [of "InvalidNameError _ _"] node [of "BlobNotFoundError _"]
      node [of "BlobConflictError _"] node [of "ObjectTooLargeError _"]
      node [of "ResponseError _"] node [of "PlainError _"] in \<open>simp_all add: wrap\<close>)

text \<open>Instances: what each type's renderer reads is not touched.\<close>

lemma scrub_selectors:
  "as_options (scrub e) = as_options e" "as_deadline (scrub e) = as_deadline e"
  "as_not_implemented (scrub e) = as_not_implemented e"
  "as_unconstructed (scrub e) = as_unconstructed e"
  "as_reader_closed (scrub e) = as_reader_closed e"
  "as_encryption_policy (scrub e) = as_encryption_policy e"
  "as_backend (scrub e) = as_backend e" "as_integrity (scrub e) = as_integrity e"
  "map_option (\<lambda>_. c) (as_too_large (scrub e)) = map_option (\<lambda>_. c) (as_too_large e)"
  "map_option invalid_name_text (as_invalid_name (scrub e))
     = map_option invalid_name_text (as_invalid_name e)"
  by (cases e; simp add: invalid_name_text_def)+

lemma redaction_cascade_scrub: "redaction_cascade isp (scrub e) = redaction_cascade isp e"
  by (simp add: redaction_cascade_def errors_as_scrub scrub_selectors)

text \<open>
  C33. What is recorded of an error does not depend on any identifier in it: blanking the name of an
  invalid name, the keys of the storage errors, the size limit, a response's status and every text
  that a foreign, wrapping or joined error carries, anywhere in the tree, leaves the redacted text
  as it was.
\<close>

theorem redaction_ignores_identifiers:
  "RedactedErrorText isp (Some (scrub e)) = RedactedErrorText isp (Some e)"
  by (simp add: RedactedErrorText_def redaction_cascade_scrub)

end
