(* ===== verification/Options.thy ===== *)
theory Options
  imports Errors
begin

text \<open>
  options.go and the encryption policy of encryption.go: \<open>Options.resolve\<close> turns what a
  deployment configures into the settings the store runs with, or names the first field it
  refuses. Sizes and durations are Go's \<open>int64\<close> (and \<open>int\<close>), kept in \<open>int\<close>; the products and
  sums of the memory budget go through \<open>wrap64\<close>.
\<close>

section \<open>Constants\<close>

definition maxDeploymentPrefixBytes :: nat where [limits]: "maxDeploymentPrefixBytes = 256"
definition minMultipartBytes :: int where [limits]: "minMultipartBytes = 5 * 2 ^ 20"
definition maxMultipartBytes :: int where [limits]: "maxMultipartBytes = 5 * 2 ^ 30"
definition defaultMultipartThreshold :: int where [limits]: "defaultMultipartThreshold = 64 * 2 ^ 20"
definition defaultMultipartPartSize :: int where [limits]: "defaultMultipartPartSize = 16 * 2 ^ 20"
definition defaultConcurrency :: int where [limits]: "defaultConcurrency = 3"
definition maxConcurrency :: int where [limits]: "maxConcurrency = 64"
definition defaultMaxConcurrentTransfers :: int where [limits]: "defaultMaxConcurrentTransfers = 4"
definition maxConcurrentTransfers :: int where [limits]: "maxConcurrentTransfers = 32"
definition maxAggregateTransferMemory :: int where [limits]: "maxAggregateTransferMemory = 512 * 2 ^ 20"
definition maxKMSKeyIDBytes :: nat where [limits]: "maxKMSKeyIDBytes = 2048"
definition minOperationTimeout :: int where [limits]: "minOperationTimeout = 10 ^ 6"
definition maxUploadParts :: int where [limits]: "maxUploadParts = 10000"

text \<open>The package constant \<open>DefaultOperationTimeout\<close>; durations are in nanoseconds.\<close>

definition DefaultOperationTimeoutValue :: int where
  [limits]: "DefaultOperationTimeoutValue = 30 * 10 ^ 9"

type_synonym addressing_style = "8 word"

definition AddressingVirtualHosted :: addressing_style where "AddressingVirtualHosted = 0"
definition AddressingPath :: addressing_style where "AddressingPath = 1"

section \<open>Options\<close>

text \<open>\<open>Credentials\<close> is an interface value of the SDK; only whether it is nil, and that it is
  handed on, matters here.\<close>

record options =
  Endpoint :: string
  Region :: string
  Bucket :: string
  DeploymentPrefix :: string
  AddressingStyle :: addressing_style
  Encryption :: encryption_mode
  KMSKeyID :: string
  RequireConfirmedEncryption :: bool
  MultipartThreshold :: int
  MultipartPartSize :: int
  Concurrency :: int
  MaxConcurrentTransfers :: int
  Credentials :: "nat option"
  DefaultOperationTimeout :: int
  AllowInsecureLocalhostOnly :: bool

record resolved_options =
  ro_endpoint :: string
  ro_region :: string
  ro_bucket :: string
  ro_deploymentPrefix :: string
  ro_addressingStyle :: addressing_style
  ro_encryption :: encryption_mode
  ro_kmsKeyID :: string
  ro_multipartThreshold :: int
  ro_multipartPartSize :: int
  ro_maxAccountedObjectSize :: int
  ro_concurrency :: int
  ro_maxConcurrentTransfers :: int
  ro_credentials :: "nat option"
  ro_operationTimeout :: int

text \<open>
  What the code uses of \<open>net/url\<close> and \<open>net\<close>: the fields of a parsed URL (\<open>None\<close> for a
  parse error) and the bytes of a parsed IP address. Both parsers are arguments.
\<close>

record parsed_url =
  u_scheme :: string
  u_opaque :: string
  u_has_user :: bool
  u_host :: string
  u_hostname :: string
  u_path :: string
  u_raw_query :: string
  u_force_query :: bool
  u_fragment :: string
  u_raw_fragment :: string

record parsers =
  url_parse :: "string \<Rightarrow> parsed_url option"
  parse_ip :: "string \<Rightarrow> bytes option"
  validate_name :: "string \<Rightarrow> err option"

section \<open>Results in sequence\<close>

definition ebind :: "'a result \<Rightarrow> ('a \<Rightarrow> 'b result) \<Rightarrow> 'b result" where
  "ebind r k = (case r of Inl e \<Rightarrow> Inl e | Inr x \<Rightarrow> k x)"

lemma ebind_Inr [inr_iff]: "ebind r k = Inr y \<longleftrightarrow> (\<exists>x. r = Inr x \<and> k x = Inr y)"
  by (cases r) (auto simp: ebind_def)

lemma ebind_Inl: "ebind r k = Inl e \<longleftrightarrow> r = Inl e \<or> (\<exists>x. r = Inr x \<and> k x = Inl e)"
  by (cases r) (auto simp: ebind_def)

lemma ebind_simps [simp]: "ebind (Inl e) k = Inl e" "ebind (Inr x) k = k x"
  by (simp_all add: ebind_def)

text \<open>A check that gives an error or nil.\<close>

definition eguard :: "err option \<Rightarrow> 'b result \<Rightarrow> 'b result" where
  "eguard e k = (case e of Some x \<Rightarrow> Inl x | None \<Rightarrow> k)"

lemma eguard_Inr [inr_iff]: "eguard e k = Inr y \<longleftrightarrow> e = None \<and> k = Inr y"
  by (cases e) (auto simp: eguard_def)

lemma eguard_Inl: "eguard e k = Inl x \<longleftrightarrow> e = Some x \<or> (e = None \<and> k = Inl x)"
  by (cases e) (auto simp: eguard_def)

section \<open>Single fields\<close>

definition resolveTransferSize :: "string \<Rightarrow> int \<Rightarrow> int \<Rightarrow> int result" where
  "resolveTransferSize field requested fallback =
     (if requested = 0 then Inr fallback
      else if requested < minMultipartBytes
      then Inl (invalidOption field ''must be at least 5 MiB or zero for the default'')
      else if maxMultipartBytes < requested
      then Inl (invalidOption field ''must be at most 5 GiB'')
      else Inr requested)"

definition accountedObjectSize :: "int \<Rightarrow> int" where
  "accountedObjectSize partSize = wrap64 (wrap64 (partSize * maxUploadParts) - 1)"

definition ascii_lower_letter :: "char \<Rightarrow> bool" where
  "ascii_lower_letter c \<longleftrightarrow> 97 \<le> ord c \<and> ord c \<le> 122"

definition ascii_upper_letter :: "char \<Rightarrow> bool" where
  "ascii_upper_letter c \<longleftrightarrow> 65 \<le> ord c \<and> ord c \<le> 90"

definition ascii_digit :: "char \<Rightarrow> bool" where
  "ascii_digit c \<longleftrightarrow> 48 \<le> ord c \<and> ord c \<le> 57"

definition validRegion :: "string \<Rightarrow> bool" where
  "validRegion region \<longleftrightarrow>
     (if length region = 0 \<or> 63 < length region \<or> hd region = CHR ''-'' \<or> last region = CHR ''-''
      then False
      else list_all (\<lambda>c. ascii_lower_letter c \<or> ascii_upper_letter c \<or> ascii_digit c
                         \<or> c = CHR ''-'') region)"

definition validBucket :: "parsers \<Rightarrow> string \<Rightarrow> bool" where
  "validBucket lib bucket \<longleftrightarrow>
     (if length bucket < 3 \<or> 63 < length bucket \<or> contains bucket ''..'' then False
      else if parse_ip lib bucket \<noteq> None then False
      else list_all (\<lambda>i. let c = bucket ! i
                         in (ascii_lower_letter c \<or> ascii_digit c \<or> c = CHR ''-'' \<or> c = CHR ''.'')
                            \<and> (i = 0 \<or> i = length bucket - 1
                                \<longrightarrow> ascii_lower_letter c \<or> ascii_digit c))
             [0..<length bucket])"

text \<open>\<open>ip.IsLoopback()\<close>, on the 4-byte or 16-byte form.\<close>

definition to_ip4 :: "bytes \<Rightarrow> bytes option" where
  "to_ip4 ip =
     (if length ip = 4 then Some ip
      else if length ip = 16 \<and> take 12 ip = replicate 10 0 @ [0xFF, 0xFF] then Some (drop 12 ip)
      else None)"

definition is_loopback :: "bytes \<Rightarrow> bool" where
  "is_loopback ip =
     (case to_ip4 ip of
        Some ip4 \<Rightarrow> hd ip4 = 127
      | None \<Rightarrow> ip = replicate 15 0 @ [1])"

definition isLoopbackHost :: "parsers \<Rightarrow> string \<Rightarrow> bool" where
  "isLoopbackHost lib host \<longleftrightarrow>
     (if equal_fold host ''localhost'' then True
      else case parse_ip lib host of None \<Rightarrow> False | Some ip \<Rightarrow> is_loopback ip)"

text \<open>The \<open>switch\<close> on the scheme.\<close>

definition check_scheme :: "parsers \<Rightarrow> parsed_url \<Rightarrow> bool \<Rightarrow> err option" where
  "check_scheme lib u allowInsecureLocal =
     (if to_lower (u_scheme u) = ''https'' then None
      else if to_lower (u_scheme u) = ''http'' then
        (if \<not> allowInsecureLocal
         then Some (invalidOption ''Endpoint'' ''must use HTTPS; HTTP is test-only'')
         else if \<not> isLoopbackHost lib (u_hostname u)
         then Some (invalidOption ''Endpoint'' ''HTTP test endpoints must use a loopback host'')
         else None)
      else Some (invalidOption ''Endpoint'' ''must use HTTPS''))"

definition resolveEndpoint :: "parsers \<Rightarrow> string \<Rightarrow> bool \<Rightarrow> string result" where
  "resolveEndpoint lib raw allowInsecureLocal =
     (if blank raw then Inl (invalidOption ''Endpoint'' ''must be set'')
      else case url_parse lib raw of
        None \<Rightarrow> Inl (invalidOption ''Endpoint'' ''must be a valid URL with an absolute host'')
      | Some u \<Rightarrow>
          if u_scheme u = [] \<or> u_host u = [] \<or> u_opaque u \<noteq> []
          then Inl (invalidOption ''Endpoint'' ''must be a valid URL with an absolute host'')
          else if u_has_user u
          then Inl (invalidOption ''Endpoint'' ''must not contain userinfo'')
          else if u_raw_query u \<noteq> [] \<or> u_force_query u
          then Inl (invalidOption ''Endpoint'' ''must not contain a query'')
          else if u_fragment u \<noteq> [] \<or> u_raw_fragment u \<noteq> []
          then Inl (invalidOption ''Endpoint'' ''must not contain a fragment'')
          else if u_path u \<noteq> [] \<and> u_path u \<noteq> ''/''
          then Inl (invalidOption ''Endpoint'' ''must use the root path'')
          else eguard (check_scheme lib u allowInsecureLocal)
                 (Inr (to_lower (u_scheme u) @ ''://'' @ u_host u)))"

definition validateKMSKey :: "encryption_mode \<Rightarrow> string \<Rightarrow> err option" where
  "validateKMSKey mode keyID =
     (if mode = EncryptionKMS then
        (if keyID = []
         then Some (invalidOption ''KMSKeyID'' ''must be set when EncryptionKMS is selected'')
         else if maxKMSKeyIDBytes < length keyID
         then Some (invalidOption ''KMSKeyID'' ''must be at most 2048 bytes'')
         else if \<not> valid_utf8 keyID \<or> has_control keyID
         then Some (invalidOption ''KMSKeyID'' ''must be valid UTF-8 without control characters'')
         else None)
      else if keyID \<noteq> []
      then Some (invalidOption ''KMSKeyID'' ''may be set only when EncryptionKMS is selected'')
      else None)"

definition confirmation_reason :: string where
  "confirmation_reason =
     ''RequireConfirmedEncryption is set, but this posture is enforced by an ''
       @ ''external bucket policy that Open cannot confirm without a service request''"

definition requireConfirmedEncryption :: "bool \<Rightarrow> encryption_mode \<Rightarrow> err option" where
  "requireConfirmedEncryption required mode =
     (if \<not> required \<or> confirmedByThisModule mode then None
      else Some (EncryptionPolicyError mode confirmation_reason))"

section \<open>resolve\<close>

text \<open>In the code's order: the identity fields, the encryption posture, then the transfer
  sizes and their memory budget.\<close>

definition check_identity :: "parsers \<Rightarrow> options \<Rightarrow> err option" where
  "check_identity lib opts =
     (if \<not> validRegion (Region opts) then
        (if blank (Region opts) then Some (invalidOption ''Region'' ''must be set'')
         else Some (invalidOption ''Region''
           ''must contain only letters, digits, and hyphens and be at most 63 bytes''))
      else if \<not> validBucket lib (Bucket opts) then
        (if blank (Bucket opts) then Some (invalidOption ''Bucket'' ''must be set'')
         else Some (invalidOption ''Bucket'' ''must be a DNS-compatible S3 bucket name''))
      else if DeploymentPrefix opts = []
      then Some (invalidOption ''DeploymentPrefix'' ''must be set'')
      else if maxDeploymentPrefixBytes < length (DeploymentPrefix opts)
      then Some (invalidOption ''DeploymentPrefix'' ''must be at most 256 bytes'')
      else if validate_name lib (DeploymentPrefix opts) \<noteq> None
      then Some (invalidOption ''DeploymentPrefix'' ''must be a canonical Storage name'')
      else if AddressingPath < AddressingStyle opts
      then Some (invalidOption ''AddressingStyle'' ''has an unknown mode'')
      else None)"

definition check_encryption :: "options \<Rightarrow> err option" where
  "check_encryption opts =
     (if Encryption opts = EncryptionUnspecified
      then Some (invalidOption ''Encryption''
             ''must be set explicitly; the zero value is not an accepted posture'')
      else if EncryptionKMS < Encryption opts
      then Some (invalidOption ''Encryption'' ''has an unknown mode'')
      else case validateKMSKey (Encryption opts) (KMSKeyID opts) of
        Some e \<Rightarrow> Some e
      | None \<Rightarrow> requireConfirmedEncryption (RequireConfirmedEncryption opts) (Encryption opts))"

definition resolve_count :: "string \<Rightarrow> int \<Rightarrow> int \<Rightarrow> int \<Rightarrow> string \<Rightarrow> int result" where
  "resolve_count field requested fallback maximum too_many =
     (if requested < 0
      then Inl (invalidOption field ''must be positive or zero for the default'')
      else let n = (if requested = 0 then fallback else requested)
           in if maximum < n then Inl (invalidOption field too_many) else Inr n)"

definition resolve_timeout :: "int \<Rightarrow> int result" where
  "resolve_timeout requested =
     (let n = (if requested = 0 then DefaultOperationTimeoutValue else requested)
      in if n < minOperationTimeout
         then Inl (invalidOption ''DefaultOperationTimeout''
                ''must be at least one millisecond or zero for the default'')
         else Inr n)"

text \<open>\<open>(threshold + int64(concurrency+1)*partSize) * int64(maxTransfers)\<close>.\<close>

definition transfer_memory :: "int \<Rightarrow> int \<Rightarrow> int \<Rightarrow> int \<Rightarrow> int" where
  "transfer_memory threshold partSize concurrency transfers =
     (let partBuffers = wrap64 (wrap64 (concurrency + 1) * partSize);
          perTransferMemory = wrap64 (threshold + partBuffers)
      in wrap64 (perTransferMemory * transfers))"

definition resolve :: "parsers \<Rightarrow> options \<Rightarrow> resolved_options result" where
  "resolve lib opts =
     ebind (resolveEndpoint lib (Endpoint opts) (AllowInsecureLocalhostOnly opts)) (\<lambda>endpoint.
     eguard (check_identity lib opts) (
     eguard (check_encryption opts) (
     ebind (resolveTransferSize ''MultipartThreshold'' (MultipartThreshold opts)
              defaultMultipartThreshold) (\<lambda>threshold.
     ebind (resolveTransferSize ''MultipartPartSize'' (MultipartPartSize opts)
              defaultMultipartPartSize) (\<lambda>partSize.
     if threshold < partSize
     then Inl (invalidOption ''MultipartThreshold'' ''must not be less than MultipartPartSize'')
     else
     ebind (resolve_count ''Concurrency'' (Concurrency opts) defaultConcurrency maxConcurrency
              ''must be at most 64'') (\<lambda>concurrency.
     ebind (resolve_count ''MaxConcurrentTransfers'' (MaxConcurrentTransfers opts)
              defaultMaxConcurrentTransfers maxConcurrentTransfers
              ''must be at most 32'') (\<lambda>transfers.
     ebind (resolve_timeout (DefaultOperationTimeout opts)) (\<lambda>operationTimeout.
     if maxAggregateTransferMemory < transfer_memory threshold partSize concurrency transfers
     then Inl (invalidOption ''TransferMemoryBudget''
            ''multipart sizes, concurrency, and MaxConcurrentTransfers must require at most 512 MiB'')
     else Inr \<lparr>ro_endpoint = endpoint, ro_region = Region opts, ro_bucket = Bucket opts,
            ro_deploymentPrefix = DeploymentPrefix opts,
            ro_addressingStyle = AddressingStyle opts, ro_encryption = Encryption opts,
            ro_kmsKeyID = KMSKeyID opts, ro_multipartThreshold = threshold,
            ro_multipartPartSize = partSize,
            ro_maxAccountedObjectSize = accountedObjectSize partSize,
            ro_concurrency = concurrency, ro_maxConcurrentTransfers = transfers,
            ro_credentials = Credentials opts, ro_operationTimeout = operationTimeout\<rparr>))))))))"

section \<open>Inversion\<close>

lemma resolveTransferSize_Inr [inr_iff]:
  "resolveTransferSize f r d = Inr n \<longleftrightarrow>
     (r = 0 \<and> n = d) \<or> (r = n \<and> n \<noteq> 0 \<and> minMultipartBytes \<le> n \<and> n \<le> maxMultipartBytes)"
  by (auto simp: resolveTransferSize_def)

lemma resolve_count_Inr [inr_iff]:
  "resolve_count f r d m t = Inr n \<longleftrightarrow>
     0 \<le> r \<and> n = (if r = 0 then d else r) \<and> n \<le> m"
  by (auto simp: resolve_count_def Let_def)

lemma resolve_timeout_Inr [inr_iff]:
  "resolve_timeout r = Inr n \<longleftrightarrow>
     n = (if r = 0 then DefaultOperationTimeoutValue else r) \<and> minOperationTimeout \<le> n"
  by (auto simp: resolve_timeout_def Let_def)

lemma transfer_size_range:
  "resolveTransferSize f r d = Inr n \<Longrightarrow> minMultipartBytes \<le> d \<Longrightarrow> d \<le> maxMultipartBytes \<Longrightarrow>
   minMultipartBytes \<le> n \<and> n \<le> maxMultipartBytes"
  by (auto simp: inr_iff)

section \<open>The memory budget does not overflow\<close>

lemma transfer_memory_exact:
  assumes "0 \<le> threshold" "threshold \<le> maxMultipartBytes" "0 \<le> partSize" "partSize \<le> maxMultipartBytes"
    and "0 \<le> concurrency" "concurrency \<le> maxConcurrency" "0 \<le> transfers" "transfers \<le> maxConcurrentTransfers"
  shows "transfer_memory threshold partSize concurrency transfers =
    (threshold + (concurrency + 1) * partSize) * transfers"
proof -
  have c: "0 \<le> concurrency + 1" "concurrency + 1 \<le> 65" using assms by (simp_all add: limits)
  have buf: "0 \<le> (concurrency + 1) * partSize"
    "(concurrency + 1) * partSize \<le> 65 * maxMultipartBytes"
    using assms c by (auto intro!: mult_mono)
  have per: "0 \<le> threshold + (concurrency + 1) * partSize"
    "threshold + (concurrency + 1) * partSize \<le> 66 * maxMultipartBytes"
    using assms buf by simp_all
  have all: "0 \<le> (threshold + (concurrency + 1) * partSize) * transfers"
    "(threshold + (concurrency + 1) * partSize) * transfers \<le> (66 * maxMultipartBytes) * 32"
    using per assms mult_mono [OF per(2), of transfers 32]
    by (simp_all add: maxConcurrentTransfers_def maxMultipartBytes_def)
  have w: "wrap64 (concurrency + 1) = concurrency + 1"
    "wrap64 ((concurrency + 1) * partSize) = (concurrency + 1) * partSize"
    "wrap64 (threshold + (concurrency + 1) * partSize) = threshold + (concurrency + 1) * partSize"
    "wrap64 ((threshold + (concurrency + 1) * partSize) * transfers) =
       (threshold + (concurrency + 1) * partSize) * transfers"
    using c buf per all by (auto intro!: wrap64_id simp: limits)
  show ?thesis unfolding transfer_memory_def Let_def w ..
qed

lemma accountedObjectSize_exact:
  "0 \<le> partSize \<Longrightarrow> partSize \<le> maxMultipartBytes \<Longrightarrow>
   accountedObjectSize partSize = partSize * 10000 - 1"
  by (simp add: accountedObjectSize_def limits wrap64_id)

lemma resolve_fields:
  assumes "resolve lib opts = Inr r"
  shows "resolveTransferSize ''MultipartThreshold'' (MultipartThreshold opts)
          defaultMultipartThreshold = Inr (ro_multipartThreshold r)"
    and "resolveTransferSize ''MultipartPartSize'' (MultipartPartSize opts)
          defaultMultipartPartSize = Inr (ro_multipartPartSize r)"
    and "ro_multipartPartSize r \<le> ro_multipartThreshold r"
    and "1 \<le> ro_concurrency r" "ro_concurrency r \<le> maxConcurrency"
    and "1 \<le> ro_maxConcurrentTransfers r" "ro_maxConcurrentTransfers r \<le> maxConcurrentTransfers"
    and "minOperationTimeout \<le> ro_operationTimeout r"
    and "ro_maxAccountedObjectSize r = accountedObjectSize (ro_multipartPartSize r)"
    and "transfer_memory (ro_multipartThreshold r) (ro_multipartPartSize r) (ro_concurrency r)
          (ro_maxConcurrentTransfers r) \<le> maxAggregateTransferMemory"
    and "ro_addressingStyle r = AddressingStyle opts" "ro_deploymentPrefix r = DeploymentPrefix opts"
    and "check_identity lib opts = None" "check_encryption opts = None"
  using assms
  by (auto simp: resolve_def ebind_Inr eguard_Inr resolve_count_Inr resolve_timeout_Inr
      defaultConcurrency_def defaultMaxConcurrentTransfers_def split: if_splits)

lemma resolve_part_size:
  assumes "resolve lib opts = Inr r"
  shows "minMultipartBytes \<le> ro_multipartPartSize r" "ro_multipartPartSize r \<le> maxMultipartBytes"
    "ro_maxAccountedObjectSize r = ro_multipartPartSize r * 10000 - 1"
proof -
  show p: "minMultipartBytes \<le> ro_multipartPartSize r" "ro_multipartPartSize r \<le> maxMultipartBytes"
    using transfer_size_range [OF resolve_fields(2) [OF assms]] by (simp_all add: limits)
  then have "0 \<le> ro_multipartPartSize r" by (simp add: limits)
  with p(2) show "ro_maxAccountedObjectSize r = ro_multipartPartSize r * 10000 - 1"
    by (simp add: resolve_fields(9) [OF assms] accountedObjectSize_exact)
qed

section \<open>Properties\<close>

text \<open>A configuration for the witnesses, and parsers for it.\<close>

definition sample_parsers :: parsers where
  "sample_parsers =
     \<lparr>url_parse = (\<lambda>raw. Some \<lparr>u_scheme = ''https'', u_opaque = [], u_has_user = False,
        u_host = ''s3.test'', u_hostname = ''s3.test'', u_path = [], u_raw_query = [],
        u_force_query = False, u_fragment = [], u_raw_fragment = []\<rparr>),
      parse_ip = (\<lambda>_. None), validate_name = (\<lambda>_. None)\<rparr>"

definition sample_options :: options where
  "sample_options =
     \<lparr>Endpoint = ''https://s3.test'', Region = ''eu-1'', Bucket = ''bucket'',
      DeploymentPrefix = ''dep'', AddressingStyle = 0, Encryption = 2, KMSKeyID = [],
      RequireConfirmedEncryption = True, MultipartThreshold = 0, MultipartPartSize = 0,
      Concurrency = 0, MaxConcurrentTransfers = 0, Credentials = None,
      DefaultOperationTimeout = 0, AllowInsecureLocalhostOnly = False\<rparr>"

definition sample_resolved :: resolved_options where
  "sample_resolved =
     \<lparr>ro_endpoint = ''https://s3.test'', ro_region = ''eu-1'', ro_bucket = ''bucket'',
      ro_deploymentPrefix = ''dep'', ro_addressingStyle = 0, ro_encryption = 2, ro_kmsKeyID = [],
      ro_multipartThreshold = 67108864, ro_multipartPartSize = 16777216,
      ro_maxAccountedObjectSize = 167772159999, ro_concurrency = 3, ro_maxConcurrentTransfers = 4,
      ro_credentials = None, ro_operationTimeout = 30000000000\<rparr>"

lemma sample_endpoint:
  "resolveEndpoint sample_parsers ''https://s3.test'' False = Inr ''https://s3.test''"
proof -
  have "\<not> blank ''https://s3.test''" by (simp add: blank_def is_space_def runes_ascii_Cons)
  then show ?thesis
    by (simp add: resolveEndpoint_def sample_parsers_def check_scheme_def to_lower_def
        ascii_lower_def eguard_def)
qed

lemma sample_identity: "check_identity sample_parsers sample_options = None"
proof -
  have "validRegion ''eu-1''"
    by (simp add: validRegion_def ascii_lower_letter_def ascii_digit_def)
  moreover have "validBucket sample_parsers ''bucket''"
    by (simp add: validBucket_def sample_parsers_def has_prefix_def ascii_lower_letter_def upt_rec)
  ultimately show ?thesis
    by (simp add: check_identity_def sample_options_def sample_parsers_def limits)
qed

lemma sample_resolve: "resolve sample_parsers sample_options = Inr sample_resolved"
proof -
  note sample_endpoint sample_identity
  moreover have "check_encryption sample_options = None"
    by (simp add: check_encryption_def sample_options_def encryption_modes validateKMSKey_def
        requireConfirmedEncryption_def confirmedByThisModule_def)
  moreover have "transfer_memory 67108864 16777216 3 4 = 536870912"
    by (simp add: transfer_memory_def wrap64_def Let_def)
  moreover have "accountedObjectSize 16777216 = 167772159999"
    by (simp add: accountedObjectSize_def wrap64_def maxUploadParts_def)
  moreover have "resolveTransferSize f 0 d = Inr d" "resolve_timeout 0 = Inr 30000000000" for f d
    by (simp_all add: inr_iff limits)
  moreover have "resolve_count f 0 defaultConcurrency maxConcurrency t = Inr 3"
    "resolve_count f 0 defaultMaxConcurrentTransfers maxConcurrentTransfers t = Inr 4" for f t
    by (simp_all add: inr_iff limits)
  moreover have "defaultMultipartThreshold = 67108864" "defaultMultipartPartSize = 16777216"
    "maxAggregateTransferMemory = 536870912" by (simp_all add: limits)
  ultimately show ?thesis
    by (simp add: resolve_def eguard_def sample_resolved_def) (simp add: sample_options_def)
qed

text \<open>
  C27. What a resolved configuration guarantees: sizes, counts and timeout are within their
  limits, and the peak transfer memory, computed without wrap-around, is at most 512 MiB; the
  64-bit arithmetic of the check never overflows on the way there.
\<close>

theorem resolved_within_limits:
  assumes "resolve lib opts = Inr r"
  shows "minMultipartBytes \<le> ro_multipartPartSize r
    \<and> ro_multipartPartSize r \<le> ro_multipartThreshold r
    \<and> ro_multipartThreshold r \<le> maxMultipartBytes
    \<and> 1 \<le> ro_concurrency r \<and> ro_concurrency r \<le> 64
    \<and> 1 \<le> ro_maxConcurrentTransfers r \<and> ro_maxConcurrentTransfers r \<le> 32
    \<and> minOperationTimeout \<le> ro_operationTimeout r
    \<and> ro_maxAccountedObjectSize r = ro_multipartPartSize r * 10000 - 1
    \<and> (ro_multipartThreshold r + (ro_concurrency r + 1) * ro_multipartPartSize r)
        * ro_maxConcurrentTransfers r \<le> 512 * 2 ^ 20"
proof -
  note f = resolve_fields [OF assms]
  have tr: "minMultipartBytes \<le> ro_multipartThreshold r" "ro_multipartThreshold r \<le> maxMultipartBytes"
    using transfer_size_range [OF f(1)] by (simp_all add: limits)
  note pr = resolve_part_size [OF assms]
  have nn: "0 \<le> ro_multipartThreshold r" "0 \<le> ro_multipartPartSize r"
    using tr pr by (simp_all add: limits)
  from f(10) transfer_memory_exact [OF nn(1) tr(2) nn(2) pr(2)] f(4-7)
  have "(ro_multipartThreshold r + (ro_concurrency r + 1) * ro_multipartPartSize r)
        * ro_maxConcurrentTransfers r \<le> 512 * 2 ^ 20"
    by (simp add: maxAggregateTransferMemory_def)
  with tr pr f(3-8) show ?thesis
    by (simp add: maxConcurrency_def maxConcurrentTransfers_def)
qed

lemma resolved_within_limits_witness:
  "(ro_multipartThreshold sample_resolved
      + (ro_concurrency sample_resolved + 1) * ro_multipartPartSize sample_resolved)
     * ro_maxConcurrentTransfers sample_resolved \<le> 512 * 2 ^ 20"
  using resolved_within_limits [OF sample_resolve] by blast

text \<open>
  C28. Encryption posture: a configuration that resolves states one of the three postures, has a
  KMS key exactly under \<open>EncryptionKMS\<close>, and, where the deployment requires confirmed encryption,
  selects a posture this module itself puts on the wire; the zero value never resolves.
\<close>

theorem resolved_encryption_posture:
  assumes "resolve lib opts = Inr r"
  shows "ro_encryption r = Encryption opts \<and> ro_kmsKeyID r = KMSKeyID opts
    \<and> ro_encryption r \<in> {EncryptionBucketDefault, EncryptionAES256, EncryptionKMS}
    \<and> (ro_encryption r = EncryptionKMS \<longleftrightarrow> ro_kmsKeyID r \<noteq> [])
    \<and> (RequireConfirmedEncryption opts \<longrightarrow> ro_encryption r \<in> {EncryptionAES256, EncryptionKMS})"
proof -
  from assms have e: "ro_encryption r = Encryption opts" "ro_kmsKeyID r = KMSKeyID opts"
    and chk: "check_encryption opts = None"
    by (auto simp: resolve_def ebind_Inr eguard_Inr split: if_splits)
  from chk have kms: "validateKMSKey (Encryption opts) (KMSKeyID opts) = None"
    and req: "requireConfirmedEncryption (RequireConfirmedEncryption opts) (Encryption opts) = None"
    and mode: "Encryption opts \<noteq> EncryptionUnspecified" "Encryption opts \<le> EncryptionKMS"
    by (auto simp: check_encryption_def split: if_splits option.splits)
  have "Encryption opts \<in> {EncryptionBucketDefault, EncryptionAES256, EncryptionKMS}"
  proof -
    have "unat (Encryption opts) \<le> 3" "unat (Encryption opts) \<noteq> 0"
      using mode by (auto simp: encryption_modes word_le_nat_alt unat_eq_0)
    then consider "unat (Encryption opts) = 1" | "unat (Encryption opts) = 2"
      | "unat (Encryption opts) = 3" by linarith
    then show ?thesis
      by cases (simp_all add: encryption_modes word_unat_eq_iff)
  qed
  with e kms req show ?thesis
    by (auto simp: validateKMSKey_def requireConfirmedEncryption_def confirmedByThisModule_def
        split: if_splits)
qed

lemma resolved_encryption_posture_witness:
  "ro_encryption sample_resolved \<in> {EncryptionAES256, EncryptionKMS}"
proof -
  have "RequireConfirmedEncryption sample_options" by (simp add: sample_options_def)
  with resolved_encryption_posture [OF sample_resolve] show ?thesis by blast
qed

text \<open>
  C29. Transport: the endpoint of a configuration that resolves is \<open>https://\<close> plus a non-empty
  host, or \<open>http://\<close> plus a loopback host under \<open>AllowInsecureLocalhostOnly\<close>; nothing else of
  the URL (userinfo, query, fragment, path) is left in it.
\<close>

theorem resolved_endpoint_is_secure:
  assumes "resolve lib opts = Inr r"
  shows "\<exists>u. url_parse lib (Endpoint opts) = Some u \<and> u_host u \<noteq> [] \<and> \<not> u_has_user u
    \<and> (ro_endpoint r = ''https://'' @ u_host u
       \<or> (ro_endpoint r = ''http://'' @ u_host u \<and> AllowInsecureLocalhostOnly opts
          \<and> isLoopbackHost lib (u_hostname u)))"
proof -
  from assms have "resolveEndpoint lib (Endpoint opts) (AllowInsecureLocalhostOnly opts)
      = Inr (ro_endpoint r)"
    by (auto simp: resolve_def ebind_Inr eguard_Inr split: if_splits)
  then show ?thesis
    by (auto simp: resolveEndpoint_def eguard_Inr check_scheme_def split: if_splits option.splits)
qed

lemma resolved_endpoint_is_secure_witness:
  "\<exists>u. url_parse sample_parsers ''https://s3.test'' = Some u \<and> u_host u \<noteq> []"
  using resolved_endpoint_is_secure [OF sample_resolve] by (auto simp: sample_options_def)

text \<open>
  C30. The accounted object size is the exact boundary of the transfer manager's part-size
  inflation: an object is at most that large if and only if its size divided by the part size is
  below the pinned part ceiling.
\<close>

theorem accounted_object_size_boundary:
  assumes "minMultipartBytes \<le> partSize" "partSize \<le> maxMultipartBytes" "0 \<le> objectSize"
  shows "objectSize \<le> accountedObjectSize partSize \<longleftrightarrow> objectSize div partSize < maxUploadParts"
proof -
  have p: "0 < partSize" using assms(1) by (simp add: limits)
  have "objectSize div partSize < 10000 \<longleftrightarrow> objectSize < 10000 * partSize"
  proof -
    have q: "objectSize = partSize * (objectSize div partSize) + objectSize mod partSize"
      "0 \<le> objectSize mod partSize" "objectSize mod partSize < partSize" using p by simp_all
    show ?thesis
    proof
      assume "objectSize div partSize < 10000"
      then have "partSize * (objectSize div partSize) \<le> partSize * 9999"
        using p by (intro mult_left_mono) simp_all
      with q show "objectSize < 10000 * partSize" by linarith
    next
      assume "objectSize < 10000 * partSize"
      then have "\<not> partSize * 10000 \<le> partSize * (objectSize div partSize)" using q by linarith
      then show "objectSize div partSize < 10000" using p by simp
    qed
  qed
  then show ?thesis
    using accountedObjectSize_exact [of partSize] assms(2) p by (auto simp: maxUploadParts_def)
qed

lemma accounted_object_size_boundary_witness:
  "(167772159999 :: int) \<le> accountedObjectSize 16777216 \<longleftrightarrow> (167772159999 :: int) div 16777216 < 10000"
  using accounted_object_size_boundary [of 16777216 167772159999] by (simp add: limits)

lemma ebind_InlE:
  assumes "ebind r k = Inl e"
  obtains "r = Inl e" | x where "k x = Inl e"
  using assms by (cases r) auto

lemma eguard_InlE:
  assumes "eguard c k = Inl e"
  obtains "c = Some e" | "k = Inl e"
  using assms by (cases c) (auto simp: eguard_def)

lemma if_InlE:
  assumes "(if c then Inl a else k) = Inl e"
  obtains "e = a" | "k = Inl e"
  using assms by (cases c) simp_all

lemma check_identity_mode:
  "check_identity lib (opts\<lparr>Encryption := m\<rparr>) = check_identity lib opts"
  by (simp add: check_identity_def)

text \<open>Every field and reason an \<open>OptionsError\<close> of \<open>resolve\<close> can carry.\<close>

definition option_reasons :: "(string \<times> string) list" where
  "option_reasons = [
    (''Endpoint'', ''must use HTTPS; HTTP is test-only''),
    (''Endpoint'', ''HTTP test endpoints must use a loopback host''),
    (''Endpoint'', ''must use HTTPS''),
    (''Endpoint'', ''must be set''),
    (''Endpoint'', ''must be a valid URL with an absolute host''),
    (''Endpoint'', ''must not contain userinfo''),
    (''Endpoint'', ''must not contain a query''),
    (''Endpoint'', ''must not contain a fragment''),
    (''Endpoint'', ''must use the root path''),
    (''KMSKeyID'', ''must be set when EncryptionKMS is selected''),
    (''KMSKeyID'', ''must be at most 2048 bytes''),
    (''KMSKeyID'', ''must be valid UTF-8 without control characters''),
    (''KMSKeyID'', ''may be set only when EncryptionKMS is selected''),
    (''Region'', ''must be set''),
    (''Region'', ''must contain only letters, digits, and hyphens and be at most 63 bytes''),
    (''Bucket'', ''must be set''),
    (''Bucket'', ''must be a DNS-compatible S3 bucket name''),
    (''DeploymentPrefix'', ''must be set''),
    (''DeploymentPrefix'', ''must be at most 256 bytes''),
    (''DeploymentPrefix'', ''must be a canonical Storage name''),
    (''AddressingStyle'', ''has an unknown mode''),
    (''Encryption'', ''must be set explicitly; the zero value is not an accepted posture''),
    (''Encryption'', ''has an unknown mode''),
    (''DefaultOperationTimeout'', ''must be at least one millisecond or zero for the default''),
    (''MultipartThreshold'', ''must not be less than MultipartPartSize''),
    (''TransferMemoryBudget'',
     ''multipart sizes, concurrency, and MaxConcurrentTransfers must require at most 512 MiB''),
    (''MultipartThreshold'', ''must be at least 5 MiB or zero for the default''),
    (''MultipartThreshold'', ''must be at most 5 GiB''),
    (''MultipartPartSize'', ''must be at least 5 MiB or zero for the default''),
    (''MultipartPartSize'', ''must be at most 5 GiB''),
    (''Concurrency'', ''must be positive or zero for the default''),
    (''Concurrency'', ''must be at most 64''),
    (''MaxConcurrentTransfers'', ''must be positive or zero for the default''),
    (''MaxConcurrentTransfers'', ''must be at most 32'')]"

definition known_option_error :: "err \<Rightarrow> bool" where
  "known_option_error e \<longleftrightarrow> (\<exists>(f, r) \<in> set option_reasons. e = OptionsError f r)"

lemma known_option_errorI:
  "(f, r) \<in> set option_reasons \<Longrightarrow> known_option_error (invalidOption f r)"
  by (auto simp: known_option_error_def invalidOption_def)

lemma known_reasons: "list_all (\<lambda>(f, r). known_option_error (invalidOption f r)) option_reasons"
  by (auto simp: list_all_iff intro: known_option_errorI)

lemmas known_each = known_reasons [unfolded option_reasons_def list.pred_inject prod.case]

lemma if_SomeE:
  assumes "(if c then Some a else k) = Some e"
  obtains "e = a" | "k = Some e"
  using assms by (cases c) simp_all

lemma resolveEndpoint_known:
  "resolveEndpoint lib raw allow = Inl e \<Longrightarrow> known_option_error e"
  unfolding resolveEndpoint_def check_scheme_def
  by (auto elim!: if_InlE eguard_InlE split: if_splits option.splits simp: known_each)

lemma check_identity_known: "check_identity lib opts = Some e \<Longrightarrow> known_option_error e"
  unfolding check_identity_def
  by (auto split: if_splits simp: known_each)

lemma validateKMSKey_known: "validateKMSKey m k = Some e \<Longrightarrow> known_option_error e"
  unfolding validateKMSKey_def
  by (auto split: if_splits simp: known_each)

lemma resolveTransferSize_known:
  "resolveTransferSize f r d = Inl e \<Longrightarrow> f = ''MultipartThreshold'' \<or> f = ''MultipartPartSize'' \<Longrightarrow>
   known_option_error e"
  unfolding resolveTransferSize_def
  by (auto split: if_splits simp: known_each)

lemma resolve_count_known:
  "resolve_count f r d m t = Inl e \<Longrightarrow>
   (f, t) = (''Concurrency'', ''must be at most 64'')
     \<or> (f, t) = (''MaxConcurrentTransfers'', ''must be at most 32'') \<Longrightarrow>
   known_option_error e"
  unfolding resolve_count_def Let_def
  by (auto split: if_splits simp: known_each)

lemma resolve_timeout_known: "resolve_timeout r = Inl e \<Longrightarrow> known_option_error e"
  unfolding resolve_timeout_def Let_def
  by (auto split: if_splits simp: known_each)

lemma check_encryption_error:
  assumes "check_encryption opts = Some e"
  shows "known_option_error e \<or> (RequireConfirmedEncryption opts
    \<and> Encryption opts = EncryptionBucketDefault
    \<and> e = EncryptionPolicyError EncryptionBucketDefault confirmation_reason)"
proof -
  have bd: "m = EncryptionBucketDefault"
    if "m \<noteq> EncryptionUnspecified" "\<not> EncryptionKMS < m" "\<not> confirmedByThisModule m" for m
  proof -
    have "m \<noteq> 0" "m \<noteq> 2" "m \<noteq> 3" "m \<le> 3"
      using that by (auto simp: encryption_modes confirmedByThisModule_def)
    then have "unat m \<noteq> 0" "unat m \<noteq> 2" "unat m \<noteq> 3" "unat m \<le> 3"
      by (simp_all add: word_unat_eq_iff word_le_nat_alt)
    then have "unat m = 1" by linarith
    then show ?thesis by (simp add: encryption_modes word_unat_eq_iff)
  qed
  have "known_option_error (invalidOption ''Encryption''
      ''must be set explicitly; the zero value is not an accepted posture'')"
    "known_option_error (invalidOption ''Encryption'' ''has an unknown mode'')"
    by (auto simp: known_each)
  with assms bd [of "Encryption opts"] show ?thesis
    by (auto simp: check_encryption_def requireConfirmedEncryption_def
        split: if_splits option.splits dest: validateKMSKey_known)
qed

text \<open>
  C31. A refused configuration is reported without any of its values: the error is one of a fixed
  list of field names and reasons, or the encryption-policy error, which arises only for
  \<open>EncryptionBucketDefault\<close> under \<open>RequireConfirmedEncryption\<close> and only after the posture itself
  was found valid.
\<close>

theorem refusals_retain_no_value:
  assumes "resolve lib opts = Inl e"
  shows "(\<exists>(f, r) \<in> set option_reasons. e = OptionsError f r)
    \<or> (RequireConfirmedEncryption opts \<and> Encryption opts = EncryptionBucketDefault
        \<and> e = EncryptionPolicyError EncryptionBucketDefault confirmation_reason)"
proof -
  have "known_option_error (invalidOption ''MultipartThreshold''
      ''must not be less than MultipartPartSize'')"
    "known_option_error (invalidOption ''TransferMemoryBudget''
      ''multipart sizes, concurrency, and MaxConcurrentTransfers must require at most 512 MiB'')"
    by (auto simp: known_each)
  with assms have "known_option_error e \<or> (RequireConfirmedEncryption opts
    \<and> Encryption opts = EncryptionBucketDefault
    \<and> e = EncryptionPolicyError EncryptionBucketDefault confirmation_reason)"
    unfolding resolve_def
    by (elim ebind_InlE eguard_InlE if_InlE)
      (simp_all add: resolveEndpoint_known check_identity_known check_encryption_error
        resolveTransferSize_known resolve_count_known resolve_timeout_known)
  then show ?thesis by (simp add: known_option_error_def)
qed

lemma refusals_retain_no_value_witness:
  "\<exists>e. resolve sample_parsers (sample_options\<lparr>Encryption := 1\<rparr>) = Inl e
     \<and> e = EncryptionPolicyError EncryptionBucketDefault confirmation_reason"
proof -
  let ?o = "sample_options\<lparr>Encryption := 1\<rparr>"
  have "resolveEndpoint sample_parsers (Endpoint ?o) (AllowInsecureLocalhostOnly ?o)
      = Inr ''https://s3.test''"
    using sample_endpoint by (simp add: sample_options_def)
  moreover have "check_identity sample_parsers ?o = None"
    using sample_identity by (simp add: check_identity_mode)
  moreover have "check_encryption ?o =
      Some (EncryptionPolicyError EncryptionBucketDefault confirmation_reason)"
    by (simp add: check_encryption_def sample_options_def encryption_modes validateKMSKey_def
        requireConfirmedEncryption_def confirmedByThisModule_def)
  ultimately have r: "resolve sample_parsers ?o =
      Inl (EncryptionPolicyError EncryptionBucketDefault confirmation_reason)"
    by (simp add: resolve_def eguard_def)
  with refusals_retain_no_value [OF r] show ?thesis by blast
qed

end
