(* ===== verification/GoIO.thy ===== *)
theory GoIO
  imports Errors
begin

text \<open>
  The \<open>io\<close> package as the code uses it: the \<open>io.Reader\<close> contract, \<open>io.ReadFull\<close>
  and \<open>io.CopyN\<close>. A reader is a function from its state and the length of the buffer it is
  given to the bytes it put there, its error (nil is \<open>None\<close>) and its next state.
\<close>

section \<open>The io.Reader contract\<close>

type_synonym 'r reader = "'r \<Rightarrow> nat \<Rightarrow> (bytes \<times> err option) \<times> 'r"

text \<open>
  \<open>0 \<le> n \<le> len(p)\<close> is the one law of \<open>io.Reader\<close> the code relies on. It slices
  its buffer with the returned count, and counts what it was given.
\<close>

locale io_reader =
  fixes read :: "'r reader"
  assumes read_within: "length (fst (fst (read r n))) \<le> n"
begin

lemma read_withinD: "read r n = ((b, e), r') \<Longrightarrow> length b \<le> n"
  using read_within [of r n] by simp

lemma read_probe: "read r 1 = ((b, e), r') \<Longrightarrow> b = [] \<or> (\<exists>x. b = [x])"
  using read_withinD [of r 1] by (cases b) auto

end

text \<open>
  Any behaviour one goroutine can see of a reader is a script: what each Read delivers, cut
  where the caller's buffer is smaller, and \<open>io.EOF\<close> for ever at its end.
\<close>

type_synonym script = "(bytes \<times> err option) list"

fun script_read :: "script reader" where
  "script_read [] n = (([], Some EOF), [])"
| "script_read ((b, e) # s) n =
     (if length b \<le> n then ((b, e), s) else ((take n b, None), (drop n b, e) # s))"

interpretation script: io_reader script_read
proof
  show "length (fst (fst (script_read r n))) \<le> n" for r n
    by (cases "(r, n)" rule: script_read.cases) auto
qed

text \<open>Repeated reads with given buffer lengths: what was delivered, the errors, the state.\<close>

fun read_seq :: "'r reader \<Rightarrow> 'r \<Rightarrow> nat list \<Rightarrow> (bytes \<times> err option list) \<times> 'r" where
  "read_seq read r [] = (([], []), r)"
| "read_seq read r (n # ns) =
     (case read r n of
        ((b, e), r') \<Rightarrow>
          (case read_seq read r' ns of ((bs, es), r'') \<Rightarrow> ((b @ bs, e # es), r'')))"

lemma read_seq_append:
  "read_seq read r (ms @ ns) =
     (case read_seq read r ms of
        ((bs, es), r') \<Rightarrow>
          (case read_seq read r' ns of ((bs', es'), r'') \<Rightarrow> ((bs @ bs', es @ es'), r'')))"
  by (induction ms arbitrary: r) (auto split: prod.splits)

section \<open>io.ReadFull and io.CopyN\<close>

lemma script_read_shorter:
  "script_read s n = ((b, None), s') \<Longrightarrow> length b \<noteq> n \<Longrightarrow> length s' < length s"
  by (cases "(s, n)" rule: script_read.cases) (auto split: if_splits)

text \<open>\<open>io.ReadFull\<close> into a buffer of \<open>n\<close> bytes: it reads until the buffer is full or an
  error comes; an early \<open>io.EOF\<close> after some bytes is \<open>io.ErrUnexpectedEOF\<close>.\<close>

function read_full :: "script \<Rightarrow> nat \<Rightarrow> (bytes \<times> err option) \<times> script" where
  "read_full s n =
     (if n = 0 then (([], None), s)
      else case script_read s n of
        ((b, None), s') \<Rightarrow>
          (if length b = n then ((b, None), s')
           else case read_full s' (n - length b) of
             ((b', e'), s'') \<Rightarrow>
               ((b @ b', if b \<noteq> [] \<and> e' = Some EOF then Some UnexpectedEOF else e'), s''))
      | ((b, Some e), s') \<Rightarrow>
          ((b, if length b = n then None
               else if b \<noteq> [] \<and> e = EOF then Some UnexpectedEOF else Some e), s'))"
  by pat_completeness auto
termination
  by (relation "measure (\<lambda>(s, n). n + length s)")
    (auto dest!: sym [of _ "script_read _ _"] script_read_shorter)

lemma read_full_0 [simp]: "read_full s 0 = (([], None), s)"
  by (simp add: read_full.simps)

declare read_full.simps [simp del]

text \<open>
  \<open>io.CopyN(dst, body, n)\<close>: reads through an \<open>io.LimitReader\<close>, at most 32 KiB at a
  time, until \<open>n\<close> bytes were written to \<open>dst\<close>, the body ends or fails. It reports
  \<open>io.EOF\<close> when the body was short.
\<close>

definition copy_buffer :: nat where [limits]: "copy_buffer = 32768"

lemma script_read_progress:
  assumes r: "script_read s (min n copy_buffer) = ((b, None), s')" and n: "0 < n"
  shows "n - length b + length s' < n + length s"
proof (cases "length b = min n copy_buffer")
  case True
  moreover have "length s' \<le> length s"
    using r by (cases "(s, min n copy_buffer)" rule: script_read.cases) (auto split: if_splits)
  ultimately show ?thesis using n by (simp add: copy_buffer_def min_def split: if_splits)
next
  case False
  with r have "length s' < length s" by (rule script_read_shorter)
  then show ?thesis by simp
qed

function copy_n :: "script \<Rightarrow> nat \<Rightarrow> (bytes \<times> err option) \<times> script" where
  "copy_n s n =
     (if n = 0 then (([], None), s)
      else case script_read s (min n copy_buffer) of
        ((b, None), s') \<Rightarrow>
          (case copy_n s' (n - length b) of ((b', e'), s'') \<Rightarrow> ((b @ b', e'), s''))
      | ((b, Some e), s') \<Rightarrow> ((b, if length b = n then None else Some e), s'))"
  by pat_completeness auto
termination
  by (relation "measure (\<lambda>(s, n). n + length s)")
    (auto dest!: sym [of _ "script_read _ _"] script_read_progress)

lemma copy_n_0 [simp]: "copy_n s 0 = (([], None), s)"
  by (simp add: copy_n.simps)

declare copy_n.simps [simp del]

text \<open>Nothing a script holds is lost or invented: what was read and what is left is the whole.\<close>

definition script_bytes :: "script \<Rightarrow> bytes" where
  "script_bytes s = concat (map fst s)"

lemma script_bytes_simps [simp]:
  "script_bytes [] = []" "script_bytes ((b, e) # s) = b @ script_bytes s"
  by (simp_all add: script_bytes_def)

lemma script_read_bytes: "script_read s n = ((b, e), s') \<Longrightarrow> b @ script_bytes s' = script_bytes s"
  by (cases "(s, n)" rule: script_read.cases)
    (auto split: if_splits simp flip: append_assoc)

lemma read_full_bytes: "read_full s n = ((b, e), s') \<Longrightarrow> b @ script_bytes s' = script_bytes s"
proof (induction s n arbitrary: b e s' rule: read_full.induct)
  case (1 s n)
  show ?case
  proof (cases "n = 0")
    case True
    with "1.prems" show ?thesis by simp
  next
    case False
    obtain c x t where r: "script_read s n = ((c, x), t)" by (metis surj_pair)
    note c = script_read_bytes [OF r]
    from False r "1.prems" c "1.IH" [OF False r [symmetric]] show ?thesis
      by (auto simp: read_full.simps [of s n] split: option.splits if_splits prod.splits)
  qed
qed

lemma copy_n_bytes: "copy_n s n = ((b, e), s') \<Longrightarrow> b @ script_bytes s' = script_bytes s"
proof (induction s n arbitrary: b e s' rule: copy_n.induct)
  case (1 s n)
  show ?case
  proof (cases "n = 0")
    case True
    with "1.prems" show ?thesis by simp
  next
    case False
    obtain c x t where r: "script_read s (min n copy_buffer) = ((c, x), t)" by (metis surj_pair)
    note c = script_read_bytes [OF r]
    from False r "1.prems" c "1.IH" [OF False r [symmetric]] show ?thesis
      by (auto simp: copy_n.simps [of s n] split: option.splits if_splits prod.splits)
  qed
qed

text \<open>A full read or copy delivers exactly the bytes asked for.\<close>

lemma read_full_length: "read_full s n = ((b, None), s') \<Longrightarrow> length b = n"
proof (induction s n arbitrary: b s' rule: read_full.induct)
  case (1 s n)
  show ?case
  proof (cases "n = 0")
    case True
    with "1.prems" show ?thesis by simp
  next
    case False
    obtain c x t where r: "script_read s n = ((c, x), t)" by (metis surj_pair)
    have len: "length c \<le> n" using r by (rule script.read_withinD)
    show ?thesis
    proof (cases "x = None \<and> length c \<noteq> n")
      case True
      obtain c' x' t' where r': "read_full t (n - length c) = ((c', x'), t')" by (metis surj_pair)
      with True False r "1.prems" have "b = c @ c'" "x' = None"
        by (auto simp: read_full.simps [of s n] split: if_splits)
      moreover from True have "x = None" "length c \<noteq> n" by simp_all
      ultimately have "length c' = n - length c"
        using r' "1.IH" [OF False r [symmetric] refl] by blast
      with \<open>b = c @ c'\<close> len show ?thesis by simp
    next
      case last: False
      with False r "1.prems" show ?thesis
        by (auto simp: read_full.simps [of s n] split: option.splits if_splits)
    qed
  qed
qed

text \<open>A body that the transport delivers whole: no read of it fails before its end.\<close>

definition clean :: "script \<Rightarrow> bool" where
  "clean s \<longleftrightarrow> list_all (\<lambda>(_, e). e = None) s"

lemma clean_simps [simp]: "clean []" "clean ((b, e) # s) \<longleftrightarrow> e = None \<and> clean s"
  by (simp_all add: clean_def)

lemma script_read_clean:
  "clean s \<Longrightarrow> script_read s n = ((b, e), s') \<Longrightarrow>
   clean s' \<and> (e = None \<or> (s = [] \<and> e = Some EOF))"
  by (cases "(s, n)" rule: script_read.cases) (auto split: if_splits)

lemma read_full_clean:
  "clean s \<Longrightarrow> n \<le> length (script_bytes s) \<Longrightarrow>
   \<exists>s'. read_full s n = ((take n (script_bytes s), None), s') \<and> clean s'
      \<and> script_bytes s' = drop n (script_bytes s)"
proof (induction s n rule: read_full.induct)
  case (1 s n)
  show ?case
  proof (cases "n = 0")
    case True
    with "1.prems" show ?thesis by simp
  next
    case False
    obtain c x t where r: "script_read s n = ((c, x), t)" by (metis surj_pair)
    from False "1.prems" have "s \<noteq> []" by auto
    with "1.prems"(1) r have x: "x = None" and t: "clean t" by (auto dest: script_read_clean)
    have len: "length c \<le> n" using r by (rule script.read_withinD)
    note c = script_read_bytes [OF r, symmetric]
    show ?thesis
    proof (cases "length c = n")
      case True
      with False r x t c show ?thesis by (simp add: read_full.simps [of s n])
    next
      case short: False
      have "n - length c \<le> length (script_bytes t)" using c "1.prems"(2) by simp
      with "1.IH" [OF False r [symmetric] refl x short t] obtain s' where "read_full t (n - length c)
          = ((take (n - length c) (script_bytes t), None), s')" "clean s'"
        "script_bytes s' = drop (n - length c) (script_bytes t)"
        by blast
      with False short r x c len show ?thesis by (simp add: read_full.simps [of s n])
    qed
  qed
qed

lemma copy_n_clean:
  "clean s \<Longrightarrow> n \<le> length (script_bytes s) \<Longrightarrow>
   \<exists>s'. copy_n s n = ((take n (script_bytes s), None), s') \<and> clean s'
      \<and> script_bytes s' = drop n (script_bytes s)"
proof (induction s n rule: copy_n.induct)
  case (1 s n)
  show ?case
  proof (cases "n = 0")
    case True
    with "1.prems" show ?thesis by simp
  next
    case False
    obtain c x t where r: "script_read s (min n copy_buffer) = ((c, x), t)" by (metis surj_pair)
    from False "1.prems" have "s \<noteq> []" by auto
    with "1.prems"(1) r have x: "x = None" and t: "clean t" by (auto dest: script_read_clean)
    have len: "length c \<le> n" using script.read_withinD [OF r] by simp
    note c = script_read_bytes [OF r, symmetric]
    have "n - length c \<le> length (script_bytes t)" using c "1.prems"(2) by simp
    with "1.IH" [OF False r [symmetric] refl x t] obtain s' where "copy_n t (n - length c)
        = ((take (n - length c) (script_bytes t), None), s')" "clean s'"
      "script_bytes s' = drop (n - length c) (script_bytes t)"
      by blast
    with False r x c len show ?thesis by (simp add: copy_n.simps [of s n])
  qed
qed

section \<open>Draining a reader\<close>

text \<open>
  Reading with a buffer of \<open>n\<close> bytes until an error comes, at most \<open>k\<close> times: the
  shape of \<open>io.ReadAll\<close>, \<open>io.Copy\<close> and of a caller's read loop. The error is
  \<open>None\<close> only when \<open>k\<close> reads were not enough.
\<close>

fun read_all :: "'r reader \<Rightarrow> nat \<Rightarrow> nat \<Rightarrow> 'r \<Rightarrow> (bytes \<times> err option) \<times> 'r" where
  "read_all read 0 n r = (([], None), r)"
| "read_all read (Suc k) n r =
     (case read r n of
        ((b, Some e), r') \<Rightarrow> ((b, Some e), r')
      | ((b, None), r') \<Rightarrow>
          (case read_all read k n r' of ((bs, e), r'') \<Rightarrow> ((b @ bs, e), r'')))"

text \<open>Every read of a clean, unfinished script with room in the buffer makes progress.\<close>

definition script_work :: "script \<Rightarrow> nat" where
  "script_work s = length s + length (script_bytes s)"

lemma script_work_read:
  "s \<noteq> [] \<Longrightarrow> 0 < n \<Longrightarrow> script_read s n = ((b, e), s') \<Longrightarrow> script_work s' < script_work s"
  by (cases "(s, n)" rule: script_read.cases) (auto simp: script_work_def split: if_splits)

lemma read_all_as_seq:
  "read_all read k n r = ((bs, Some e), r') \<Longrightarrow>
   \<exists>j es. j \<le> k \<and> read_seq read r (replicate j n) = ((bs, es @ [Some e]), r')"
proof (induction k arbitrary: r bs)
  case (Suc k)
  obtain b x t where rd: "read r n = ((b, x), t)" by (metis surj_pair)
  show ?case
  proof (cases x)
    case None
    obtain bs' e' t' where ra: "read_all read k n t = ((bs', e'), t')" by (metis surj_pair)
    with None rd Suc.prems have "e' = Some e" "t' = r'" and bs: "bs = b @ bs'" by auto
    with Suc.IH ra obtain j es where "j \<le> k"
      "read_seq read t (replicate j n) = ((bs', es @ [Some e]), r')" by blast
    with rd bs have "Suc j \<le> Suc k \<and>
        read_seq read r (replicate (Suc j) n) = ((bs, (x # es) @ [Some e]), r')" by simp
    then show ?thesis by blast
  next
    case (Some y)
    with rd Suc.prems have "read_seq read r (replicate (Suc 0) n) = ((bs, [] @ [Some e]), r')"
      by simp
    then show ?thesis by (intro exI [of _ "Suc 0"] exI [of _ "[]"]) simp
  qed
qed simp

end
