(* ===== verification/GoSha256.thy ===== *)
theory GoSha256
  imports S3Prelude
begin

text \<open>
  The part of Go's \<open>crypto/sha256\<close> the code calls: \<open>sha256.Sum256\<close> and the
  digest a \<open>hash.Hash\<close> returns after a sequence of \<open>Write\<close>s, which is
  \<open>Sum256\<close> of everything written. The algorithm is FIPS 180-4, on 32-bit words.
  The store treats the digest as a commitment to the content; every theorem that needs
  two contents to be equal because their digests are equal says so.
\<close>

unbundle bit_operations_syntax

type_synonym w32 = "32 word"

definition rotr32 :: "nat \<Rightarrow> w32 \<Rightarrow> w32" where
  "rotr32 n x = push_bit (32 - n) x OR drop_bit n x"

definition big_sigma0 :: "w32 \<Rightarrow> w32" where
  "big_sigma0 x = rotr32 2 x XOR rotr32 13 x XOR rotr32 22 x"

definition big_sigma1 :: "w32 \<Rightarrow> w32" where
  "big_sigma1 x = rotr32 6 x XOR rotr32 11 x XOR rotr32 25 x"

definition small_sigma0 :: "w32 \<Rightarrow> w32" where
  "small_sigma0 x = rotr32 7 x XOR rotr32 18 x XOR drop_bit 3 x"

definition small_sigma1 :: "w32 \<Rightarrow> w32" where
  "small_sigma1 x = rotr32 17 x XOR rotr32 19 x XOR drop_bit 10 x"

definition sha_ch :: "w32 \<Rightarrow> w32 \<Rightarrow> w32 \<Rightarrow> w32" where
  "sha_ch x y z = (x AND y) XOR (NOT x AND z)"

definition sha_maj :: "w32 \<Rightarrow> w32 \<Rightarrow> w32 \<Rightarrow> w32" where
  "sha_maj x y z = (x AND y) XOR (x AND z) XOR (y AND z)"

text \<open>
  The constants of the standard are the first 32 bits of the fractional parts of the cube roots
  of the first 64 primes and of the square roots of the first 8. \<open>iroot k i n r\<close> adds to \<open>r\<close>
  the binary digits below \<open>2 ^ i\<close> of the integer \<open>k\<close>-th root of \<open>n\<close>.
\<close>

primrec iroot :: "nat \<Rightarrow> nat \<Rightarrow> nat \<Rightarrow> nat \<Rightarrow> nat" where
  "iroot k 0 n r = r"
| "iroot k (Suc i) n r = iroot k i n (if (r + 2 ^ i) ^ k \<le> n then r + 2 ^ i else r)"

definition small_primes :: "nat list" where
  "small_primes = filter (\<lambda>n. list_all (\<lambda>d. n mod d \<noteq> 0) [2..<n]) [2..<312]"

definition root_fraction :: "nat \<Rightarrow> nat \<Rightarrow> w32" where
  "root_fraction k p = word_of_nat (iroot k 35 (p * 2 ^ (32 * k)) 0)"

definition round_constants :: "w32 list" where
  "round_constants = map (root_fraction 3) small_primes"

record sha_state =
  sha_a :: w32
  sha_b :: w32
  sha_c :: w32
  sha_d :: w32
  sha_e :: w32
  sha_f :: w32
  sha_g :: w32
  sha_h :: w32

definition sha_init :: sha_state where
  "sha_init = \<lparr>sha_a = root_fraction 2 2, sha_b = root_fraction 2 3, sha_c = root_fraction 2 5,
     sha_d = root_fraction 2 7, sha_e = root_fraction 2 11, sha_f = root_fraction 2 13,
     sha_g = root_fraction 2 17, sha_h = root_fraction 2 19\<rparr>"

definition sha_round :: "w32 \<times> w32 \<Rightarrow> sha_state \<Rightarrow> sha_state" where
  "sha_round kw s =
     (let t1 = sha_h s + big_sigma1 (sha_e s) + sha_ch (sha_e s) (sha_f s) (sha_g s) + fst kw + snd kw;
          t2 = big_sigma0 (sha_a s) + sha_maj (sha_a s) (sha_b s) (sha_c s)
      in \<lparr>sha_a = t1 + t2, sha_b = sha_a s, sha_c = sha_b s, sha_d = sha_c s,
          sha_e = sha_d s + t1, sha_f = sha_e s, sha_g = sha_f s, sha_h = sha_g s\<rparr>)"

definition sha_add :: "sha_state \<Rightarrow> sha_state \<Rightarrow> sha_state" where
  "sha_add s t = \<lparr>sha_a = sha_a s + sha_a t, sha_b = sha_b s + sha_b t, sha_c = sha_c s + sha_c t, sha_d = sha_d s + sha_d t,
     sha_e = sha_e s + sha_e t, sha_f = sha_f s + sha_f t, sha_g = sha_g s + sha_g t, sha_h = sha_h s + sha_h t\<rparr>"

text \<open>The message schedule, newest word first.\<close>

fun extend_schedule :: "nat \<Rightarrow> w32 list \<Rightarrow> w32 list" where
  "extend_schedule 0 rw = rw"
| "extend_schedule (Suc n) rw =
     extend_schedule n
       ((small_sigma1 (rw ! 1) + rw ! 6 + small_sigma0 (rw ! 14) + rw ! 15) # rw)"

fun be_words :: "bytes \<Rightarrow> w32 list" where
  "be_words (a # b # c # d # bs) =
     (push_bit 24 (ucast a) OR push_bit 16 (ucast b) OR push_bit 8 (ucast c) OR ucast d)
       # be_words bs"
| "be_words _ = []"

definition sha_block :: "sha_state \<Rightarrow> bytes \<Rightarrow> sha_state" where
  "sha_block s block =
     sha_add s (fold sha_round
       (zip round_constants (rev (extend_schedule 48 (rev (be_words block))))) s)"

fun sha_blocks :: "nat \<Rightarrow> bytes \<Rightarrow> sha_state \<Rightarrow> sha_state" where
  "sha_blocks 0 bs s = s"
| "sha_blocks (Suc n) bs s = sha_blocks n (drop 64 bs) (sha_block s (take 64 bs))"

definition be64_bytes :: "64 word \<Rightarrow> bytes" where
  "be64_bytes w = map (\<lambda>k. ucast (drop_bit k w)) [56, 48, 40, 32, 24, 16, 8, 0]"

definition be32_bytes :: "w32 \<Rightarrow> bytes" where
  "be32_bytes w = map (\<lambda>k. ucast (drop_bit k w)) [24, 16, 8, 0]"

definition sha_pad :: "bytes \<Rightarrow> bytes" where
  "sha_pad bs = bs @ [0x80] @ replicate ((119 - length bs mod 64) mod 64) 0
     @ be64_bytes (word_of_nat (8 * length bs))"

definition sum256 :: "bytes \<Rightarrow> bytes" where
  "sum256 bs =
     (let p = sha_pad bs; s = sha_blocks (length p div 64) p sha_init
      in concat (map be32_bytes [sha_a s, sha_b s, sha_c s, sha_d s, sha_e s, sha_f s, sha_g s, sha_h s]))"

text \<open>\<open>sha256.Size\<close> bytes, always.\<close>

lemma length_be32_bytes [simp]: "length (be32_bytes w) = 4"
  by (simp add: be32_bytes_def)

lemma length_sum256 [simp]: "length (sum256 bs) = 32"
  by (simp add: sum256_def Let_def)

lemma length_sha_pad: "length (sha_pad bs) mod 64 = 0"
proof -
  have pad: "(n + 9 + (119 - n mod 64) mod 64) mod 64 = 0" for n :: nat
  proof -
    define m where "m = n mod 64"
    have n: "n = 64 * (n div 64) + m" and m: "m < 64" by (simp_all add: m_def)
    have "(119 - m) mod 64 = (if m \<le> 55 then 55 - m else 119 - m)"
      using m by (simp add: mod_if)
    then have r: "m + 9 + (119 - m) mod 64 = (if m \<le> 55 then 64 else 128)"
      using m by simp
    have "n + 9 + (119 - m) mod 64 = 64 * (n div 64) + (m + 9 + (119 - m) mod 64)"
      using n by linarith
    then show ?thesis unfolding r by (simp add: m_def)
  qed
  have "length (sha_pad bs) = length bs + 9 + (119 - length bs mod 64) mod 64"
    by (simp add: sha_pad_def be64_bytes_def)
  then show ?thesis by (simp only: pad)
qed

text \<open>The padded message is a whole number of blocks, so no byte of it is dropped.\<close>

lemma sha_pad_blocks: "length (sha_pad bs) div 64 * 64 = length (sha_pad bs)"
  using length_sha_pad [of bs] by (metis div_mod_decomp add_0_right)

end
