(* ===== verification/BlobIO.thy ===== *)
theory BlobIO
  imports GoIO GoSha256
begin

text \<open>
  blob_io.go: the accounting reader \<open>Put\<close> wraps around its source, and the verifying
  reader behind the stream \<open>Get\<close> returns. A running SHA-256 \<open>hash.Hash\<close> is kept as the
  bytes written to it; its \<open>Sum\<close> is \<open>sum256\<close> of them.
\<close>

section \<open>equalDigest\<close>

unbundle bit_operations_syntax

text \<open>The constant-time comparison of key.go: the XORs of all byte pairs are OR-ed together.\<close>

definition equalDigest :: "bytes \<Rightarrow> bytes \<Rightarrow> bool" where
  "equalDigest left right =
     (if length left \<noteq> length right then False
      else fold (\<lambda>(a, b) difference. difference OR (a XOR b)) (zip left right) 0 = 0)"

lemma or_eq_0: "(x :: byte) OR y = 0 \<longleftrightarrow> x = 0 \<and> y = 0"
  by (metis or.left_neutral or_eq_0_iff)

lemma xor_eq_0: "(x :: byte) XOR y = 0 \<longleftrightarrow> x = y"
  by (metis xor.assoc xor.right_neutral xor_self_eq)

lemma fold_or_zero:
  "fold (\<lambda>(a, b) d. d OR (a XOR b)) ps (d :: byte) = 0 \<longleftrightarrow> d = 0 \<and> (\<forall>(a, b) \<in> set ps. a = b)"
  by (induction ps arbitrary: d) (auto simp: or_eq_0 xor_eq_0)

lemma equalDigest_iff [simp]: "equalDigest a b \<longleftrightarrow> a = b"
proof (cases "length a = length b")
  case True
  then show ?thesis
    by (auto simp: equalDigest_def fold_or_zero list_eq_iff_nth_eq set_zip)
qed (auto simp: equalDigest_def)

section \<open>The accounting reader\<close>

text \<open>\<open>if int64(len(buffer)) > remaining { buffer = buffer[:remaining] }\<close>: the length
  of the buffer that is read into.\<close>

definition clip :: "nat \<Rightarrow> int \<Rightarrow> nat" where
  "clip n remaining = (if int n > remaining then nat remaining else n)"

lemma clip_le: "0 \<le> remaining \<Longrightarrow> clip n remaining \<le> n \<and> int (clip n remaining) \<le> remaining"
  by (auto simp: clip_def)

record 'r accounted =
  acc_source :: 'r
  acc_maximum :: int
  acc_size :: int
  acc_hash :: bytes
  acc_digest :: bytes
  acc_final :: bool

definition newAccountedHashReader :: "'r \<Rightarrow> int \<Rightarrow> 'r accounted" where
  "newAccountedHashReader source maximum =
     \<lparr>acc_source = source, acc_maximum = maximum, acc_size = 0, acc_hash = [],
      acc_digest = replicate 32 0, acc_final = False\<rparr>"

definition accounted_read :: "'r reader \<Rightarrow> 'r accounted reader" where
  "accounted_read read r n =
     (if n = 0 then (([], None), r)
      else if acc_size r = acc_maximum r then
        (case read (acc_source r) 1 of
           ((b, e), s) \<Rightarrow>
             ((([] :: bytes), if length b > 0 then Some (ObjectTooLargeError (acc_maximum r)) else e),
              r\<lparr>acc_source := s\<rparr>))
      else
        (let remaining = acc_maximum r - acc_size r
         in case read (acc_source r) (clip n remaining) of
              ((b, e), s) \<Rightarrow>
                ((b, e),
                 if length b > 0
                 then r\<lparr>acc_source := s, acc_hash := acc_hash r @ b,
                        acc_size := acc_size r + int (length b), acc_final := False\<rparr>
                 else r\<lparr>acc_source := s\<rparr>)))"

definition accounted_digest :: "'r accounted \<Rightarrow> bytes \<times> 'r accounted" where
  "accounted_digest r =
     (if \<not> acc_final r
      then (sum256 (acc_hash r), r\<lparr>acc_digest := sum256 (acc_hash r), acc_final := True\<rparr>)
      else (acc_digest r, r))"

text \<open>
  What the accounting keeps: the size is the number of bytes hashed and never passes the
  maximum, and a digest marked final is the digest of those bytes.
\<close>

definition accounted_ok :: "'r accounted \<Rightarrow> bool" where
  "accounted_ok r \<longleftrightarrow> acc_size r = int (length (acc_hash r)) \<and> acc_size r \<le> acc_maximum r
     \<and> (acc_final r \<longrightarrow> acc_digest r = sum256 (acc_hash r))"

lemma accounted_ok_new: "0 \<le> maximum \<Longrightarrow> accounted_ok (newAccountedHashReader s maximum)"
  by (simp add: accounted_ok_def newAccountedHashReader_def)

lemma accounted_digest_ok:
  "accounted_ok r \<Longrightarrow> fst (accounted_digest r) = sum256 (acc_hash r)
     \<and> accounted_ok (snd (accounted_digest r))"
  by (simp add: accounted_ok_def accounted_digest_def)

context io_reader
begin

lemma accounted_readD:
  assumes "accounted_ok r" "accounted_read read r n = ((b, e), r')"
  shows "accounted_ok r'" "acc_hash r' = acc_hash r @ b" "acc_maximum r' = acc_maximum r"
    "length b \<le> n" "acc_size r' = acc_size r + int (length b)"
proof -
  have ok: "accounted_ok r' \<and> acc_hash r' = acc_hash r @ b \<and> acc_maximum r' = acc_maximum r
    \<and> length b \<le> n \<and> acc_size r' = acc_size r + int (length b)"
  proof (cases "n = 0 \<or> acc_size r = acc_maximum r")
    case True
    with assms show ?thesis
      by (auto simp: accounted_read_def accounted_ok_def split: prod.splits if_splits)
  next
    case False
    define m where "m = clip n (acc_maximum r - acc_size r)"
    obtain c x s where rd: "read (acc_source r) m = ((c, x), s)" by (metis surj_pair)
    have len: "length c \<le> m" using rd by (rule read_withinD)
    have m: "m \<le> n" "int m \<le> acc_maximum r - acc_size r"
      using assms(1) clip_le by (auto simp: m_def accounted_ok_def)
    from False rd assms(2) have b: "b = c"
      and r': "r' = (if length c > 0 then r\<lparr>acc_source := s, acc_hash := acc_hash r @ c,
        acc_size := acc_size r + int (length c), acc_final := False\<rparr> else r\<lparr>acc_source := s\<rparr>)"
      by (auto simp: accounted_read_def m_def [symmetric] Let_def)
    show ?thesis using assms(1) len m unfolding b r' by (auto simp: accounted_ok_def)
  qed
  then show "accounted_ok r'" "acc_hash r' = acc_hash r @ b" "acc_maximum r' = acc_maximum r"
    "length b \<le> n" "acc_size r' = acc_size r + int (length b)"
    by simp_all
qed

lemma accounted_seq:
  "accounted_ok r \<Longrightarrow> read_seq (accounted_read read) r ns = ((bs, es), r') \<Longrightarrow>
   accounted_ok r' \<and> acc_hash r' = acc_hash r @ bs \<and> acc_maximum r' = acc_maximum r"
proof (induction ns arbitrary: r bs es r')
  case (Cons n ns)
  obtain b e t where rd: "accounted_read read r n = ((b, e), t)" by (metis surj_pair)
  note t = accounted_readD [OF Cons.prems(1) rd]
  obtain bs' es' t' where seq: "read_seq (accounted_read read) t ns = ((bs', es'), t')"
    by (metis surj_pair)
  from Cons.IH [OF t(1) seq] Cons.prems(2) t rd seq show ?case by auto
qed simp

text \<open>A byte past the maximum is refused, and nothing else makes the reader refuse.\<close>

lemma accounted_too_large:
  assumes "n > 0" "acc_size r = acc_maximum r" "read (acc_source r) 1 = ((b, e), s)" "b \<noteq> []"
  shows "accounted_read read r n
    = (([], Some (ObjectTooLargeError (acc_maximum r))), r\<lparr>acc_source := s\<rparr>)"
  using assms by (simp add: accounted_read_def)

end

section \<open>The verifying reader\<close>

record 'r verifying =
  ver_body :: 'r
  ver_expected_size :: int
  ver_expected_digest :: bytes
  ver_read :: int
  ver_hash :: bytes
  ver_terminal :: "err option"

definition newVerifyingBlobReader :: "'r \<Rightarrow> int \<Rightarrow> bytes \<Rightarrow> 'r verifying" where
  "newVerifyingBlobReader body expected digest =
     \<lparr>ver_body = body, ver_expected_size = expected, ver_expected_digest = digest, ver_read = 0,
      ver_hash = [], ver_terminal = None\<rparr>"

definition verifying_finish :: "'r verifying \<Rightarrow> err \<times> 'r verifying" where
  "verifying_finish r =
     (if \<not> equalDigest (sum256 (ver_hash r)) (ver_expected_digest r)
      then (integrityError ''payload digest'',
            r\<lparr>ver_terminal := Some (integrityError ''payload digest'')\<rparr>)
      else (EOF, r\<lparr>ver_terminal := Some EOF\<rparr>))"

text \<open>\<open>if n > 0 { hash.Write(buffer[:n]); read += n }\<close>.\<close>

definition verifying_absorb :: "bytes \<Rightarrow> 'r verifying \<Rightarrow> 'r verifying" where
  "verifying_absorb b r =
     (if length b > 0
      then r\<lparr>ver_hash := ver_hash r @ b, ver_read := ver_read r + int (length b)\<rparr> else r)"

lemma verifying_absorb_simps [simp]:
  "ver_hash (verifying_absorb b r) = ver_hash r @ b"
  "ver_read (verifying_absorb b r) = ver_read r + int (length b)"
  "ver_expected_size (verifying_absorb b r) = ver_expected_size r"
  "ver_expected_digest (verifying_absorb b r) = ver_expected_digest r"
  "ver_terminal (verifying_absorb b r) = ver_terminal r"
  "ver_body (verifying_absorb b r) = ver_body r"
  by (simp_all add: verifying_absorb_def)

definition verifying_read :: "'r reader \<Rightarrow> 'r verifying reader" where
  "verifying_read read r n =
     (case ver_terminal r of
        Some t \<Rightarrow> (([], Some t), r)
      | None \<Rightarrow>
          if n = 0 then (([], None), r)
          else if ver_read r = ver_expected_size r then
            (case read (ver_body r) 1 of
               ((b, e), s) \<Rightarrow>
                 (let r1 = r\<lparr>ver_body := s\<rparr> in
                  if length b > 0 then
                    (([], Some (integrityError ''payload read'')),
                     r1\<lparr>ver_terminal := Some (integrityError ''payload read'')\<rparr>)
                  else if e \<noteq> None \<and> e \<noteq> Some EOF then (([], e), r1)
                  else (case verifying_finish r1 of (t, r2) \<Rightarrow> (([], Some t), r2))))
          else
            (let remaining = ver_expected_size r - ver_read r
             in case read (ver_body r) (clip n remaining) of
                  ((b, e), s) \<Rightarrow>
                    (let r1 = verifying_absorb b (r\<lparr>ver_body := s\<rparr>)
                     in if e = Some EOF then
                          (if ver_read r1 \<noteq> ver_expected_size r1 then
                             ((b, Some (integrityError ''payload read'')),
                              r1\<lparr>ver_terminal := Some (integrityError ''payload read'')\<rparr>)
                           else (case verifying_finish r1 of (t, r2) \<Rightarrow> ((b, Some t), r2)))
                        else ((b, e), r1))))"

text \<open>
  What the verifying reader keeps: it counts and hashes exactly what it delivered, never
  more than the expected size, and it latched \<open>io.EOF\<close> only over verified content.
\<close>

definition verifying_ok :: "'r verifying \<Rightarrow> bool" where
  "verifying_ok r \<longleftrightarrow> ver_read r = int (length (ver_hash r)) \<and> ver_read r \<le> ver_expected_size r
     \<and> (ver_terminal r = Some EOF \<longrightarrow>
          ver_read r = ver_expected_size r \<and> sum256 (ver_hash r) = ver_expected_digest r)"

lemma verifying_ok_new: "0 \<le> expected \<Longrightarrow> verifying_ok (newVerifyingBlobReader s expected d)"
  by (simp add: verifying_ok_def newVerifyingBlobReader_def)

lemma verifying_finish_cases:
  "verifying_finish r =
     (if sum256 (ver_hash r) = ver_expected_digest r then (EOF, r\<lparr>ver_terminal := Some EOF\<rparr>)
      else (integrityError ''payload digest'',
            r\<lparr>ver_terminal := Some (integrityError ''payload digest'')\<rparr>))"
  by (simp add: verifying_finish_def)

lemma integrityError_not_EOF [simp]: "integrityError s \<noteq> EOF" "EOF \<noteq> integrityError s"
  by (simp_all add: integrityError_def)

text \<open>Once terminal, always the same error and no bytes.\<close>

lemma verifying_latched:
  "ver_terminal r = Some t \<Longrightarrow> verifying_read read r n = (([], Some t), r)"
  by (simp add: verifying_read_def)

context io_reader
begin

lemma verifying_readD:
  assumes "verifying_ok r" "verifying_read read r n = ((b, e), r')"
  shows "verifying_ok r'" "ver_hash r' = ver_hash r @ b" "length b \<le> n"
    "ver_expected_size r' = ver_expected_size r" "ver_expected_digest r' = ver_expected_digest r"
    "e = Some EOF \<Longrightarrow> ver_terminal r' = Some EOF"
proof -
  have "verifying_ok r' \<and> ver_hash r' = ver_hash r @ b \<and> length b \<le> n
    \<and> ver_expected_size r' = ver_expected_size r \<and> ver_expected_digest r' = ver_expected_digest r
    \<and> (e = Some EOF \<longrightarrow> ver_terminal r' = Some EOF)"
  proof (cases "ver_terminal r \<noteq> None \<or> n = 0 \<or> ver_read r = ver_expected_size r")
    case True
    with assms show ?thesis
      by (auto simp: verifying_read_def verifying_ok_def verifying_finish_cases Let_def
          split: prod.splits if_splits option.splits)
  next
    case False
    define m where "m = clip n (ver_expected_size r - ver_read r)"
    obtain c x s where rd: "read (ver_body r) m = ((c, x), s)" by (metis surj_pair)
    have len: "length c \<le> m" using rd by (rule read_withinD)
    have m: "m \<le> n" "int m \<le> ver_expected_size r - ver_read r"
      using assms(1) clip_le by (auto simp: m_def verifying_ok_def)
    define r1 where "r1 = verifying_absorb c (r\<lparr>ver_body := s\<rparr>)"
    from assms(2) False rd have res:
      "(if x = Some EOF then
          (if ver_read r1 \<noteq> ver_expected_size r1 then
             ((c, Some (integrityError ''payload read'')),
              r1\<lparr>ver_terminal := Some (integrityError ''payload read'')\<rparr>)
           else (case verifying_finish r1 of (t, r2) \<Rightarrow> ((c, Some t), r2)))
        else ((c, x), r1)) = ((b, e), r')"
      by (auto simp: verifying_read_def m_def r1_def Let_def split: if_splits)
    have "verifying_ok r1" "ver_terminal r1 = None"
      using assms(1) False len m by (simp_all add: r1_def verifying_ok_def)
    with res len m show ?thesis
      by (auto simp: verifying_ok_def verifying_finish_cases r1_def split: if_splits)
  qed
  then show "verifying_ok r'" "ver_hash r' = ver_hash r @ b" "length b \<le> n"
    "ver_expected_size r' = ver_expected_size r" "ver_expected_digest r' = ver_expected_digest r"
    "e = Some EOF \<Longrightarrow> ver_terminal r' = Some EOF"
    by simp_all
qed

lemma verifying_seq:
  "verifying_ok r \<Longrightarrow> read_seq (verifying_read read) r ns = ((bs, es), r') \<Longrightarrow>
   verifying_ok r' \<and> ver_hash r' = ver_hash r @ bs
     \<and> ver_expected_size r' = ver_expected_size r
     \<and> ver_expected_digest r' = ver_expected_digest r
     \<and> (Some EOF \<in> set es \<longrightarrow> ver_terminal r' = Some EOF)"
proof (induction ns arbitrary: r bs es r')
  case (Cons n ns)
  obtain b e t where rd: "verifying_read read r n = ((b, e), t)" by (metis surj_pair)
  note t = verifying_readD [OF Cons.prems(1) rd]
  obtain bs' es' t' where seq: "read_seq (verifying_read read) t ns = ((bs', es'), t')"
    by (metis surj_pair)
  have latch: "ver_terminal t = Some EOF \<Longrightarrow> ver_terminal t' = Some EOF"
    using seq
  proof (induction ns arbitrary: bs' es')
    case (Cons k ks)
    then show ?case by (auto simp: verifying_latched split: prod.splits)
  qed simp
  from Cons.IH [OF t(1) seq] Cons.prems(2) t latch rd seq show ?case by auto
qed simp

text \<open>The heart of \<open>Get\<close>: a stream that ended in \<open>io.EOF\<close> delivered the committed bytes.\<close>

lemma verified_stream:
  assumes "0 \<le> expected"
    and "read_seq (verifying_read read) (newVerifyingBlobReader body expected digest) ns
      = ((bs, es), r')"
    and "Some EOF \<in> set es"
  shows "int (length bs) = expected \<and> sum256 bs = digest"
proof -
  from verifying_seq [OF verifying_ok_new [OF assms(1)] assms(2)] assms(3)
  have "verifying_ok r'" "ver_hash r' = bs" "ver_expected_size r' = expected"
    "ver_expected_digest r' = digest" "ver_terminal r' = Some EOF"
    by (auto simp: newVerifyingBlobReader_def)
  then show ?thesis by (simp add: verifying_ok_def)
qed

end

section \<open>Draining the two readers over a clean body\<close>

lemma verifying_read_all_clean:
  assumes "clean (ver_body r)" "ver_terminal r = None" "0 < n"
    and "ver_read r = int (length (ver_hash r))"
    and "ver_expected_size r = int (length (ver_hash r @ script_bytes (ver_body r)))"
    and "ver_expected_digest r = sum256 (ver_hash r @ script_bytes (ver_body r))"
    and "script_work (ver_body r) < k"
  shows "\<exists>r'. read_all (verifying_read script_read) k n r
    = ((script_bytes (ver_body r), Some EOF), r')"
  using assms
proof (induction k arbitrary: r)
  case (Suc k)
  show ?case
  proof (cases "script_bytes (ver_body r) = []")
    case True
    obtain b e t where rd: "script_read (ver_body r) 1 = ((b, e), t)" by (metis surj_pair)
    then have "b = []" "e = None \<or> e = Some EOF"
      using True Suc.prems(1) script_read_bytes [OF rd] by (auto dest: script_read_clean)
    with rd True Suc.prems show ?thesis
      by (auto simp: verifying_read_def verifying_finish_cases Let_def)
  next
    case False
    define m where "m = clip n (ver_expected_size r - ver_read r)"
    obtain b e t where rd: "script_read (ver_body r) m = ((b, e), t)" by (metis surj_pair)
    have m: "0 < m" using Suc.prems False by (auto simp: m_def clip_def)
    have ne: "ver_body r \<noteq> []" using False by auto
    with Suc.prems(1) rd have e: "e = None" and t: "clean t" by (auto dest: script_read_clean)
    note bt = script_read_bytes [OF rd, symmetric]
    define r1 where "r1 = verifying_absorb b (r\<lparr>ver_body := t\<rparr>)"
    have step: "verifying_read script_read r n = ((b, None), r1)"
      using Suc.prems False rd e by (simp add: verifying_read_def r1_def m_def Let_def)
    have "script_work t < k" using script_work_read [OF ne m rd] Suc.prems(7) by simp
    with Suc.IH [of r1] Suc.prems t bt obtain r' where
      "read_all (verifying_read script_read) k n r1 = ((script_bytes t, Some EOF), r')"
      by (auto simp: r1_def)
    with step bt show ?thesis by simp
  qed
qed simp

lemma accounted_read_all_clean:
  assumes "clean (acc_source r)" "accounted_ok r" "0 < n"
    and "int (length (acc_hash r @ script_bytes (acc_source r))) \<le> acc_maximum r"
    and "script_work (acc_source r) < k"
  shows "\<exists>r'. read_all (accounted_read script_read) k n r
      = ((script_bytes (acc_source r), Some EOF), r')
    \<and> acc_hash r' = acc_hash r @ script_bytes (acc_source r)"
  using assms
proof (induction k arbitrary: r)
  case (Suc k)
  define m where "m = (if acc_size r = acc_maximum r then 1 else clip n (acc_maximum r - acc_size r))"
  obtain b e t where rd: "script_read (acc_source r) m = ((b, e), t)" by (metis surj_pair)
  have m: "0 < m" using Suc.prems(2,3) by (auto simp: m_def clip_def accounted_ok_def)
  note bt = script_read_bytes [OF rd, symmetric]
  have full: "b = []" if "acc_size r = acc_maximum r"
  proof -
    have "int (length (script_bytes (acc_source r))) \<le> 0"
      using Suc.prems(2,4) that by (simp add: accounted_ok_def)
    then have "length (script_bytes (acc_source r)) = 0" by linarith
    then show ?thesis using bt by simp
  qed
  define r1 where "r1 = (if length b > 0
    then r\<lparr>acc_source := t, acc_hash := acc_hash r @ b,
           acc_size := acc_size r + int (length b), acc_final := False\<rparr>
    else r\<lparr>acc_source := t\<rparr>)"
  have step: "accounted_read script_read r n = ((b, e), r1)"
    using Suc.prems(3) rd full
    by (cases "acc_size r = acc_maximum r") (auto simp: accounted_read_def r1_def m_def Let_def)
  have r1: "accounted_ok r1" "acc_hash r1 = acc_hash r @ b" "acc_maximum r1 = acc_maximum r"
    using script.accounted_readD [OF Suc.prems(2) step] by simp_all
  have src: "acc_source r1 = t" by (simp add: r1_def)
  show ?case
  proof (cases "acc_source r = []")
    case True
    with rd have "b = []" "e = Some EOF" by auto
    with step True r1 show ?thesis by simp
  next
    case False
    with Suc.prems(1) rd have e: "e = None" and t: "clean t" by (auto dest: script_read_clean)
    have "script_work t < k" using script_work_read [OF False m rd] Suc.prems(5) by simp
    with Suc.IH [of r1] Suc.prems t bt r1 src obtain r' where
      "read_all (accounted_read script_read) k n r1 = ((script_bytes t, Some EOF), r')"
      "acc_hash r' = acc_hash r1 @ script_bytes t"
      by auto
    with step e bt r1 show ?thesis by simp
  qed
qed simp

text \<open>A longer source is refused at its first byte above the maximum, not before.\<close>

lemma accounted_read_all_too_large:
  assumes "clean (acc_source r)" "accounted_ok r" "0 < n"
    and "acc_maximum r < int (length (acc_hash r @ script_bytes (acc_source r)))"
    and "script_work (acc_source r) < k"
  shows "\<exists>r'. read_all (accounted_read script_read) k n r
      = ((take (nat (acc_maximum r - acc_size r)) (script_bytes (acc_source r)),
          Some (ObjectTooLargeError (acc_maximum r))), r')"
  using assms
proof (induction k arbitrary: r)
  case (Suc k)
  define m where "m = (if acc_size r = acc_maximum r then 1 else clip n (acc_maximum r - acc_size r))"
  obtain b e t where rd: "script_read (acc_source r) m = ((b, e), t)" by (metis surj_pair)
  have m: "0 < m" using Suc.prems(2,3) by (auto simp: m_def clip_def accounted_ok_def)
  note bt = script_read_bytes [OF rd, symmetric]
  have ne: "acc_source r \<noteq> []" using Suc.prems(2,4) by (auto simp: accounted_ok_def)
  with Suc.prems(1) rd have e: "e = None" and t: "clean t" by (auto dest: script_read_clean)
  have work: "script_work t < k" using script_work_read [OF ne m rd] Suc.prems(5) by simp
  show ?case
  proof (cases "acc_size r = acc_maximum r \<and> b \<noteq> []")
    case True
    with rd have "accounted_read script_read r n
        = (([], Some (ObjectTooLargeError (acc_maximum r))), r\<lparr>acc_source := t\<rparr>)"
      using Suc.prems(3) by (intro script.accounted_too_large) (auto simp: m_def)
    with True show ?thesis by simp
  next
    case False
    define r1 where "r1 = (if length b > 0
      then r\<lparr>acc_source := t, acc_hash := acc_hash r @ b,
             acc_size := acc_size r + int (length b), acc_final := False\<rparr>
      else r\<lparr>acc_source := t\<rparr>)"
    have step: "accounted_read script_read r n = ((b, None), r1)"
      using Suc.prems(3) rd False e
      by (cases "acc_size r = acc_maximum r") (auto simp: accounted_read_def r1_def m_def Let_def)
    have r1: "accounted_ok r1" "acc_hash r1 = acc_hash r @ b" "acc_maximum r1 = acc_maximum r"
      "acc_size r1 = acc_size r + int (length b)"
      using script.accounted_readD [OF Suc.prems(2) step] by simp_all
    have src: "acc_source r1 = t" by (simp add: r1_def)
    from Suc.IH [of r1] Suc.prems t bt r1 src work obtain r' where ih:
      "read_all (accounted_read script_read) k n r1
        = ((take (nat (acc_maximum r1 - acc_size r1)) (script_bytes t),
            Some (ObjectTooLargeError (acc_maximum r1))), r')"
      by auto
    have "length b \<le> nat (acc_maximum r - acc_size r)"
      using r1(1,3,4) unfolding accounted_ok_def by linarith
    moreover have "nat (acc_maximum r1 - acc_size r1)
        = nat (acc_maximum r - acc_size r) - length b"
      using r1(3,4) by simp
    ultimately show ?thesis using step ih bt r1(3) by simp
  qed
qed simp

section \<open>Properties\<close>

text \<open>
  C20. Draining the accounting reader over a source that does not fail, with any buffer: a source
  within the bound is delivered whole up to \<open>io.EOF\<close>, counted and hashed exactly; a longer one
  is refused with the object-too-large error after exactly \<open>maximum\<close> bytes. The number of reads
  needed is bounded by the source.
\<close>

theorem accounted_source_drained:
  assumes "clean src" "0 \<le> maximum" "0 < n" "script_work src < k"
  shows "\<exists>r'. read_all (accounted_read script_read) k n (newAccountedHashReader src maximum) =
      (if int (length (script_bytes src)) \<le> maximum then ((script_bytes src, Some EOF), r')
       else ((take (nat maximum) (script_bytes src), Some (ObjectTooLargeError maximum)), r'))
    \<and> (int (length (script_bytes src)) \<le> maximum \<longrightarrow>
         fst (accounted_digest r') = sum256 (script_bytes src))"
proof -
  let ?r = "newAccountedHashReader src maximum"
  have fields: "acc_source ?r = src" "acc_maximum ?r = maximum" "acc_hash ?r = []" "acc_size ?r = 0"
    by (simp_all add: newAccountedHashReader_def)
  have ok: "accounted_ok ?r" using assms(2) by (rule accounted_ok_new)
  show ?thesis
  proof (cases "int (length (script_bytes src)) \<le> maximum")
    case True
    with accounted_read_all_clean [of ?r n k] assms ok obtain r' where
      r': "read_all (accounted_read script_read) k n ?r = ((script_bytes src, Some EOF), r')"
        "acc_hash r' = script_bytes src" by (auto simp: fields)
    from read_all_as_seq [OF r'(1)] obtain j es where
      "read_seq (accounted_read script_read) ?r (replicate j n)
         = ((script_bytes src, es @ [Some EOF]), r')" by blast
    from script.accounted_seq [OF ok this] have "accounted_ok r'" by simp
    with r'(2) have "fst (accounted_digest r') = sum256 (script_bytes src)"
      using accounted_digest_ok [of r'] by simp
    with r'(1) True show ?thesis by (intro exI [of _ r']) simp
  next
    case False
    with accounted_read_all_too_large [of ?r n k] assms ok obtain r' where
      "read_all (accounted_read script_read) k n ?r =
        ((take (nat maximum) (script_bytes src), Some (ObjectTooLargeError maximum)), r')"
      by (auto simp: fields)
    with False show ?thesis by (intro exI [of _ r']) simp
  qed
qed

lemma accounted_source_drained_witness:
  "\<exists>r'. read_all (accounted_read script_read) 9 4 (newAccountedHashReader [([1, 2, 3], None)] 2)
     = (([1, 2], Some (ObjectTooLargeError 2)), r')"
  using accounted_source_drained [of "[([1, 2, 3], None)]" 2 4 9] by (simp add: script_work_def)

text \<open>
  C21. Draining the verifying reader over a body the transport delivers without an error: with any
  buffer, and after a number of reads bounded by the body, it has delivered the whole content and
  reports \<open>io.EOF\<close>, when the content has the expected size and SHA-256.
\<close>

theorem verified_body_drained:
  assumes "clean body" "0 < n" "script_work body < k"
  shows "\<exists>r'. read_all (verifying_read script_read) k n
      (newVerifyingBlobReader body (int (length (script_bytes body))) (sum256 (script_bytes body)))
    = ((script_bytes body, Some EOF), r')"
proof -
  let ?r = "newVerifyingBlobReader body (int (length (script_bytes body))) (sum256 (script_bytes body))"
  have "ver_body ?r = body" "ver_terminal ?r = None" "ver_read ?r = 0" "ver_hash ?r = []"
    "ver_expected_size ?r = int (length (script_bytes body))"
    "ver_expected_digest ?r = sum256 (script_bytes body)"
    by (simp_all add: newVerifyingBlobReader_def)
  with verifying_read_all_clean [of ?r n k] assms show ?thesis by simp
qed

lemma verified_body_drained_witness:
  "\<exists>r'. read_all (verifying_read script_read) 9 2
      (newVerifyingBlobReader [([1, 2, 3], None)] 3 (sum256 [1, 2, 3]))
    = (([1, 2, 3], Some EOF), r')"
  using verified_body_drained [of "[([1, 2, 3], None)]" 2 9] by (simp add: script_work_def)

end
