(* ===== verification/Guard.thy ===== *)
theory Guard
  imports Errors
begin

text \<open>
  internal/guard/guard.go: contexts, \<open>RequireDeadline\<close> and \<open>Bound\<close>. A context is a
  node of a tree; each has an identity (what its cancel function names), a deadline and, for
  a derived context, its parent. Time is in nanoseconds.
\<close>

section \<open>Deadlines\<close>

datatype deadline = At int | NoDeadline

text \<open>Deadlines are ordered by how long they let an operation run: no deadline comes last.\<close>

instantiation deadline :: linorder
begin

fun less_eq_deadline :: "deadline \<Rightarrow> deadline \<Rightarrow> bool" where
  "less_eq_deadline (At a) (At b) \<longleftrightarrow> a \<le> b"
| "less_eq_deadline d NoDeadline \<longleftrightarrow> True"
| "less_eq_deadline NoDeadline (At b) \<longleftrightarrow> False"

definition less_deadline :: "deadline \<Rightarrow> deadline \<Rightarrow> bool" where
  "less_deadline a b \<longleftrightarrow> a \<le> b \<and> \<not> b \<le> (a :: deadline)"

instance
proof
  fix x y z :: deadline
  show "(x < y) = (x \<le> y \<and> \<not> y \<le> x)" by (simp add: less_deadline_def)
  show "x \<le> x" by (cases x) simp_all
  show "x \<le> y \<Longrightarrow> y \<le> z \<Longrightarrow> x \<le> z" by (cases x; cases y; cases z) simp_all
  show "x \<le> y \<Longrightarrow> y \<le> x \<Longrightarrow> x = y" by (cases x; cases y) simp_all
  show "x \<le> y \<or> y \<le> x" by (cases x; cases y) auto
qed

end

section \<open>Contexts\<close>

datatype ctx = Root nat deadline | Child nat deadline ctx

primrec ctx_deadline :: "ctx \<Rightarrow> deadline" where
  "ctx_deadline (Root i d) = d"
| "ctx_deadline (Child i d p) = d"

text \<open>
  \<open>ctx.Err()\<close> at time \<open>now\<close> when the contexts in \<open>canc\<close> have been canceled: a child
  reports its parent's end first.
\<close>

primrec ctx_err :: "nat set \<Rightarrow> int \<Rightarrow> ctx \<Rightarrow> err option" where
  "ctx_err canc now (Root i d) =
     (if i \<in> canc then Some CtxCanceled
      else if d \<le> At now then Some CtxDeadlineExceeded else None)"
| "ctx_err canc now (Child i d p) =
     (case ctx_err canc now p of
        Some e \<Rightarrow> Some e
      | None \<Rightarrow>
          (if i \<in> canc then Some CtxCanceled
           else if d \<le> At now then Some CtxDeadlineExceeded else None))"

text \<open>\<open>context.WithTimeout\<close> and \<open>context.WithCancel\<close>.\<close>

definition with_timeout :: "nat \<Rightarrow> int \<Rightarrow> ctx \<Rightarrow> int \<Rightarrow> ctx" where
  "with_timeout i now p timeout = Child i (min (ctx_deadline p) (At (now + timeout))) p"

definition with_cancel :: "nat \<Rightarrow> ctx \<Rightarrow> ctx" where
  "with_cancel i p = Child i (ctx_deadline p) p"

section \<open>The guards\<close>

text \<open>A nil context is \<open>None\<close>; a nil error is \<open>None\<close>.\<close>

definition RequireDeadline :: "ctx option \<Rightarrow> string \<Rightarrow> err option" where
  "RequireDeadline c operation =
     (case c of
        None \<Rightarrow> Some (DeadlineRequiredError operation)
      | Some x \<Rightarrow>
          (if ctx_deadline x = NoDeadline then Some (DeadlineRequiredError operation) else None))"

text \<open>
  \<open>Bound\<close> at time \<open>now\<close>, with \<open>i\<close> the identity of the context it may create. The
  second component is the cancel function: \<open>None\<close> the no-op for a caller's own deadline.
\<close>

definition Bound :: "int \<Rightarrow> nat \<Rightarrow> ctx option \<Rightarrow> string \<Rightarrow> int \<Rightarrow> (ctx \<times> nat option) result" where
  "Bound now i c operation timeout =
     (case c of
        None \<Rightarrow> Inl (DeadlineRequiredError operation)
      | Some x \<Rightarrow>
          (if ctx_deadline x \<noteq> NoDeadline then Inr (x, None)
           else Inr (with_timeout i now x timeout, Some i)))"

lemma NoDeadline_top [simp]: "d \<le> NoDeadline"
  by (cases d) simp_all

lemma At_not_NoDeadline [simp]: "\<not> NoDeadline \<le> At t"
  by simp

lemma min_NoDeadline [simp]: "min NoDeadline d = d"
  by (cases d) (simp_all add: min_def)

lemma ctx_deadline_with_timeout [simp]:
  "ctx_deadline (with_timeout i now p t) = min (ctx_deadline p) (At (now + t))"
  by (simp add: with_timeout_def)

lemma ctx_deadline_with_cancel [simp]: "ctx_deadline (with_cancel i p) = ctx_deadline p"
  by (simp add: with_cancel_def)

text \<open>A parent's end reaches every context derived from it.\<close>

lemma ctx_err_child: "ctx_err canc now p = Some e \<Longrightarrow> ctx_err canc now (Child i d p) = Some e"
  by simp

lemma Bound_InrD:
  "Bound now i c operation timeout = Inr (b, cancel) \<Longrightarrow>
   ctx_deadline b \<noteq> NoDeadline \<and> (\<exists>x. c = Some x \<and> (b = x \<or> b = with_timeout i now x timeout))"
  by (auto simp: Bound_def min_def split: option.splits if_splits)

lemma RequireDeadline_Some: "ctx_deadline x \<noteq> NoDeadline \<Longrightarrow> RequireDeadline (Some x) op = None"
  by (simp add: RequireDeadline_def)

end
