(* ===== verification/Sdk.thy ===== *)
theory Sdk
  imports BlobIO Guard
begin

text \<open>
  The world the store talks to. The S3 client, the transfer manager, the clock, the contexts, the
  random source and the transfer gate are not this module's code: an operation is a program that
  issues commands and continues with their answers. \<open>exec\<close> gives every behaviour of a program
  over every behaviour of the world, \<open>run\<close> its behaviour over one given world.
\<close>

section \<open>Requests and answers\<close>

text \<open>The fields of the SDK's input and output structures the code sets or reads; a nil pointer
  is \<open>None\<close>. \<open>*_sse\<close> is the server-side encryption header, \<open>*_kms\<close> its key.\<close>

record object_input =
  oi_bucket :: string
  oi_key :: string

record head_output =
  ho_length :: "int option"
  ho_etag :: "string option"

record get_input =
  gi_bucket :: string
  gi_key :: string
  gi_range :: "string option"
  gi_if_match :: "string option"

text \<open>A response body: what its reads deliver, and what its \<open>Close\<close> returns.\<close>

record body =
  bd_script :: script
  bd_close :: "err option"

record get_output =
  go_body :: "body option"
  go_length :: "int option"

record put_input =
  pi_bucket :: string
  pi_key :: string
  pi_body :: bytes
  pi_length :: int
  pi_if_none_match :: "string option"
  pi_sse :: "string option"
  pi_kms :: "string option"

record upload_input =
  ui_bucket :: string
  ui_key :: string
  ui_body :: "script accounted"
  ui_if_none_match :: "string option"
  ui_sse :: "string option"
  ui_kms :: "string option"

record list_input =
  li_bucket :: string
  li_prefix :: string
  li_token :: "string option"
  li_max :: int

record list_output =
  lo_rows :: "string option list"
  lo_truncated :: "bool option"
  lo_next :: "string option"

datatype cmd =
    HeadObject ctx object_input
  | GetObject ctx get_input
  | PutObject ctx put_input
  | DeleteObject ctx object_input
  | ListObjectsV2 ctx list_input
  | UploadObject ctx upload_input
  | CtxErr ctx
  | Fresh
  | Cancel nat
  | RandRead nat
  | Acquire ctx
  | Release

text \<open>
  \<open>RFresh\<close> is the time and the identity of a new context. \<open>RUpload\<close> is what \<open>UploadObject\<close>
  returned and the lengths of the buffers it read its body with.
\<close>

datatype (discs_sels) resp =
    RHead "head_output result"
  | RGet "get_output result"
  | RList "list_output result"
  | RUpload "int option result" "nat list"
  | RErr "err option"
  | RFresh int nat
  | RRand "bytes option"
  | RDone

definition rand_ok :: "nat \<Rightarrow> resp \<Rightarrow> bool" where
  "rand_ok n r \<longleftrightarrow> (case r of RRand (Some bs) \<Rightarrow> length bs = n | RRand None \<Rightarrow> True | _ \<Rightarrow> False)"

text \<open>\<open>ctx.Err()\<close> is nil or one of the two errors \<open>context\<close> documents.\<close>

definition ctx_answer :: "resp \<Rightarrow> bool" where
  "ctx_answer r \<longleftrightarrow> (case r of
     RErr x \<Rightarrow> x = None \<or> x = Some CtxCanceled \<or> x = Some CtxDeadlineExceeded | _ \<Rightarrow> False)"

primrec answers :: "cmd \<Rightarrow> resp \<Rightarrow> bool" where
  "answers (HeadObject c i) r \<longleftrightarrow> is_RHead r"
| "answers (GetObject c i) r \<longleftrightarrow> is_RGet r"
| "answers (PutObject c i) r \<longleftrightarrow> is_RErr r"
| "answers (DeleteObject c i) r \<longleftrightarrow> is_RErr r"
| "answers (ListObjectsV2 c i) r \<longleftrightarrow> is_RList r"
| "answers (UploadObject c i) r \<longleftrightarrow> is_RUpload r"
| "answers (CtxErr c) r \<longleftrightarrow> ctx_answer r"
| "answers Fresh r \<longleftrightarrow> is_RFresh r"
| "answers (Cancel i) r \<longleftrightarrow> r = RDone"
| "answers (RandRead n) r \<longleftrightarrow> rand_ok n r"
| "answers (Acquire c) r \<longleftrightarrow> ctx_answer r"
| "answers Release r \<longleftrightarrow> r = RDone"

section \<open>Programs\<close>

datatype 'a prog = Ret 'a | Do cmd "resp \<Rightarrow> 'a prog"

primrec pbind :: "'a prog \<Rightarrow> ('a \<Rightarrow> 'b prog) \<Rightarrow> 'b prog" where
  "pbind (Ret x) f = f x"
| "pbind (Do c k) f = Do c (\<lambda>r. pbind (k r) f)"

text \<open>One command and the part of its answer the code uses.\<close>

fun as_head :: "resp \<Rightarrow> head_output result" where
  "as_head (RHead x) = x" | "as_head _ = Inl EOF"

fun as_get :: "resp \<Rightarrow> get_output result" where
  "as_get (RGet x) = x" | "as_get _ = Inl EOF"

fun as_list :: "resp \<Rightarrow> list_output result" where
  "as_list (RList x) = x" | "as_list _ = Inl EOF"

fun as_upload :: "resp \<Rightarrow> int option result \<times> nat list" where
  "as_upload (RUpload x ns) = (x, ns)" | "as_upload _ = (Inl EOF, [])"

fun as_err :: "resp \<Rightarrow> err option" where
  "as_err (RErr x) = x" | "as_err _ = None"

fun as_fresh :: "resp \<Rightarrow> int \<times> nat" where
  "as_fresh (RFresh t i) = (t, i)" | "as_fresh _ = (0, 0)"

fun as_rand :: "resp \<Rightarrow> bytes option" where
  "as_rand (RRand x) = x" | "as_rand _ = None"

definition call :: "cmd \<Rightarrow> (resp \<Rightarrow> 'a) \<Rightarrow> 'a prog" where
  "call c f = Do c (\<lambda>r. Ret (f r))"

section \<open>Behaviours\<close>

type_synonym event = "cmd \<times> resp"

inductive exec :: "'a prog \<Rightarrow> event list \<Rightarrow> 'a \<Rightarrow> bool" where
  exec_Ret: "exec (Ret x) [] x"
| exec_Do: "answers c r \<Longrightarrow> exec (k r) tr x \<Longrightarrow> exec (Do c k) ((c, r) # tr) x"

inductive_simps exec_Ret_iff [simp]: "exec (Ret x) tr y"
inductive_simps exec_Do_iff: "exec (Do c k) tr y"

lemma exec_bind:
  "exec (pbind p f) tr y \<longleftrightarrow> (\<exists>t x u. exec p t x \<and> exec (f x) u y \<and> tr = t @ u)"
proof (induction p arbitrary: tr)
  case (Do c k)
  show ?case
  proof
    assume "exec (pbind (Do c k) f) tr y"
    then obtain r tr' where r: "answers c r" "exec (pbind (k r) f) tr' y" "tr = (c, r) # tr'"
      by (auto simp: exec_Do_iff)
    with Do.IH [OF rangeI] obtain t x u where
      "exec (k r) t x" "exec (f x) u y" "tr' = t @ u" by blast
    with r show "\<exists>t x u. exec (Do c k) t x \<and> exec (f x) u y \<and> tr = t @ u"
      by (intro exI [of _ "(c, r) # t"] exI [of _ x] exI [of _ u]) (simp add: exec_Do)
  next
    assume "\<exists>t x u. exec (Do c k) t x \<and> exec (f x) u y \<and> tr = t @ u"
    then obtain t x u where t: "exec (Do c k) t x" "exec (f x) u y" "tr = t @ u" by blast
    then obtain r t' where "answers c r" "exec (k r) t' x" "t = (c, r) # t'"
      by (auto simp: exec_Do_iff)
    with t Do.IH [OF rangeI, of r "t' @ u"] show "exec (pbind (Do c k) f) tr y"
      by (auto simp: exec_Do_iff)
  qed
qed simp

text \<open>A world answers every command with an answer of its type.\<close>

type_synonym 'w world = "cmd \<Rightarrow> 'w \<Rightarrow> resp \<times> 'w"

primrec run :: "'w world \<Rightarrow> 'a prog \<Rightarrow> 'w \<Rightarrow> 'a \<times> 'w" where
  "run h (Ret x) w = (x, w)"
| "run h (Do c k) w = (case h c w of (r, w') \<Rightarrow> run h (k r) w')"

lemma run_bind: "run h (pbind p f) w = (case run h p w of (x, w') \<Rightarrow> run h (f x) w')"
  by (induction p arbitrary: w) (auto split: prod.split)

lemma run_call: "run h (call c f) w = (case h c w of (r, w') \<Rightarrow> (f r, w'))"
  by (simp add: call_def)

definition well_typed :: "'w world \<Rightarrow> bool" where
  "well_typed h \<longleftrightarrow> (\<forall>c w. answers c (fst (h c w)))"

lemma run_exec: "well_typed h \<Longrightarrow> run h p w = (x, w') \<Longrightarrow> \<exists>tr. exec p tr x"
proof (induction p arbitrary: w)
  case (Do c k)
  obtain r v where h: "h c w = (r, v)" by (metis surj_pair)
  with Do.prems obtain tr where "exec (k r) tr x"
    using Do.IH [OF rangeI] by fastforce
  moreover have "answers c r" using Do.prems(1) h by (metis fst_conv well_typed_def)
  ultimately show ?case by (blast intro: exec_Do)
qed (auto intro: exec_Ret)

section \<open>Facts of every behaviour\<close>

text \<open>
  \<open>along A p h Q\<close>: on every behaviour of \<open>p\<close> that continues the history \<open>h\<close>, each command is
  issued only after a history that allows it, and \<open>Q\<close> holds of the final history and the
  result. Histories are newest first. The equations run \<open>p\<close> symbolically.
\<close>

type_synonym allowed = "event list \<Rightarrow> cmd \<Rightarrow> bool"

primrec along :: "allowed \<Rightarrow> 'a prog \<Rightarrow> event list \<Rightarrow> (event list \<Rightarrow> 'a \<Rightarrow> bool) \<Rightarrow> bool" where
  "along A (Ret x) h Q \<longleftrightarrow> Q h x"
| "along A (Do c k) h Q \<longleftrightarrow> A h c \<and> (\<forall>r. answers c r \<longrightarrow> along A (k r) ((c, r) # h) Q)"

text \<open>A trace every command of which was allowed by what came before it.\<close>

definition allowed_trace :: "allowed \<Rightarrow> event list \<Rightarrow> event list \<Rightarrow> bool" where
  "allowed_trace A h tr \<longleftrightarrow> (\<forall>t c r u. tr = t @ (c, r) # u \<longrightarrow> A (rev t @ h) c)"

lemma allowed_trace_Cons:
  "A h c \<Longrightarrow> allowed_trace A ((c, r) # h) tr \<Longrightarrow> allowed_trace A h ((c, r) # tr)"
  by (auto simp: allowed_trace_def Cons_eq_append_conv)

lemma along_exec:
  "exec p tr x \<Longrightarrow> along A p h Q \<Longrightarrow> allowed_trace A h tr \<and> Q (rev tr @ h) x"
proof (induction arbitrary: h rule: exec.induct)
  case (exec_Do c r k tr x)
  then show ?case by (simp add: allowed_trace_Cons)
qed (simp add: allowed_trace_def)

lemma along_bind [simp]:
  "along A (pbind p f) h Q \<longleftrightarrow> along A p h (\<lambda>h' x. along A (f x) h' Q)"
  by (induction p arbitrary: h) simp_all

lemma along_mono:
  "along A p h Q \<Longrightarrow> (\<And>h x. Q h x \<Longrightarrow> R h x) \<Longrightarrow> along A p h R"
proof (induction p arbitrary: h)
  case (Do c k)
  show ?case using Do.prems(1) by (auto intro!: Do.IH [OF rangeI _ Do.prems(2)])
qed simp

lemma along_call [simp]:
  "along A (call c f) h Q \<longleftrightarrow> A h c \<and> (\<forall>r. answers c r \<longrightarrow> Q ((c, r) # h) (f r))"
  by (simp add: call_def)

text \<open>Facts of each command alone.\<close>

lemma along_each:
  "exec p tr x \<Longrightarrow> along (\<lambda>_. P) p [] (\<lambda>_. R) \<Longrightarrow> (\<forall>(c, r) \<in> set tr. P c) \<and> R x"
proof -
  assume "exec p tr x" "along (\<lambda>_. P) p [] (\<lambda>_. R)"
  from along_exec [OF this] have all: "allowed_trace (\<lambda>_. P) [] tr" and "R x" by simp_all
  moreover have "P c" if "(c, r) \<in> set tr" for c r
    using split_list [OF that] all by (auto simp: allowed_trace_def)
  ultimately show ?thesis by auto
qed

text \<open>The answers a command can get, one constructor each.\<close>

lemma all_answers [simp]:
  "(\<forall>r. is_RHead r \<longrightarrow> P r) \<longleftrightarrow> (\<forall>x. P (RHead x))"
  "(\<forall>r. is_RGet r \<longrightarrow> P r) \<longleftrightarrow> (\<forall>x. P (RGet x))"
  "(\<forall>r. is_RList r \<longrightarrow> P r) \<longleftrightarrow> (\<forall>x. P (RList x))"
  "(\<forall>r. is_RErr r \<longrightarrow> P r) \<longleftrightarrow> (\<forall>x. P (RErr x))"
  "(\<forall>r. is_RFresh r \<longrightarrow> P r) \<longleftrightarrow> (\<forall>t i. P (RFresh t i))"
  "(\<forall>r. is_RUpload r \<longrightarrow> P r) \<longleftrightarrow> (\<forall>x ns. P (RUpload x ns))"
  "(\<forall>r. rand_ok n r \<longrightarrow> P r) \<longleftrightarrow> P (RRand None) \<and> (\<forall>bs. length bs = n \<longrightarrow> P (RRand (Some bs)))"
  "(\<forall>r. ctx_answer r \<longrightarrow> P r) \<longleftrightarrow>
     P (RErr None) \<and> P (RErr (Some CtxCanceled)) \<and> P (RErr (Some CtxDeadlineExceeded))"
  by (auto simp: ctx_answer_def is_RHead_def is_RGet_def is_RList_def is_RErr_def is_RFresh_def is_RUpload_def
      rand_ok_def split: resp.splits option.splits)

end
