(* ===== verification/Store.thy ===== *)
theory Store
  imports Options Sdk
begin

text \<open>
  s3store.go, transfer.go, the guard calls and the encryption headers of blob.go: how a store is
  opened, what every operation does before its first request, and what it stamps on the requests
  that create objects.
\<close>

section \<open>The store\<close>

text \<open>What \<open>defaultLoadConfig\<close> asks the SDK for, and what the two clients are set to.\<close>

record load_config =
  lc_region :: string
  lc_request_checksum :: string
  lc_response_checksum :: string
  lc_retry_max_attempts :: nat
  lc_credentials :: "nat option"

record client_config =
  cc_load :: load_config
  cc_base_endpoint :: string
  cc_use_path_style :: bool

record transfer_config =
  tc_threshold :: int
  tc_part_size :: int
  tc_concurrency :: int
  tc_get_buffer :: int
  tc_max_upload_parts :: int

text \<open>\<open>st_slots\<close> is the capacity of the channel \<open>transferSlots\<close>, \<open>None\<close> the nil channel of
  a \<open>Store\<close> that no constructor built.\<close>

record store =
  st_client :: client_config
  st_transfers :: transfer_config
  st_options :: resolved_options
  st_slots :: "int option"

definition newStore :: "client_config \<Rightarrow> transfer_config \<Rightarrow> resolved_options \<Rightarrow> store" where
  "newStore client transfers resolved =
     \<lparr>st_client = client, st_transfers = transfers, st_options = resolved,
      st_slots = Some (ro_maxConcurrentTransfers resolved)\<rparr>"

definition defaultLoadConfig :: "resolved_options \<Rightarrow> load_config" where
  "defaultLoadConfig opts =
     \<lparr>lc_region = ro_region opts, lc_request_checksum = ''when_required'',
      lc_response_checksum = ''when_required'', lc_retry_max_attempts = 3,
      lc_credentials = ro_credentials opts\<rparr>"

section \<open>Contexts and the transfer gate\<close>

text \<open>\<open>guard.Bound\<close>: the clock is read only when a child context is made.\<close>

definition guard_bound ::
    "ctx option \<Rightarrow> string \<Rightarrow> int \<Rightarrow> (ctx \<times> nat option) result prog" where
  "guard_bound ctx operation timeout =
     (case ctx of
        Some c \<Rightarrow>
          (if ctx_deadline c = NoDeadline
           then call Fresh (\<lambda>r. Bound (fst (as_fresh r)) (snd (as_fresh r)) ctx operation timeout)
           else Ret (Bound 0 0 ctx operation timeout))
      | None \<Rightarrow> Ret (Bound 0 0 ctx operation timeout))"

text \<open>A cancel function: the no-op for a caller's own deadline.\<close>

definition cancel :: "nat option \<Rightarrow> unit prog" where
  "cancel c = (case c of None \<Rightarrow> Ret () | Some i \<Rightarrow> call (Cancel i) (\<lambda>_. ()))"

definition ctx_Err :: "ctx \<Rightarrow> err option prog" where
  "ctx_Err c = call (CtxErr c) as_err"

text \<open>The \<open>select\<close> of \<open>acquireTransfer\<close> is one command: it ends with the slot or with the
  context's error.\<close>

definition acquireTransfer :: "store \<Rightarrow> ctx \<Rightarrow> string \<Rightarrow> err option prog" where
  "acquireTransfer s c operation =
     (case RequireDeadline (Some c) operation of
        Some e \<Rightarrow> Ret (Some e)
      | None \<Rightarrow>
          (if st_slots s = None then Ret (Some (UnconstructedStoreError operation))
           else call (Acquire c) as_err))"

definition releaseTransfer :: "unit prog" where
  "releaseTransfer = call Release (\<lambda>_. ())"

section \<open>Open\<close>

text \<open>\<open>load\<close> is the SDK's \<open>config.LoadDefaultConfig\<close>: nil or its error.\<close>

definition Open ::
    "parsers \<Rightarrow> (ctx \<Rightarrow> load_config \<Rightarrow> err option) \<Rightarrow> ctx option \<Rightarrow> options \<Rightarrow> store result prog" where
  "Open lib load ctx opts =
     (case resolve lib opts of
        Inl e \<Rightarrow> Ret (Inl e)
      | Inr resolved \<Rightarrow>
          pbind (guard_bound ctx ''Open'' (ro_operationTimeout resolved)) (\<lambda>b.
            case b of
              Inl e \<Rightarrow> Ret (Inl e)
            | Inr (c, cancelFn) \<Rightarrow>
                (let awsConfig = defaultLoadConfig resolved;
                     client = \<lparr>cc_load = awsConfig, cc_base_endpoint = ro_endpoint resolved,
                       cc_use_path_style = (ro_addressingStyle resolved = AddressingPath)\<rparr>;
                     transfers = \<lparr>tc_threshold = ro_multipartThreshold resolved,
                       tc_part_size = ro_multipartPartSize resolved,
                       tc_concurrency = ro_concurrency resolved,
                       tc_get_buffer =
                         wrap64 (ro_concurrency resolved * ro_multipartPartSize resolved),
                       tc_max_upload_parts = maxUploadParts\<rparr>;
                     opened =
                       (if load c awsConfig \<noteq> None
                        then Inl (invalidOption ''Credentials''
                               ''AWS configuration could not be loaded securely'')
                        else Inr (newStore client transfers resolved))
                 in pbind (cancel cancelFn) (\<lambda>_. Ret opened))))"

section \<open>Encryption headers\<close>

definition applyTransferEncryption :: "store \<Rightarrow> upload_input \<Rightarrow> upload_input" where
  "applyTransferEncryption s input =
     (if ro_encryption (st_options s) = EncryptionAES256
      then input\<lparr>ui_sse := Some ''AES256''\<rparr>
      else if ro_encryption (st_options s) = EncryptionKMS
      then input\<lparr>ui_sse := Some ''aws:kms'', ui_kms := Some (ro_kmsKeyID (st_options s))\<rparr>
      else input)"

definition applyEncryption :: "store \<Rightarrow> put_input \<Rightarrow> put_input" where
  "applyEncryption s input =
     (if ro_encryption (st_options s) = EncryptionAES256
      then input\<lparr>pi_sse := Some ''AES256''\<rparr>
      else if ro_encryption (st_options s) = EncryptionKMS
      then input\<lparr>pi_sse := Some ''aws:kms'', pi_kms := Some (ro_kmsKeyID (st_options s))\<rparr>
      else input)"

section \<open>Properties\<close>

text \<open>The context an operation runs under, along a program.\<close>

lemma along_guard_bound [simp]:
  "along A (guard_bound ctx op timeout) h Q \<longleftrightarrow>
    (case ctx of
       None \<Rightarrow> Q h (Inl (DeadlineRequiredError op))
     | Some c \<Rightarrow>
         (if ctx_deadline c = NoDeadline
          then A h Fresh \<and> (\<forall>t i. Q ((Fresh, RFresh t i) # h)
                 (Inr (with_timeout i t c timeout, Some i)))
          else Q h (Inr (c, None))))"
  by (auto simp: guard_bound_def Bound_def split: option.split)

lemma along_cancel [simp]:
  "along A (cancel c) h Q \<longleftrightarrow>
     (case c of None \<Rightarrow> Q h () | Some i \<Rightarrow> A h (Cancel i) \<and> Q ((Cancel i, RDone) # h) ())"
  by (auto simp: cancel_def split: option.split)

lemma along_ctx_Err [simp]:
  "along A (ctx_Err c) h Q \<longleftrightarrow> A h (CtxErr c)
     \<and> Q ((CtxErr c, RErr None) # h) None
     \<and> Q ((CtxErr c, RErr (Some CtxCanceled)) # h) (Some CtxCanceled)
     \<and> Q ((CtxErr c, RErr (Some CtxDeadlineExceeded)) # h) (Some CtxDeadlineExceeded)"
  by (simp add: ctx_Err_def)

lemma along_release [simp]:
  "along A releaseTransfer h Q \<longleftrightarrow> A h Release \<and> Q ((Release, RDone) # h) ()"
  by (simp add: releaseTransfer_def)

lemma along_acquire [simp]:
  "along A (acquireTransfer s c op) h Q \<longleftrightarrow>
     (if ctx_deadline c = NoDeadline then Q h (Some (DeadlineRequiredError op))
      else if st_slots s = None then Q h (Some (UnconstructedStoreError op))
      else A h (Acquire c)
        \<and> Q ((Acquire c, RErr None) # h) None
        \<and> Q ((Acquire c, RErr (Some CtxCanceled)) # h) (Some CtxCanceled)
        \<and> Q ((Acquire c, RErr (Some CtxDeadlineExceeded)) # h) (Some CtxDeadlineExceeded))"
  by (simp add: acquireTransfer_def RequireDeadline_def)

text \<open>The commands that reach the object store.\<close>

primrec is_request :: "cmd \<Rightarrow> bool" where
  "is_request (HeadObject c i) \<longleftrightarrow> True"
| "is_request (GetObject c i) \<longleftrightarrow> True"
| "is_request (PutObject c i) \<longleftrightarrow> True"
| "is_request (DeleteObject c i) \<longleftrightarrow> True"
| "is_request (ListObjectsV2 c i) \<longleftrightarrow> True"
| "is_request (UploadObject c i) \<longleftrightarrow> True"
| "is_request (CtxErr c) \<longleftrightarrow> False"
| "is_request Fresh \<longleftrightarrow> False"
| "is_request (Cancel i) \<longleftrightarrow> False"
| "is_request (RandRead n) \<longleftrightarrow> False"
| "is_request (Acquire c) \<longleftrightarrow> False"
| "is_request Release \<longleftrightarrow> False"

text \<open>What \<open>Open\<close> returns, as a postcondition.\<close>

definition opened_ok :: "parsers \<Rightarrow> options \<Rightarrow> store result \<Rightarrow> bool" where
  "opened_ok lib opts res \<longleftrightarrow>
     (case res of
        Inr s \<Rightarrow> resolve lib opts = Inr (st_options s)
          \<and> (\<exists>n. st_slots s = Some n \<and> 1 \<le> n \<and> n \<le> 32)
          \<and> tc_part_size (st_transfers s) * 10000 - 1 = ro_maxAccountedObjectSize (st_options s)
          \<and> tc_max_upload_parts (st_transfers s) = 10000
          \<and> (cc_use_path_style (st_client s) \<longleftrightarrow> AddressingStyle opts = AddressingPath)
      | Inl e \<Rightarrow> resolve lib opts = Inl e \<or> e = DeadlineRequiredError ''Open''
          \<or> e = invalidOption ''Credentials'' ''AWS configuration could not be loaded securely'')"

lemma Open_along:
  "along (\<lambda>_ c. \<not> is_request c) (Open lib load ctx opts) [] (\<lambda>_ res. opened_ok lib opts res)"
proof (cases "resolve lib opts")
  case (Inl e)
  then show ?thesis by (simp add: Open_def opened_ok_def)
next
  case (Inr ro)
  have "1 \<le> ro_maxConcurrentTransfers ro" "ro_maxConcurrentTransfers ro \<le> 32"
    using resolve_fields(6,7) [OF Inr] by (simp_all add: maxConcurrentTransfers_def)
  with Inr resolve_fields(11) [OF Inr] resolve_part_size(3) [OF Inr] show ?thesis
    by (auto simp: Open_def Let_def opened_ok_def newStore_def maxUploadParts_def
        split: option.split)
qed

text \<open>
  C32. \<open>Open\<close> performs no request: over every behaviour of the world it issues none; a store it
  returns runs with the resolved options, has a transfer gate of between 1 and 32 slots, the part
  size its object-size bound was computed with, and path-style addressing exactly when asked; and
  a failing SDK configuration is reported without the SDK's error.
\<close>

theorem open_is_lazy:
  assumes "exec (Open lib load ctx opts) tr res"
  shows "(\<forall>(c, r) \<in> set tr. \<not> is_request c) \<and> opened_ok lib opts res"
  using along_each [OF assms Open_along] .

lemma open_is_lazy_witness:
  "\<exists>s. exec (Open sample_parsers (\<lambda>_ _. None) (Some (Root 0 (At 5))) sample_options) [] (Inr s)
     \<and> opened_ok sample_parsers sample_options (Inr s)"
proof -
  obtain s where s: "Open sample_parsers (\<lambda>_ _. None) (Some (Root 0 (At 5))) sample_options
      = Ret (Inr s)"
    by (simp add: Open_def sample_resolve guard_bound_def Bound_def Let_def cancel_def)
  then have "exec (Open sample_parsers (\<lambda>_ _. None) (Some (Root 0 (At 5))) sample_options) [] (Inr s)"
    by simp
  from open_is_lazy [OF this] this show ?thesis by blast
qed

end
