(* ===== verification/Keys.thy ===== *)
theory Keys
  imports Errors GoEncoding BlobIO
begin

text \<open>
  key.go and the payload-key functions at the end of blob.go: how logical keys become backend
  object keys and back. \<open>storage.ValidateName\<close> belongs to another module: it is the
  argument \<open>vn\<close>, giving the error it returns. \<open>canonical_names\<close> is what that module
  documents of it, used as a hypothesis where a claim needs it.
\<close>

section \<open>storage.ValidateName\<close>

type_synonym name_validator = "string \<Rightarrow> err option"

definition name_chars :: "char set" where
  "name_chars = set ''abcdefghijklmnopqrstuvwxyz0123456789_.-''"

text \<open>The documented grammar: lower-case ASCII segments joined by \<open>/\<close>, none of them empty
  or a dot segment, at most 512 bytes in all.\<close>

definition canonical_name :: "string \<Rightarrow> bool" where
  "canonical_name s \<longleftrightarrow> length s \<le> 512
     \<and> list_all (\<lambda>p. p \<noteq> [] \<and> p \<noteq> ''.'' \<and> p \<noteq> ''..'' \<and> list_all (\<lambda>c. c \<in> name_chars) p)
         (split_on slash s)"

definition canonical_names :: "name_validator \<Rightarrow> bool" where
  "canonical_names vn \<longleftrightarrow>
     (\<forall>s. (vn s = None \<longrightarrow> canonical_name s) \<and> (\<forall>e. vn s = Some e \<longrightarrow> as_invalid_name e \<noteq> None))"

text \<open>A validator of that grammar, with which the witnesses instantiate \<open>vn\<close>.\<close>

definition grammar_validator :: name_validator where
  "grammar_validator s =
     (if canonical_name s then None else Some (InvalidNameError s ''canonical grammar''))"

lemma grammar_validator_canonical [simp]: "canonical_names grammar_validator"
  by (simp add: canonical_names_def grammar_validator_def)

section \<open>Constants and roots\<close>

definition maxS3ObjectKeyBytes :: nat where
  [limits]: "maxS3ObjectKeyBytes = 1024"

definition manifestNamespace :: string where
  "manifestNamespace = ''blobs/v1/''"

definition payloadNamespace :: string where
  "payloadNamespace = ''payloads/v1/''"

definition maxObjectKeySegmentBytes :: nat where
  [limits]: "maxObjectKeySegmentBytes = 255"

definition namespaceRoot :: "string \<Rightarrow> string \<Rightarrow> string" where
  "namespaceRoot deploymentPrefix ns = deploymentPrefix @ ''/'' @ ns"

definition validateBlobKey :: "name_validator \<Rightarrow> string \<Rightarrow> err option" where
  "validateBlobKey vn key = vn key"

definition validateListPrefix :: "name_validator \<Rightarrow> string \<Rightarrow> err option" where
  "validateListPrefix vn prefix = (if prefix = [] then None else vn (trim_suffix prefix ''/''))"

definition manifestDigestRoot :: "string \<Rightarrow> string \<Rightarrow> string" where
  "manifestDigestRoot deploymentPrefix logicalKey =
     namespaceRoot deploymentPrefix manifestNamespace
       @ hex_encode (sum256 (bytes_of logicalKey)) @ ''/''"

section \<open>Manifest object keys\<close>

function segmentEncoding :: "string \<Rightarrow> string" where
  "segmentEncoding encoded =
     (if maxObjectKeySegmentBytes < length encoded
      then take maxObjectKeySegmentBytes encoded @ ''/''
             @ segmentEncoding (drop maxObjectKeySegmentBytes encoded)
      else encoded)"
  by auto
termination by (relation "measure length") (auto simp: limits)

declare segmentEncoding.simps [simp del]

definition manifestObjectKey :: "name_validator \<Rightarrow> string \<Rightarrow> string \<Rightarrow> string result" where
  "manifestObjectKey vn deploymentPrefix logicalKey =
     (case vn deploymentPrefix of
        Some e \<Rightarrow> Inl e
      | None \<Rightarrow>
          (case vn logicalKey of
             Some e \<Rightarrow> Inl e
           | None \<Rightarrow>
               (let objectKey = manifestDigestRoot deploymentPrefix logicalKey
                      @ segmentEncoding (b64_encode (bytes_of logicalKey))
                in if maxS3ObjectKeyBytes < length objectKey
                   then Inl (invalidOption ''DeploymentPrefix''
                          ''and logical key exceed the S3 object-key limit'')
                   else Inr objectKey)))"

text \<open>The second result \<open>false\<close> of the source is \<open>None\<close>.\<close>

definition legacyManifestObjectKey :: "string \<Rightarrow> string \<Rightarrow> string option" where
  "legacyManifestObjectKey deploymentPrefix logicalKey =
     (let encoded = b64_encode (bytes_of logicalKey)
      in if length encoded \<le> maxObjectKeySegmentBytes then None
         else Some (manifestDigestRoot deploymentPrefix logicalKey @ encoded))"

definition logicalKeyFromManifestObject ::
    "name_validator \<Rightarrow> string \<Rightarrow> string \<Rightarrow> string option" where
  "logicalKeyFromManifestObject vn deploymentPrefix objectKey =
     (let root = namespaceRoot deploymentPrefix manifestNamespace
      in if \<not> has_prefix objectKey root then None
      else
        (let parts = split_on slash (trim_prefix objectKey root)
         in if length parts < 2 \<or> length (hd parts) \<noteq> 64 then None
         else
           (let encodedParts = tl parts; encoded = join [] encodedParts
            in if 1 < length encodedParts \<and> segmentEncoding encoded \<noteq> join ''/'' encodedParts
               then None
               else case hex_decode (hd parts) of
                 None \<Rightarrow> None
               | Some digest \<Rightarrow>
                   if length digest \<noteq> 32 then None
                   else case b64_decode encoded of
                     None \<Rightarrow> None
                   | Some decoded \<Rightarrow>
                       if b64_encode decoded \<noteq> encoded then None
                       else if vn (string_of decoded) \<noteq> None then None
                       else if \<not> equalDigest digest (sum256 decoded) then None
                       else Some (string_of decoded))))"

section \<open>Payload object keys\<close>

definition payloadRoot :: "string \<Rightarrow> string \<Rightarrow> string" where
  "payloadRoot deploymentPrefix logicalKey =
     namespaceRoot deploymentPrefix payloadNamespace
       @ hex_encode (sum256 (bytes_of logicalKey)) @ ''/''"

text \<open>\<open>attempt\<close> is what \<open>rand.Read\<close> put in the 16-byte array, or its failure.\<close>

definition newPayloadObjectKey ::
    "name_validator \<Rightarrow> bytes option \<Rightarrow> string \<Rightarrow> string \<Rightarrow> string result" where
  "newPayloadObjectKey vn attempt deploymentPrefix logicalKey =
     (case vn deploymentPrefix of
        Some e \<Rightarrow> Inl e
      | None \<Rightarrow>
          (case vn logicalKey of
             Some e \<Rightarrow> Inl e
           | None \<Rightarrow>
               (case attempt of
                  None \<Rightarrow> Inl (BackendError ''payload identity'')
                | Some rnd \<Rightarrow>
                    (let key = payloadRoot deploymentPrefix logicalKey @ hex_encode rnd
                     in if maxS3ObjectKeyBytes < length key
                        then Inl (invalidOption ''DeploymentPrefix''
                               ''exceeds the S3 object-key limit'')
                        else Inr key))))"

definition payloadObjectKeyMatches :: "string \<Rightarrow> string \<Rightarrow> string \<Rightarrow> bool" where
  "payloadObjectKeyMatches deploymentPrefix logicalKey payloadKey \<longleftrightarrow>
     (let wantPrefix = payloadRoot deploymentPrefix logicalKey
      in has_prefix payloadKey wantPrefix \<and> length payloadKey = length wantPrefix + 32
         \<and> hex_decode (trim_prefix payloadKey wantPrefix) \<noteq> None)"

section \<open>Segments\<close>

text \<open>The segments \<open>segmentEncoding\<close> writes, as a list.\<close>

function chunks :: "string \<Rightarrow> string list" where
  "chunks e =
     (if maxObjectKeySegmentBytes < length e
      then take maxObjectKeySegmentBytes e # chunks (drop maxObjectKeySegmentBytes e)
      else [e])"
  by auto
termination by (relation "measure length") (auto simp: limits)

declare chunks.simps [simp del]

lemma chunks_long:
  "maxObjectKeySegmentBytes < length e \<Longrightarrow>
   chunks e = take maxObjectKeySegmentBytes e # chunks (drop maxObjectKeySegmentBytes e)"
  by (subst chunks.simps) simp

lemma chunks_short: "length e \<le> maxObjectKeySegmentBytes \<Longrightarrow> chunks e = [e]"
  by (subst chunks.simps) simp

lemma chunks_nonempty [simp]: "chunks e \<noteq> []"
  by (subst chunks.simps) simp

lemma chunks_induct [case_names long short]:
  assumes "\<And>e. maxObjectKeySegmentBytes < length e \<Longrightarrow> P (drop maxObjectKeySegmentBytes e) \<Longrightarrow> P e"
    and "\<And>e. length e \<le> maxObjectKeySegmentBytes \<Longrightarrow> P e"
  shows "P (e :: string)"
  using assms by (induction e rule: chunks.induct) (meson not_le)

lemma concat_chunks [simp]: "concat (chunks e) = e"
  by (induction e rule: chunks_induct) (simp_all add: chunks_long chunks_short)

lemma segmentEncoding_chunks: "segmentEncoding e = join ''/'' (chunks e)"
proof (induction e rule: chunks_induct)
  case (long e)
  then show ?case by (subst segmentEncoding.simps) (simp add: chunks_long join_Cons)
qed (subst segmentEncoding.simps, simp add: chunks_short)

lemma segmentEncoding_short:
  "length e \<le> maxObjectKeySegmentBytes \<Longrightarrow> segmentEncoding e = e"
  by (simp add: segmentEncoding_chunks chunks_short)

lemma chunk_full: "p \<in> set (butlast (chunks e)) \<Longrightarrow> length p = maxObjectKeySegmentBytes"
  by (induction e rule: chunks_induct) (auto simp: chunks_long chunks_short split: if_splits)

lemma chunk_bound: "p \<in> set (chunks e) \<Longrightarrow> length p \<le> maxObjectKeySegmentBytes"
  by (induction e rule: chunks_induct) (auto simp: chunks_long chunks_short)

lemma chunk_chars: "p \<in> set (chunks e) \<Longrightarrow> set p \<subseteq> set e"
  using concat_chunks [of e] by (metis UN_upper set_concat)

lemma split_segmentEncoding: "slash \<notin> set e \<Longrightarrow> split_on slash (segmentEncoding e) = chunks e"
  unfolding segmentEncoding_chunks by (rule split_on_join) (use chunk_chars in auto)

lemma length_chunks: "length (chunks e) \<le> Suc (length e div maxObjectKeySegmentBytes)"
proof (induction e rule: chunks_induct)
  case (long e)
  then have "length (drop maxObjectKeySegmentBytes e) = length e - maxObjectKeySegmentBytes" by simp
  moreover have "length e div maxObjectKeySegmentBytes =
    Suc ((length e - maxObjectKeySegmentBytes) div maxObjectKeySegmentBytes)"
    using long.hyps by (subst div_if) (auto simp: limits)
  ultimately show ?case using long by (simp add: chunks_long)
qed (simp add: chunks_short)

lemma length_segmentEncoding:
  "length (segmentEncoding e) \<le> length e + length e div maxObjectKeySegmentBytes"
  using length_join_sep [of "chunks e" slash] length_chunks [of e]
  by (simp add: segmentEncoding_chunks)

section \<open>The segments of an object key\<close>

lemma split_on_append: "split_on c (a @ c # b) = split_on c a @ split_on c b"
  by (induction a) (auto split: list.split)

lemma hex_sum_facts [simp]:
  "length (hex_encode (sum256 m)) = 64" "hex_encode (sum256 m) \<noteq> []"
  by (simp_all, metis length_hex_encode length_sum256 list.size(3) mult_is_0 zero_neq_numeral)

lemma manifest_key_parts:
  "split_on slash (manifestDigestRoot p k @ e) =
     split_on slash p @ [''blobs'', ''v1'', hex_encode (sum256 (bytes_of k))] @ split_on slash e"
proof -
  have "manifestDigestRoot p k @ e =
    p @ slash # ''blobs'' @ slash # ''v1'' @ slash # hex_encode (sum256 (bytes_of k)) @ slash # e"
    by (simp add: manifestDigestRoot_def namespaceRoot_def manifestNamespace_def)
  then show ?thesis by (simp add: split_on_append split_on_append_sep split_on_single)
qed

lemma payload_key_parts:
  "split_on slash (payloadRoot p k @ e) =
     split_on slash p @ [''payloads'', ''v1'', hex_encode (sum256 (bytes_of k))] @ split_on slash e"
proof -
  have "payloadRoot p k @ e =
    p @ slash # ''payloads'' @ slash # ''v1'' @ slash # hex_encode (sum256 (bytes_of k)) @ slash # e"
    by (simp add: payloadRoot_def namespaceRoot_def payloadNamespace_def)
  then show ?thesis by (simp add: split_on_append split_on_append_sep split_on_single)
qed

text \<open>
  Read from its right end, an object key has one parse: the digest is the last segment of 64
  bytes that has only full segments and the final one after it.
\<close>

definition encoded_tail :: "string list \<Rightarrow> bool" where
  "encoded_tail segs \<longleftrightarrow> segs \<noteq> [] \<and> (\<forall>p \<in> set (butlast segs). length p = maxObjectKeySegmentBytes)"

lemma encoded_tail_chunks [simp]: "encoded_tail (chunks e)"
  by (simp add: encoded_tail_def chunk_full)

lemma encoded_tail_single [simp]: "encoded_tail [e]"
  by (simp add: encoded_tail_def)

lemma tail_no_digest:
  "encoded_tail (us @ h # segs) \<Longrightarrow> segs \<noteq> [] \<Longrightarrow> length h = 64 \<Longrightarrow> False"
  by (auto simp: encoded_tail_def butlast_append limits)

lemma tail_unique:
  assumes "xs @ h # segs = ys @ h' # segs'"
    and "encoded_tail segs" "encoded_tail segs'" "length h = 64" "length h' = 64"
  shows "xs = ys \<and> h = h' \<and> segs = segs'"
proof -
  have ne: "segs \<noteq> []" "segs' \<noteq> []" using assms by (simp_all add: encoded_tail_def)
  from assms(1) obtain us where us: "xs = ys @ us \<and> us @ h # segs = h' # segs'
      \<or> xs @ us = ys \<and> h # segs = us @ h' # segs'"
    by (auto simp: append_eq_append_conv2)
  show ?thesis
  proof (cases us)
    case (Cons u us')
    with us assms ne show ?thesis by (auto dest: tail_no_digest)
  qed (use us in auto)
qed

lemma split_on_inject: "split_on c a = split_on c b \<Longrightarrow> a = b"
  by (metis join_split_on)

section \<open>Round trips\<close>

lemma manifestObjectKey_Inr [inr_iff]:
  "manifestObjectKey vn p k = Inr obj \<longleftrightarrow>
     vn p = None \<and> vn k = None \<and> length obj \<le> maxS3ObjectKeyBytes
     \<and> obj = manifestDigestRoot p k @ segmentEncoding (b64_encode (bytes_of k))"
  by (auto simp: manifestObjectKey_def Let_def split: option.splits if_splits)

text \<open>The decoder on a key with well-formed parts.\<close>

lemma decode_parts:
  assumes "length h = 64" "slash \<notin> set h" "segs \<noteq> []" "\<And>s. s \<in> set segs \<Longrightarrow> slash \<notin> set s"
  shows "logicalKeyFromManifestObject vn p (namespaceRoot p manifestNamespace @ h @ slash # join ''/'' segs) =
    (if 1 < length segs \<and> segmentEncoding (concat segs) \<noteq> join ''/'' segs then None
     else case (hex_decode h, b64_decode (concat segs)) of
       (Some d, Some m) \<Rightarrow>
         if b64_encode m = concat segs \<and> vn (string_of m) = None \<and> d = sum256 m
         then Some (string_of m) else None
     | _ \<Rightarrow> None)"
  using assms hex_decode_length [of h]
  by (auto simp: logicalKeyFromManifestObject_def Let_def split_on_append_sep split_on_join
      join_empty_sep Suc_le_eq split: option.splits)

lemma decode_root:
  assumes "logicalKeyFromManifestObject vn p obj = Some k"
  obtains h segs where
    "obj = namespaceRoot p manifestNamespace @ h @ slash # join ''/'' segs"
    "length h = 64" "slash \<notin> set h" "segs \<noteq> []" "\<forall>s \<in> set segs. slash \<notin> set s"
proof -
  let ?root = "namespaceRoot p manifestNamespace"
  from assms obtain rest where obj: "obj = ?root @ rest"
    by (auto simp: logicalKeyFromManifestObject_def Let_def has_prefix_iff split: if_splits)
  obtain h segs where sp: "split_on slash rest = h # segs"
    by (cases "split_on slash rest") auto
  with assms obj have "length h = 64" "segs \<noteq> []"
    by (auto simp: logicalKeyFromManifestObject_def Let_def split: if_splits)
  moreover from sp have "\<And>s. s \<in> set (h # segs) \<Longrightarrow> slash \<notin> set s"
    using split_on_no_sep [of _ slash rest] by metis
  moreover have "rest = h @ slash # join ''/'' segs"
    using join_split_on [of slash rest] sp \<open>segs \<noteq> []\<close> by (simp add: join_Cons)
  ultimately show ?thesis using obj that by (metis list.set_intros)
qed

lemma decode_digest_root:
  assumes "vn k = None" "segs \<noteq> []" "concat segs = b64_encode (bytes_of k)"
    and "length segs = 1 \<or> segs = chunks (b64_encode (bytes_of k))"
  shows "logicalKeyFromManifestObject vn p (manifestDigestRoot p k @ join ''/'' segs) = Some k"
proof -
  have "slash \<notin> set s" if "s \<in> set segs" for s
    using that assms(3) by (metis UN_I set_concat slash_not_in_b64)
  then show ?thesis
    using decode_parts [of "hex_encode (sum256 (bytes_of k))" segs vn p] assms
    by (auto simp: manifestDigestRoot_def segmentEncoding_chunks)
qed

section \<open>Hexadecimal in either case\<close>

lemma hex_val_lower: "hex_val (lower_hex c) = hex_val c"
  by (auto simp: hex_val_def lower_hex_def Let_def)

lemma hex_decode_lower: "hex_decode (map lower_hex h) = hex_decode h"
  by (induction h rule: hex_decode.induct) (simp_all add: hex_val_lower)

lemma hex_decode_iff: "hex_decode h = Some d \<longleftrightarrow> map lower_hex h = hex_encode d"
  by (metis hex_decode_encode hex_decode_lower hex_encode_decode)

lemma lower_hex_slash: "map lower_hex h = hex_encode d \<Longrightarrow> slash \<notin> set h"
proof
  assume h: "map lower_hex h = hex_encode d" "slash \<in> set h"
  have "lower_hex slash \<in> set (map lower_hex h)" using h(2) by (metis imageI list.set_map)
  moreover have "lower_hex slash = slash" by (simp add: lower_hex_def Let_def)
  ultimately show False using h(1) slash_not_in_hex [of d] by metis
qed

lemma key_example: "\<exists>obj. manifestObjectKey grammar_validator ''dep'' ''a/b'' = Inr obj"
proof -
  have "grammar_validator ''dep'' = None" "grammar_validator ''a/b'' = None" by code_simp+
  moreover have "length (b64_encode (bytes_of ''a/b'')) = 4" by (simp add: length_b64_encode)
  ultimately show ?thesis
    by (simp add: manifestObjectKey_def Let_def limits manifestDigestRoot_def
        namespaceRoot_def manifestNamespace_def segmentEncoding_short)
qed

section \<open>Properties\<close>

text \<open>
  C36. Listing inverts writing: the object key \<open>manifestObjectKey\<close> writes for a logical key,
  and the single-segment key v0.1.1 wrote for it, both decode to that logical key.
\<close>

theorem manifest_key_roundtrip:
  assumes "manifestObjectKey vn p k = Inr obj"
  shows "logicalKeyFromManifestObject vn p obj = Some k
    \<and> (\<forall>legacy. legacyManifestObjectKey p k = Some legacy \<longrightarrow>
          logicalKeyFromManifestObject vn p legacy = Some k)"
proof -
  let ?e = "b64_encode (bytes_of k)"
  from assms have vn: "vn k = None"
    and obj: "obj = manifestDigestRoot p k @ join ''/'' (chunks ?e)"
    by (simp_all add: inr_iff segmentEncoding_chunks)
  have "legacyManifestObjectKey p k = Some legacy \<Longrightarrow>
      legacy = manifestDigestRoot p k @ join ''/'' [?e]" for legacy
    by (auto simp: legacyManifestObjectKey_def Let_def split: if_splits)
  with vn decode_digest_root [of vn k "[?e]" p] decode_digest_root [of vn k "chunks ?e" p] obj
  show ?thesis by auto
qed

lemma manifest_key_roundtrip_witness:
  "\<exists>obj. manifestObjectKey grammar_validator ''dep'' ''a/b'' = Inr obj
     \<and> logicalKeyFromManifestObject grammar_validator ''dep'' obj = Some ''a/b''"
  using manifest_key_roundtrip key_example by blast

text \<open>The rows that decode, as an object-key shape.\<close>

lemma decoded_row_shape:
  "logicalKeyFromManifestObject vn p obj = Some k \<longleftrightarrow>
     vn k = None \<and> (\<exists>h tail. obj = namespaceRoot p manifestNamespace @ h @ ''/'' @ tail
       \<and> map lower_hex h = hex_encode (sum256 (bytes_of k))
       \<and> (tail = segmentEncoding (b64_encode (bytes_of k)) \<or> tail = b64_encode (bytes_of k)))"
proof
  assume dec: "logicalKeyFromManifestObject vn p obj = Some k"
  then obtain h segs where obj: "obj = namespaceRoot p manifestNamespace @ h @ slash # join ''/'' segs"
    and wf: "length h = 64" "slash \<notin> set h" "segs \<noteq> []" "\<forall>s \<in> set segs. slash \<notin> set s"
    by (rule decode_root)
  from dec decode_parts [OF wf(1-3), of vn p] wf(4) obj
  have k: "hex_decode h = Some (sum256 (bytes_of k))" "b64_encode (bytes_of k) = concat segs"
    "vn k = None" "length segs \<le> 1 \<or> segmentEncoding (concat segs) = join ''/'' segs"
    by (auto split: if_splits option.splits)
  have "length segs \<le> 1 \<Longrightarrow> join ''/'' segs = concat segs"
    using wf(3) by (cases segs) auto
  with k(2,4) have "join ''/'' segs = segmentEncoding (b64_encode (bytes_of k))
      \<or> join ''/'' segs = b64_encode (bytes_of k)" by metis
  with k(1,3) obj show "vn k = None \<and> (\<exists>h tail. obj = namespaceRoot p manifestNamespace @ h @ ''/'' @ tail
       \<and> map lower_hex h = hex_encode (sum256 (bytes_of k))
       \<and> (tail = segmentEncoding (b64_encode (bytes_of k)) \<or> tail = b64_encode (bytes_of k)))"
    unfolding hex_decode_iff by (intro conjI exI [of _ h] exI [of _ "join ''/'' segs"]) simp_all
next
  assume "vn k = None \<and> (\<exists>h tail. obj = namespaceRoot p manifestNamespace @ h @ ''/'' @ tail
       \<and> map lower_hex h = hex_encode (sum256 (bytes_of k))
       \<and> (tail = segmentEncoding (b64_encode (bytes_of k)) \<or> tail = b64_encode (bytes_of k)))"
  then obtain h tail where vn: "vn k = None"
    and obj: "obj = namespaceRoot p manifestNamespace @ h @ ''/'' @ tail"
    and h: "map lower_hex h = hex_encode (sum256 (bytes_of k))"
    and t: "tail = segmentEncoding (b64_encode (bytes_of k)) \<or> tail = b64_encode (bytes_of k)"
    by blast
  have "length h = 64" using arg_cong [OF h, of length] by simp
  moreover have "slash \<notin> set h" using h by (rule lower_hex_slash)
  moreover obtain segs where segs: "tail = join ''/'' segs" "segs \<noteq> []"
    "concat segs = b64_encode (bytes_of k)"
    "length segs \<le> 1 \<or> segmentEncoding (concat segs) = join ''/'' segs"
    using t that [of "chunks (b64_encode (bytes_of k))"] that [of "[b64_encode (bytes_of k)]"]
    by (auto simp: segmentEncoding_chunks)
  moreover have "slash \<notin> set s" if "s \<in> set segs" for s
    using that segs(3) by (metis UN_I set_concat slash_not_in_b64)
  moreover have "hex_decode h = Some (sum256 (bytes_of k))"
    "b64_decode (concat segs) = Some (bytes_of k)"
    using h segs(3) by (simp_all add: hex_decode_iff)
  ultimately show "logicalKeyFromManifestObject vn p obj = Some k"
    using decode_parts [of h segs vn p] obj vn by auto
qed

text \<open>
  C35. Exactly which listed rows decode, and to what: those under the deployment's manifest
  root whose digest segment is the SHA-256 of the key in hexadecimal of either case, followed
  by the canonical segmentation of the key's encoding or by that encoding unsplit.
\<close>

theorem manifest_rows_decoded:
  "logicalKeyFromManifestObject vn p obj = Some k \<longleftrightarrow>
     vn k = None \<and> (\<exists>h tail. obj = namespaceRoot p manifestNamespace @ h @ ''/'' @ tail
       \<and> map lower_hex h = hex_encode (sum256 (bytes_of k))
       \<and> (tail = segmentEncoding (b64_encode (bytes_of k)) \<or> tail = b64_encode (bytes_of k)))"
  by (rule decoded_row_shape)

text \<open>
  C14. Deployments that share a bucket never meet: a row that decodes under one deployment
  prefix was not written by another, nor for another key, whatever the two prefixes are (one may
  be a prefix of the other, or contain the namespaces of the layout).
\<close>

theorem manifest_keys_isolated:
  assumes "logicalKeyFromManifestObject vn p obj = Some k"
    and "manifestObjectKey vn' q k' = Inr obj"
  shows "p = q \<and> k = k'"
proof -
  from assms(2) have obj: "split_on slash obj = split_on slash q
      @ [''blobs'', ''v1'', hex_encode (sum256 (bytes_of k'))] @ chunks (b64_encode (bytes_of k'))"
    by (simp add: inr_iff manifest_key_parts split_segmentEncoding)
  from assms(1) obtain h tail where o: "obj = namespaceRoot p manifestNamespace @ h @ ''/'' @ tail"
    and h: "map lower_hex h = hex_encode (sum256 (bytes_of k))"
    and t: "tail = segmentEncoding (b64_encode (bytes_of k)) \<or> tail = b64_encode (bytes_of k)"
    unfolding decoded_row_shape by blast
  define segs where "segs = split_on slash tail"
  have tail: "encoded_tail segs" "concat segs = b64_encode (bytes_of k)"
    using t by (auto simp: segs_def split_segmentEncoding split_on_single)
  have "obj = p @ slash # ''blobs'' @ slash # ''v1'' @ slash # h @ slash # tail"
    by (simp add: o namespaceRoot_def manifestNamespace_def)
  then have "split_on slash obj = (split_on slash p @ [''blobs'', ''v1'']) @ h # segs"
    using lower_hex_slash [OF h]
    by (simp add: split_on_append split_on_append_sep split_on_single segs_def)
  with obj have "(split_on slash p @ [''blobs'', ''v1'']) @ h # segs =
    (split_on slash q @ [''blobs'', ''v1'']) @ hex_encode (sum256 (bytes_of k'))
      # chunks (b64_encode (bytes_of k'))" by simp
  from tail_unique [OF this tail(1)] arg_cong [OF h, of length]
  have "split_on slash p = split_on slash q" "segs = chunks (b64_encode (bytes_of k'))" by simp_all
  with tail(2) show ?thesis by (auto dest: split_on_inject)
qed

lemma manifest_keys_isolated_witness:
  "\<exists>obj. manifestObjectKey grammar_validator ''dep'' ''a/b'' = Inr obj
     \<and> logicalKeyFromManifestObject grammar_validator ''other'' obj = None"
proof -
  obtain obj where obj: "manifestObjectKey grammar_validator ''dep'' ''a/b'' = Inr obj"
    using key_example by blast
  have "logicalKeyFromManifestObject grammar_validator ''other'' obj \<noteq> Some k" for k
    using manifest_keys_isolated [OF _ obj(1), of grammar_validator "''other''" k] by auto
  with obj show ?thesis by (auto simp: option.expand)
qed

lemma payload_key_shape:
  "payloadObjectKeyMatches p k obj \<longleftrightarrow>
     (\<exists>h d. obj = payloadRoot p k @ h \<and> length d = 16 \<and> map lower_hex h = hex_encode d)"
proof -
  have len: "length d = 16 \<longleftrightarrow> length h = 32" if "map lower_hex h = hex_encode d" for h d
    using arg_cong [OF that, of length] by auto
  show ?thesis
    by (auto simp: payloadObjectKeyMatches_def Let_def has_prefix_iff hex_decode_iff len)
qed

lemma newPayloadObjectKey_Inr [inr_iff]:
  "newPayloadObjectKey vn attempt p k = Inr key \<longleftrightarrow>
     vn p = None \<and> vn k = None \<and> length key \<le> maxS3ObjectKeyBytes
     \<and> (\<exists>rnd. attempt = Some rnd \<and> key = payloadRoot p k @ hex_encode rnd)"
  by (auto simp: newPayloadObjectKey_def Let_def split: option.splits if_splits)

lemma own_payload_key_matches:
  assumes "newPayloadObjectKey vn (Some rnd) p k = Inr key" "length rnd = 16"
  shows "payloadObjectKeyMatches p k key"
  using assms hex_decode_iff [of "hex_encode rnd" rnd] by (auto simp: inr_iff payload_key_shape)

text \<open>
  C37. Payload keys: the key \<open>newPayloadObjectKey\<close> makes from 16 random bytes passes
  \<open>payloadObjectKeyMatches\<close> for its deployment and key, and no key passes that check for two
  different deployments or for the directories of two digests, nor is it ever the manifest
  object key of anything.
\<close>

theorem payload_keys_separate:
  "(newPayloadObjectKey vn (Some rnd) p k = Inr key \<and> length rnd = 16 \<longrightarrow>
      payloadObjectKeyMatches p k key)
   \<and> (payloadObjectKeyMatches p k key \<and> payloadObjectKeyMatches q k' key \<longrightarrow>
      p = q \<and> sum256 (bytes_of k) = sum256 (bytes_of k'))
   \<and> (payloadObjectKeyMatches p k key \<longrightarrow> manifestObjectKey vn q k' \<noteq> Inr key)"
proof (intro conjI impI)
  show "payloadObjectKeyMatches p k key"
    if "newPayloadObjectKey vn (Some rnd) p k = Inr key \<and> length rnd = 16"
    using that by (blast intro: own_payload_key_matches)
next
  assume "payloadObjectKeyMatches p k key \<and> payloadObjectKeyMatches q k' key"
  then obtain h h' d d' where key: "key = payloadRoot p k @ h" "key = payloadRoot q k' @ h'"
    and d: "map lower_hex h = hex_encode d" "map lower_hex h' = hex_encode d'"
    unfolding payload_key_shape by blast
  have "split_on slash h = [h]" "split_on slash h' = [h']"
    using d by (auto intro: split_on_single dest: lower_hex_slash)
  then have "split_on slash p @ [''payloads'', ''v1'', hex_encode (sum256 (bytes_of k)), h] =
    split_on slash q @ [''payloads'', ''v1'', hex_encode (sum256 (bytes_of k')), h']"
    using payload_key_parts [of p k h] payload_key_parts [of q k' h'] key by simp
  then show "p = q" "sum256 (bytes_of k) = sum256 (bytes_of k')"
    by (auto dest: split_on_inject)
next
  assume match: "payloadObjectKeyMatches p k key"
  show "manifestObjectKey vn q k' \<noteq> Inr key"
  proof
    assume man: "manifestObjectKey vn q k' = Inr key"
    from match obtain h d where key: "key = payloadRoot p k @ h"
      and d: "map lower_hex h = hex_encode d" by (auto simp: payload_key_shape)
    have "split_on slash h = [h]" using d by (auto intro: split_on_single dest: lower_hex_slash)
    then have "split_on slash key = (split_on slash p @ [''payloads'', ''v1''])
        @ hex_encode (sum256 (bytes_of k)) # [h]"
      using payload_key_parts [of p k h] key by simp
    moreover have "split_on slash key = (split_on slash q @ [''blobs'', ''v1''])
        @ hex_encode (sum256 (bytes_of k')) # chunks (b64_encode (bytes_of k'))"
      using man by (simp add: inr_iff manifest_key_parts split_segmentEncoding)
    ultimately have "split_on slash p @ [''payloads'', ''v1''] = split_on slash q @ [''blobs'', ''v1'']"
      using tail_unique [of "split_on slash p @ [''payloads'', ''v1'']" _ "[h]"
          "split_on slash q @ [''blobs'', ''v1'']" _ "chunks (b64_encode (bytes_of k'))"]
      by (metis encoded_tail_chunks encoded_tail_single hex_sum_facts(1))
    then show False by simp
  qed
qed

lemma payload_keys_separate_witness:
  "payloadObjectKeyMatches ''dep'' ''a'' (payloadRoot ''dep'' ''a'' @ hex_encode (replicate 16 7))"
proof -
  have v: "grammar_validator ''dep'' = None" "grammar_validator ''a'' = None" by code_simp+
  have "newPayloadObjectKey grammar_validator (Some (replicate 16 7)) ''dep'' ''a''
    = Inr (payloadRoot ''dep'' ''a'' @ hex_encode (replicate 16 7))"
    using v by (simp add: newPayloadObjectKey_def Let_def limits payloadRoot_def namespaceRoot_def
        payloadNamespace_def)
  then show ?thesis
    using payload_keys_separate [of grammar_validator "replicate 16 7" "''dep''" "''a''"
        "payloadRoot ''dep'' ''a'' @ hex_encode (replicate 16 7)" "''dep''" "''a''"] by simp
qed

section \<open>Bounds\<close>

lemma canonical_length: "canonical_names vn \<Longrightarrow> vn k = None \<Longrightarrow> length k \<le> 512"
  by (auto simp: canonical_names_def canonical_name_def)

lemma length_manifestDigestRoot [simp]: "length (manifestDigestRoot p k) = length p + 75"
  by (simp add: manifestDigestRoot_def namespaceRoot_def manifestNamespace_def)

lemma length_payloadRoot [simp]: "length (payloadRoot p k) = length p + 78"
  by (simp add: payloadRoot_def namespaceRoot_def payloadNamespace_def)

lemma manifest_key_length:
  assumes "length p \<le> 256" "length k \<le> 512"
  shows "length (manifestDigestRoot p k @ segmentEncoding (b64_encode (bytes_of k))) \<le> 1016"
proof -
  let ?e = "b64_encode (bytes_of k)"
  have "(4 * length k + 2) div 3 \<le> (4 * 512 + 2) div 3"
    using assms(2) by (intro div_le_mono) simp
  then have e: "length ?e \<le> 683" by (simp add: length_b64_encode)
  then have "length ?e div maxObjectKeySegmentBytes \<le> 683 div maxObjectKeySegmentBytes"
    by (rule div_le_mono)
  with e assms(1) length_segmentEncoding [of ?e] show ?thesis by (simp add: limits)
qed

text \<open>
  C38. No accepted pair of names overflows an object key: with the deployment prefix the options
  allow (256 bytes) and any canonical logical key, both key functions succeed, within S3's 1024
  bytes, and every segment after the deployment prefix is at most 255 bytes.
\<close>

theorem object_keys_fit:
  assumes "canonical_names vn" "vn p = None" "vn k = None" "length p \<le> 256" "length rnd = 16"
  shows "\<exists>obj key. manifestObjectKey vn p k = Inr obj \<and> length obj \<le> 1016
    \<and> newPayloadObjectKey vn (Some rnd) p k = Inr key \<and> length key \<le> 366
    \<and> (\<forall>seg \<in> set (split_on slash obj) \<union> set (split_on slash key).
          seg \<in> set (split_on slash p) \<or> length seg \<le> maxObjectKeySegmentBytes)"
proof -
  let ?obj = "manifestDigestRoot p k @ segmentEncoding (b64_encode (bytes_of k))"
  let ?key = "payloadRoot p k @ hex_encode rnd"
  have "length ?obj \<le> 1016"
    using assms(4) canonical_length [OF assms(1,3)] by (rule manifest_key_length)
  moreover from this have "manifestObjectKey vn p k = Inr ?obj"
    using assms(2,3) by (simp add: inr_iff limits)
  moreover have "newPayloadObjectKey vn (Some rnd) p k = Inr ?key" "length ?key \<le> 366"
    using assms(2-5) by (simp_all add: inr_iff limits)
  moreover have "seg \<in> set (split_on slash p) \<or> length seg \<le> maxObjectKeySegmentBytes"
    if "seg \<in> set (split_on slash ?obj) \<union> set (split_on slash ?key)" for seg
    using that assms(5) chunk_bound [of seg "b64_encode (bytes_of k)"]
    by (auto simp: manifest_key_parts payload_key_parts split_segmentEncoding split_on_single
        limits)
  ultimately show ?thesis by blast
qed

lemma object_keys_fit_witness:
  "\<exists>obj key. manifestObjectKey grammar_validator ''dep'' ''a'' = Inr obj \<and> length obj \<le> 1016
    \<and> newPayloadObjectKey grammar_validator (Some (replicate 16 0)) ''dep'' ''a'' = Inr key"
  using object_keys_fit [of grammar_validator "''dep''" "''a''" "replicate 16 0"]
  by (auto simp: grammar_validator_def canonical_name_def name_chars_def)

text \<open>
  C39. The segment bound does not cover the deployment prefix itself: a prefix that is one
  segment of 256 bytes, which the options accept, stands in every object key as a segment
  above the limit the constant names.
\<close>

theorem prefix_segment_exceeds_limit:
  assumes "slash \<notin> set p" "length p = 256" "manifestObjectKey vn p k = Inr obj"
  shows "\<exists>seg \<in> set (split_on slash obj). maxObjectKeySegmentBytes < length seg"
  using assms by (auto simp: inr_iff manifest_key_parts split_on_single limits)

lemma prefix_segment_exceeds_limit_witness:
  "\<exists>obj. manifestObjectKey grammar_validator (replicate 256 CHR ''a'') ''k'' = Inr obj
     \<and> (\<exists>seg \<in> set (split_on slash obj). 255 < length seg)"
proof -
  let ?p = "replicate 256 CHR ''a''"
  have p: "slash \<notin> set ?p" "length ?p = 256" by simp_all
  have "canonical_name ?p"
    unfolding canonical_name_def split_on_single [OF p(1)]
    by (auto simp: list_all_iff name_chars_def dest: arg_cong [where f = length])
  then have "grammar_validator ?p = None" "grammar_validator ''k'' = None"
    by (simp_all add: grammar_validator_def canonical_name_def name_chars_def)
  moreover have "length (manifestDigestRoot ?p ''k'' @ segmentEncoding (b64_encode (bytes_of ''k'')))
      \<le> 1016"
    by (rule manifest_key_length) simp_all
  ultimately obtain obj where obj: "manifestObjectKey grammar_validator ?p ''k'' = Inr obj"
    by (simp add: inr_iff limits)
  from prefix_segment_exceeds_limit [OF p obj] obj show ?thesis by (auto simp: limits)
qed

text \<open>An encoding longer than one segment is split.\<close>

lemma segmentEncoding_long:
  assumes "255 < length (b64_encode bs)"
  shows "segmentEncoding (b64_encode bs) \<noteq> b64_encode bs"
proof -
  let ?e = "b64_encode bs"
  have "chunks ?e \<noteq> [?e]" using assms chunk_bound [of ?e ?e] by (auto simp: limits)
  then show ?thesis using split_segmentEncoding [of ?e] by (auto simp: split_on_single)
qed

lemma legacy_key_differs:
  "legacyManifestObjectKey p k = Some legacy \<Longrightarrow> manifestObjectKey vn p k = Inr mk \<Longrightarrow> legacy \<noteq> mk"
  using segmentEncoding_long [of "bytes_of k"]
  by (auto simp: legacyManifestObjectKey_def manifestObjectKey_Inr Let_def limits split: if_splits)

text \<open>
  The legacy layout: for a canonical key of at most 191 bytes the object key is the one
  v0.1.1 wrote (the encoding as one segment) and there is no legacy key; for a longer one the
  legacy key exists and differs.
\<close>

lemma legacy_layout:
  "(length k \<le> 191 \<longrightarrow> legacyManifestObjectKey p k = None
      \<and> segmentEncoding (b64_encode (bytes_of k)) = b64_encode (bytes_of k))
   \<and> (191 < length k \<longrightarrow> legacyManifestObjectKey p k =
        Some (manifestDigestRoot p k @ b64_encode (bytes_of k))
      \<and> manifestObjectKey vn p k \<noteq> Inr (manifestDigestRoot p k @ b64_encode (bytes_of k)))"
proof (intro conjI impI)
  let ?e = "b64_encode (bytes_of k)"
  assume "length k \<le> 191"
  then have "(4 * length k + 2) div 3 \<le> (4 * 191 + 2) div 3" by (intro div_le_mono) simp
  then have "length ?e \<le> 255" by (simp add: length_b64_encode)
  then show "legacyManifestObjectKey p k = None" "segmentEncoding ?e = ?e"
    by (simp_all add: legacyManifestObjectKey_def Let_def limits segmentEncoding_short)
next
  let ?e = "b64_encode (bytes_of k)"
  assume "191 < length k"
  then have "(4 * 192 + 2) div 3 \<le> (4 * length k + 2) div 3" by (intro div_le_mono) simp
  then have e: "255 < length ?e" by (simp add: length_b64_encode)
  then show "legacyManifestObjectKey p k = Some (manifestDigestRoot p k @ ?e)"
    by (simp add: legacyManifestObjectKey_def Let_def limits)
  from segmentEncoding_long [OF e] show "manifestObjectKey vn p k \<noteq> Inr (manifestDigestRoot p k @ ?e)"
    by (simp add: inr_iff)
qed

end
