(* ===== verification/Manifest.thy ===== *)
theory Manifest
  imports Keys GoIO
begin

text \<open>
  manifest.go: the binary manifest that publishes a blob. A manifest is written once, as one
  object of at most 1024 bytes, and read back through a reader that may deliver it in any pieces,
  fail, or deliver something else.
\<close>

section \<open>Constants and the record\<close>

definition manifestMagic :: string where
  "manifestMagic = ''LRBLOB01''"

definition manifestHeaderBytes :: nat where
  [limits]: "manifestHeaderBytes = 52"

definition maxManifestBytes :: nat where
  [limits]: "maxManifestBytes = 1024"

text \<open>\<open>Digest\<close> is a \<open>[32]byte\<close>: \<open>digest_ok\<close> is what that type guarantees.\<close>

record blob_manifest =
  LogicalKey :: string
  PayloadKey :: string
  Size :: int
  Digest :: bytes

definition digest_ok :: "blob_manifest \<Rightarrow> bool" where
  "digest_ok m \<longleftrightarrow> length (Digest m) = 32"

section \<open>validInternalObjectKey\<close>

definition internal_key_char :: "char \<Rightarrow> bool" where
  "internal_key_char c \<longleftrightarrow>
     (let n = of_char c :: nat
      in (97 \<le> n \<and> n \<le> 122) \<or> (48 \<le> n \<and> n \<le> 57) \<or> c = CHR ''_'' \<or> c = CHR ''.'' \<or> c = CHR ''-'')"

definition internal_segment_ok :: "string \<Rightarrow> bool" where
  "internal_segment_ok seg \<longleftrightarrow> \<not> (seg = [] \<or> seg = ''.'' \<or> seg = ''..'')"

text \<open>The loop over the bytes; \<open>seg\<close> is \<open>key[start:index]\<close>.\<close>

fun internal_key_loop :: "string \<Rightarrow> string \<Rightarrow> bool" where
  "internal_key_loop seg [] = internal_segment_ok seg"
| "internal_key_loop seg (c # key) =
     (if c \<noteq> slash then
        (if \<not> internal_key_char c then False else internal_key_loop (seg @ [c]) key)
      else (if \<not> internal_segment_ok seg then False else internal_key_loop [] key))"

definition validInternalObjectKey :: "string \<Rightarrow> bool" where
  "validInternalObjectKey key \<longleftrightarrow>
     (if key = [] \<or> maxS3ObjectKeyBytes < length key \<or> \<not> valid_utf8 key then False
      else internal_key_loop [] key)"

section \<open>Encoding\<close>

definition checkedUint16Length :: "int \<Rightarrow> 16 word option" where
  "checkedUint16Length len = (if len < 0 \<or> 65535 < len then None else Some (word_of_int len))"

definition encodeManifest :: "name_validator \<Rightarrow> blob_manifest \<Rightarrow> bytes result" where
  "encodeManifest vn manifest =
     (case vn (LogicalKey manifest) of
        Some e \<Rightarrow> Inl e
      | None \<Rightarrow>
          if \<not> validInternalObjectKey (PayloadKey manifest)
          then Inl (PlainError ''s3store: invalid internal payload key'')
          else if Size manifest < 0
          then Inl (PlainError ''s3store: invalid negative blob size'')
          else
            (case checkedUint16Length (int (length (LogicalKey manifest))) of
               None \<Rightarrow> Inl (PlainError ''s3store: manifest logical key length overflows its field'')
             | Some logicalLength \<Rightarrow>
                 (case checkedUint16Length (int (length (PayloadKey manifest))) of
                    None \<Rightarrow>
                      Inl (PlainError ''s3store: manifest payload key length overflows its field'')
                  | Some payloadLength \<Rightarrow>
                      if maxManifestBytes <
                           manifestHeaderBytes + length (LogicalKey manifest)
                             + length (PayloadKey manifest)
                      then Inl (PlainError ''s3store: manifest exceeds its size bound'')
                      else Inr (bytes_of manifestMagic @ put_u16 logicalLength
                             @ put_u16 payloadLength @ put_u64 (word_of_int (Size manifest))
                             @ Digest manifest @ bytes_of (LogicalKey manifest)
                             @ bytes_of (PayloadKey manifest)))))"

section \<open>Decoding\<close>

text \<open>\<open>encoded[from:to]\<close>.\<close>

definition slice :: "nat \<Rightarrow> nat \<Rightarrow> 'a list \<Rightarrow> 'a list" where
  "slice from to xs = drop from (take to xs)"

text \<open>What follows the two reads: the fields of the encoded bytes.\<close>

definition parse_manifest :: "name_validator \<Rightarrow> bytes \<Rightarrow> blob_manifest result" where
  "parse_manifest vn encoded =
     (if string_of (take 8 encoded) \<noteq> manifestMagic then Inl (integrityError ''manifest'')
      else
        (let logicalLength = be_nat (slice 8 10 encoded);
             payloadLength = be_nat (slice 10 12 encoded)
         in if manifestHeaderBytes + logicalLength + payloadLength \<noteq> length encoded
            then Inl (integrityError ''manifest'')
            else
              (let rawSize = be_nat (slice 12 20 encoded)
               in if max_int64 < int rawSize then Inl (integrityError ''manifest'')
                  else
                    (let offset = manifestHeaderBytes;
                         manifest =
                           \<lparr>LogicalKey = string_of (slice offset (offset + logicalLength) encoded),
                            PayloadKey = string_of (slice (offset + logicalLength)
                              (offset + logicalLength + payloadLength) encoded),
                            Size = int rawSize, Digest = slice 20 52 encoded\<rparr>
                     in if vn (LogicalKey manifest) \<noteq> None
                          \<or> \<not> validInternalObjectKey (PayloadKey manifest)
                        then Inl (integrityError ''manifest'') else Inr manifest))))"

definition decodeManifest ::
    "name_validator \<Rightarrow> script \<Rightarrow> int \<Rightarrow> blob_manifest result" where
  "decodeManifest vn reader contentLength =
     (if contentLength < int manifestHeaderBytes \<or> int maxManifestBytes < contentLength
      then Inl (integrityError ''manifest'')
      else case read_full reader (nat contentLength) of
        ((encoded, Some e), reader') \<Rightarrow> Inl (integrityError ''manifest'')
      | ((encoded, None), reader') \<Rightarrow>
          (if fst (fst (script_read reader' 1)) \<noteq> [] then Inl (integrityError ''manifest'')
           else parse_manifest vn encoded))"

section \<open>The check on payload keys, without its loop\<close>

lemma char_range:
  assumes "list_all (\<lambda>n. char_of n \<in> A) [a..<b]" "a \<le> of_char c" "of_char c < b"
  shows "c \<in> A"
  using assms unfolding list_all_iff by force

lemma internal_key_char_iff: "internal_key_char c \<longleftrightarrow> c \<in> name_chars"
proof
  assume c: "internal_key_char c"
  have "list_all (\<lambda>n. char_of n \<in> set ''abcdefghijklmnopqrstuvwxyz'') [97..<123]"
    "list_all (\<lambda>n. char_of n \<in> set ''0123456789'') [48..<58]" by code_simp+
  note range = this [THEN char_range]
  have sub: "set ''abcdefghijklmnopqrstuvwxyz'' \<subseteq> name_chars" "set ''0123456789'' \<subseteq> name_chars"
    "CHR ''_'' \<in> name_chars" "CHR ''.'' \<in> name_chars" "CHR ''-'' \<in> name_chars"
    by (simp_all add: name_chars_def)
  from c consider "97 \<le> ord c" "ord c \<le> 122" | "48 \<le> ord c" "ord c \<le> 57"
    | "c = CHR ''_''" | "c = CHR ''.''" | "c = CHR ''-''"
    unfolding internal_key_char_def Let_def by blast
  then show "c \<in> name_chars"
  proof cases
    case 1
    then have "ord c < 123" by simp
    from range(1) [OF 1(1) this] sub(1) show ?thesis by (rule rev_subsetD)
  next
    case 2
    then have "ord c < 58" by simp
    from range(2) [OF 2(1) this] sub(2) show ?thesis by (rule rev_subsetD)
  qed (simp_all only: sub)
next
  have "list_all internal_key_char ''abcdefghijklmnopqrstuvwxyz0123456789_.-''" by code_simp
  then show "c \<in> name_chars \<Longrightarrow> internal_key_char c"
    unfolding list_all_iff name_chars_def by (rule bspec)
qed

definition name_segment :: "string \<Rightarrow> bool" where
  "name_segment p \<longleftrightarrow> p \<noteq> [] \<and> p \<noteq> ''.'' \<and> p \<noteq> ''..'' \<and> list_all (\<lambda>c. c \<in> name_chars) p"

lemma internal_key_loop_split:
  "list_all (\<lambda>c. c \<in> name_chars) seg \<Longrightarrow>
   internal_key_loop seg key \<longleftrightarrow>
     (case split_on slash key of [] \<Rightarrow> False
      | p # ps \<Rightarrow> name_segment (seg @ p) \<and> list_all name_segment ps)"
proof (induction seg key rule: internal_key_loop.induct)
  case (1 seg)
  then show ?case by (auto simp: internal_segment_ok_def name_segment_def)
next
  case (2 seg c key)
  obtain p ps where sp: "split_on slash key = p # ps" by (cases "split_on slash key") auto
  show ?case
  proof (cases "c = slash")
    case True
    with 2 sp show ?thesis by (auto simp: internal_segment_ok_def name_segment_def)
  next
    case False
    with 2 sp show ?thesis
      by (cases "c \<in> name_chars") (auto simp: internal_key_char_iff name_segment_def)
  qed
qed

lemma split_on_chars: "c \<in> set s \<Longrightarrow> c \<noteq> d \<Longrightarrow> \<exists>p \<in> set (split_on d s). c \<in> set p"
  by (induction s) (auto split: list.split)

lemma name_segments_ascii:
  assumes "list_all name_segment (split_on slash key)" "c \<in> set key"
  shows "ord c < 128"
proof (cases "c = slash")
  case False
  with assms obtain p where "name_segment p" "c \<in> set p"
    using split_on_chars [of c key slash] by (auto simp: list_all_iff)
  then have "c \<in> name_chars" by (auto simp: name_segment_def list_all_iff)
  then show ?thesis by (auto simp: name_chars_def)
qed simp

lemma validInternalObjectKey_iff:
  "validInternalObjectKey key \<longleftrightarrow>
     length key \<le> maxS3ObjectKeyBytes \<and> list_all name_segment (split_on slash key)"
proof -
  have loop: "internal_key_loop [] key \<longleftrightarrow> list_all name_segment (split_on slash key)"
    using internal_key_loop_split [of "[]" key] by (cases "split_on slash key") auto
  have "key \<noteq> []" if "list_all name_segment (split_on slash key)"
    using that by (auto simp: name_segment_def)
  moreover have "valid_utf8 key" if "list_all name_segment (split_on slash key)"
    using name_segments_ascii [OF that] by (rule valid_utf8_ascii)
  ultimately show ?thesis by (auto simp: validInternalObjectKey_def loop)
qed

lemma canonical_name_iff:
  "canonical_name s \<longleftrightarrow> length s \<le> 512 \<and> list_all name_segment (split_on slash s)"
  by (simp add: canonical_name_def name_segment_def [abs_def])

section \<open>Encoding and parsing are inverse\<close>

lemma u16_of_nat: "n < 65536 \<Longrightarrow> unat (word_of_nat n :: 16 word) = n"
  by (simp add: unat_of_nat take_bit_nat_eq_self)

lemma u64_of_int: "0 \<le> i \<Longrightarrow> i < 2 ^ 64 \<Longrightarrow> unat (word_of_int i :: 64 word) = nat i"
  by (simp add: unat_eq_nat_uint unsigned_of_int take_bit_int_eq_self)

lemma encodeManifest_Inr [inr_iff]:
  "encodeManifest vn m = Inr bs \<longleftrightarrow>
     vn (LogicalKey m) = None \<and> validInternalObjectKey (PayloadKey m) \<and> 0 \<le> Size m
     \<and> manifestHeaderBytes + length (LogicalKey m) + length (PayloadKey m) \<le> maxManifestBytes
     \<and> bs = bytes_of manifestMagic @ put_u16 (word_of_nat (length (LogicalKey m)))
          @ put_u16 (word_of_nat (length (PayloadKey m))) @ put_u64 (word_of_int (Size m))
          @ Digest m @ bytes_of (LogicalKey m) @ bytes_of (PayloadKey m)"
  by (auto simp: encodeManifest_def checkedUint16Length_def limits split: option.splits if_splits)

lemma length_manifestMagic [simp]: "length manifestMagic = 8"
  by (simp add: manifestMagic_def)

lemma encodeManifest_length:
  "encodeManifest vn m = Inr bs \<Longrightarrow> digest_ok m \<Longrightarrow>
   length bs = manifestHeaderBytes + length (LogicalKey m) + length (PayloadKey m)"
  by (auto simp: inr_iff digest_ok_def limits)

lemma slice_append:
  "length a = i \<Longrightarrow> j = i + length b \<Longrightarrow> slice i j (a @ b @ c) = b"
  by (simp add: slice_def)

lemma slice_append_last: "length a = i \<Longrightarrow> j = i + length b \<Longrightarrow> slice i j (a @ b) = b"
  by (simp add: slice_def)

lemma parse_encode:
  assumes "encodeManifest vn m = Inr bs" "digest_ok m" "Size m \<le> max_int64"
  shows "parse_manifest vn bs = Inr m"
proof -
  let ?M = "bytes_of manifestMagic" and ?l = "put_u16 (word_of_nat (length (LogicalKey m)))"
    and ?p = "put_u16 (word_of_nat (length (PayloadKey m)))"
    and ?s = "put_u64 (word_of_int (Size m))"
    and ?L = "bytes_of (LogicalKey m)" and ?P = "bytes_of (PayloadKey m)"
  have bs: "bs = ?M @ ?l @ ?p @ ?s @ Digest m @ ?L @ ?P"
    and wf: "vn (LogicalKey m) = None" "validInternalObjectKey (PayloadKey m)" "0 \<le> Size m"
    and len: "length (LogicalKey m) < 65536" "length (PayloadKey m) < 65536"
    using assms(1) by (auto simp: inr_iff limits)
  have d: "length (Digest m) = 32" using assms(2) by (simp add: digest_ok_def)
  have "slice 8 10 bs = ?l" "slice 10 12 bs = ?p" "slice 12 20 bs = ?s" "slice 20 52 bs = Digest m"
    "take 8 bs = ?M"
    "slice 52 (52 + length (LogicalKey m)) bs = ?L"
    "slice (52 + length (LogicalKey m))
       (52 + length (LogicalKey m) + length (PayloadKey m)) bs = ?P"
    using slice_append [of ?M 8 10 ?l] slice_append [of "?M @ ?l" 10 12 ?p]
      slice_append [of "?M @ ?l @ ?p" 12 20 ?s] slice_append [of "?M @ ?l @ ?p @ ?s" 20 52 "Digest m"]
      slice_append [of "?M @ ?l @ ?p @ ?s @ Digest m" 52 _ ?L]
      slice_append_last [of "?M @ ?l @ ?p @ ?s @ Digest m @ ?L" _ _ ?P] d
    by (simp_all add: bs)
  moreover have "nat (Size m) < 2 ^ 63" "unat (word_of_int (Size m) :: 64 word) = nat (Size m)"
    using assms(3) wf(3) by (auto simp: max_int64_def intro!: u64_of_int)
  moreover have "length bs = 52 + length (LogicalKey m) + length (PayloadKey m)"
    using encodeManifest_length [OF assms(1,2)] by (simp add: limits)
  ultimately show ?thesis
    using wf len assms(3)
    by (simp add: parse_manifest_def Let_def u16_of_nat manifestHeaderBytes_def)
qed

lemma encode_parse:
  assumes "parse_manifest vn bs = Inr m" "length bs \<le> maxManifestBytes"
  shows "encodeManifest vn m = Inr bs \<and> digest_ok m \<and> Size m \<le> max_int64"
proof -
  define l where "l = be_nat (slice 8 10 bs)"
  define p where "p = be_nat (slice 10 12 bs)"
  define s where "s = be_nat (slice 12 20 bs)"
  from assms(1) have magic: "string_of (take 8 bs) = manifestMagic"
    and len: "length bs = 52 + l + p" and sz: "int s \<le> max_int64"
    and m: "m = \<lparr>LogicalKey = string_of (slice 52 (52 + l) bs),
        PayloadKey = string_of (slice (52 + l) (52 + l + p) bs), Size = int s,
        Digest = slice 20 52 bs\<rparr>"
    and ok: "vn (LogicalKey m) = None" "validInternalObjectKey (PayloadKey m)"
    by (auto simp: parse_manifest_def Let_def l_def p_def s_def limits split: if_splits)
  have pieces: "bs = take 8 bs @ slice 8 10 bs @ slice 10 12 bs @ slice 12 20 bs
      @ slice 20 52 bs @ slice 52 (52 + l) bs @ slice (52 + l) (52 + l + p) bs"
  proof -
    have step: "drop i bs = slice i j bs @ drop j bs" if "i \<le> j" for i j
      using that by (simp add: slice_def)
        (metis append_take_drop_id drop_drop drop_take le_add_diff_inverse2)
    have "slice (52 + l) (52 + l + p) bs = drop (52 + l) bs" using len by (simp add: slice_def)
    moreover have "bs = take 8 bs @ drop 8 bs" by simp
    ultimately show ?thesis
      using step [of 8 10] step [of 10 12] step [of 12 20] step [of 20 52] step [of 52 "52 + l"]
      by simp
  qed
  have lens: "length (slice 8 10 bs) = 2" "length (slice 10 12 bs) = 2"
    "length (slice 12 20 bs) = 8" "length (slice 20 52 bs) = 32"
    "length (slice 52 (52 + l) bs) = l" "length (slice (52 + l) (52 + l + p) bs) = p"
    using len by (simp_all add: slice_def)
  have "put_u64 (word_of_int (int s)) = slice 12 20 bs"
    using put_u64_be_nat [OF lens(3)] by (simp add: s_def)
  moreover have "put_u16 (word_of_nat l) = slice 8 10 bs" "put_u16 (word_of_nat p) = slice 10 12 bs"
    using put_u16_be_nat [OF lens(1)] put_u16_be_nat [OF lens(2)] by (simp_all add: l_def p_def)
  moreover have "bytes_of manifestMagic = take 8 bs" by (simp add: magic [symmetric])
  moreover have "52 + l + p \<le> 1024" using assms(2) len by (simp add: limits)
  ultimately show ?thesis
    using ok pieces lens sz unfolding inr_iff digest_ok_def
    by (simp add: m manifestHeaderBytes_def maxManifestBytes_def)
qed

lemma decodeManifest_Inr:
  "decodeManifest vn s n = Inr m \<longleftrightarrow>
     int manifestHeaderBytes \<le> n \<and> n \<le> int maxManifestBytes
     \<and> (\<exists>bs t. read_full s (nat n) = ((bs, None), t) \<and> fst (fst (script_read t 1)) = []
          \<and> parse_manifest vn bs = Inr m)"
  by (auto simp: decodeManifest_def split: option.splits prod.splits)

text \<open>A body that keeps the reader contract and ends: chunks without errors, none empty.\<close>

definition proper :: "script \<Rightarrow> bool" where
  "proper s \<longleftrightarrow> clean s \<and> [] \<notin> fst ` set s"

lemma script_read_proper:
  "proper s \<Longrightarrow> 0 < n \<Longrightarrow> script_read s n = ((b, e), t) \<Longrightarrow>
   proper t \<and> (b = [] \<longrightarrow> script_bytes s = [])"
  by (cases "(s, n)" rule: script_read.cases)
    (auto simp: proper_def clean_def image_iff split: if_splits)

lemma read_full_proper:
  "proper s \<Longrightarrow> read_full s n = ((b, None), t) \<Longrightarrow> proper t"
proof (induction s n arbitrary: b t rule: read_full.induct)
  case (1 s n)
  show ?case
  proof (cases "n = 0")
    case True
    with "1.prems" show ?thesis by simp
  next
    case False
    obtain c x u where r: "script_read s n = ((c, x), u)" by (metis surj_pair)
    have u: "proper u" using script_read_proper [OF "1.prems"(1) _ r] False by simp
    show ?thesis
    proof (cases "x = None \<and> length c \<noteq> n")
      case True
      obtain c' x' v where r': "read_full u (n - length c) = ((c', x'), v)" by (metis surj_pair)
      have v: "v = t \<and> x' = None"
        using "1.prems"(2) True False r r'
        by (subst (asm) read_full.simps) (auto split: if_splits)
      have x: "x = None" "length c \<noteq> n" using True by simp_all
      from "1.IH" [OF False r [unfolded x(1), symmetric] refl refl x(2) u, of c' v] r' v
      show ?thesis by simp
    next
      case False
      then have "t = u" using "1.prems"(2) \<open>n \<noteq> 0\<close> r
        by (subst (asm) read_full.simps) (auto split: if_splits option.splits)
      with u show ?thesis by simp
    qed
  qed
qed

lemma proper_end: "proper t \<Longrightarrow> fst (fst (script_read t 1)) = [] \<longleftrightarrow> script_bytes t = []"
  by (cases t) (auto simp: proper_def image_iff split: if_splits)

lemma decode_encoded:
  assumes "proper s"
    and a: "encodeManifest vn m = Inr (script_bytes s)" "digest_ok m" "Size m \<le> max_int64"
  shows "decodeManifest vn s (int (length (script_bytes s))) = Inr m"
proof -
  have len: "length (script_bytes s) = manifestHeaderBytes + length (LogicalKey m)
      + length (PayloadKey m)" "length (script_bytes s) \<le> maxManifestBytes"
    using encodeManifest_length [OF a(1,2)] a(1) by (auto simp: inr_iff)
  have "clean s" using assms by (simp add: proper_def)
  from read_full_clean [OF this order_refl] obtain t where
    t: "read_full s (length (script_bytes s)) = ((script_bytes s, None), t)" "script_bytes t = []"
    by auto
  have "fst (fst (script_read t 1)) = []"
    using proper_end [OF read_full_proper [OF assms(1) t(1)]] t(2) by simp
  moreover have "parse_manifest vn (script_bytes s) = Inr m" using a by (rule parse_encode)
  moreover have "int manifestHeaderBytes \<le> int (length (script_bytes s))"
    "int (length (script_bytes s)) \<le> int maxManifestBytes" using len by auto
  ultimately show ?thesis
    using t(1) unfolding decodeManifest_Inr nat_int by auto
qed

section \<open>Properties\<close>



text \<open>A manifest for the witnesses.\<close>

definition sample_manifest :: blob_manifest where
  "sample_manifest = \<lparr>LogicalKey = ''a'', PayloadKey = ''p/b'', Size = 3, Digest = replicate 32 9\<rparr>"

definition sample_bytes :: bytes where
  "sample_bytes = bytes_of manifestMagic @ [0, 1] @ [0, 3] @ [0, 0, 0, 0, 0, 0, 0, 3]
     @ replicate 32 9 @ bytes_of ''a'' @ bytes_of ''p/b''"

lemma sample_encoding: "encodeManifest grammar_validator sample_manifest = Inr sample_bytes"
proof -
  have "grammar_validator ''a'' = None" by code_simp
  moreover have "validInternalObjectKey ''p/b''"
    by (simp add: validInternalObjectKey_iff name_segment_def name_chars_def limits)
  moreover have "put_u16 1 = [0, 1]" "put_u16 3 = [0, 3]" "put_u64 3 = [0, 0, 0, 0, 0, 0, 0, 3]"
    by code_simp+
  ultimately show ?thesis
    unfolding inr_iff by (simp add: sample_manifest_def sample_bytes_def limits)
qed


text \<open>No manifest is the beginning of a longer one: the header gives the length.\<close>

lemma manifest_not_extended:
  assumes "parse_manifest vn bs = Inr m" "parse_manifest vn (bs @ rest) = Inr m'"
  shows "rest = []"
proof -
  have total: "manifestHeaderBytes + be_nat (slice 8 10 e) + be_nat (slice 10 12 e) = length e"
    if "parse_manifest vn e = Inr x" for e x
    using that by (auto simp: parse_manifest_def Let_def split: if_splits)
  have "12 \<le> length bs" using total [OF assms(1)] by (simp add: limits)
  then have "slice 8 10 (bs @ rest) = slice 8 10 bs" "slice 10 12 (bs @ rest) = slice 10 12 bs"
    by (simp_all add: slice_def)
  with total [OF assms(1)] total [OF assms(2)] show ?thesis by simp
qed

text \<open>A payload key the store made is a valid internal key.\<close>

lemma own_payload_key_valid:
  assumes "canonical_names vn" "length p \<le> 256" "length rnd = 16"
    and "newPayloadObjectKey vn (Some rnd) p k = Inr key"
  shows "validInternalObjectKey key" "length key \<le> 366" "length k \<le> 512" "vn k = None"
proof -
  from assms(4) have vn: "vn p = None" "vn k = None" and key: "key = payloadRoot p k @ hex_encode rnd"
    by (auto simp: inr_iff)
  have "canonical_name p" "canonical_name k"
    using assms(1) vn by (auto simp: canonical_names_def)
  then have p: "list_all name_segment (split_on slash p)" and k: "length k \<le> 512"
    by (simp_all add: canonical_name_iff)
  have hex: "name_segment (hex_encode bs)" if "hex_encode bs \<noteq> []" "length bs \<ge> 2" for bs
  proof -
    have "hex_chars \<subseteq> name_chars" by (simp add: hex_chars_def hex_digits_def name_chars_def)
    moreover have "hex_encode bs \<noteq> t" if "length t < 4" for t
      using that \<open>length bs \<ge> 2\<close> by auto
    ultimately show ?thesis
      using set_hex_encode [of bs] by (auto simp: name_segment_def list_all_iff)
  qed
  have "hex_encode rnd \<noteq> []"
    using length_hex_encode [of rnd] assms(3) by (metis length_0_conv mult_is_0 zero_neq_numeral)
  then have "name_segment (hex_encode rnd)" "name_segment (hex_encode (sum256 (bytes_of k)))"
    using hex [of rnd] hex [of "sum256 (bytes_of k)"] assms(3) by simp_all
  moreover have "name_segment ''payloads''" "name_segment ''v1''"
    by (simp_all add: name_segment_def name_chars_def)
  ultimately have "list_all name_segment (split_on slash key)"
    using p by (simp add: key payload_key_parts split_on_single)
  moreover show len: "length key \<le> 366" using assms(2,3) by (simp add: key)
  ultimately show "validInternalObjectKey key"
    by (simp add: validInternalObjectKey_iff limits)
  show "length k \<le> 512" "vn k = None" using k vn(2) .
qed

end
