(* ===== verification/BlobReader.thy ===== *)
theory BlobReader
  imports BlobIO
begin

text \<open>
  blob_reader.go: the stream \<open>Get\<close> returns, and its bounded shutdown. \<open>Read\<close> and
  \<open>Close\<close> share no lock, so the reader is a system of steps: one reading goroutine, any
  number of closing goroutines, and the transport, which may do anything to the response body
  once the request was aborted. Each rule of \<open>reader_step\<close> is one atomic access of the code
  to shared state (an atomic load or store, a \<open>sync.Once\<close>, a call of the verifier).
\<close>

section \<open>State\<close>

text \<open>\<open>blobReaderCloseBound\<close>, in nanoseconds.\<close>

definition BlobReaderCloseBound :: int where
  [limits]: "BlobReaderCloseBound = 5 * 10 ^ 9"

text \<open>
  \<open>closeOnce\<close>: free, running in closer \<open>j\<close> before its statement number \<open>k\<close>, or done.
\<close>

datatype close_once = OnceFree | OnceRunning nat nat | OnceDone

record blob_reader =
  br_verifier :: "script verifying"
  br_closed :: bool
  br_once :: close_once
  br_close_err :: "err option"
  br_released :: bool
  br_aborts :: nat
  br_body_closes :: nat
  br_releases :: nat

text \<open>
  \<open>br_aborts\<close>, \<open>br_body_closes\<close> and \<open>br_releases\<close> count the calls of the two
  functions the reader was built with and of the body's \<open>Close\<close>.
\<close>

definition newBlobReader :: "script verifying \<Rightarrow> blob_reader" where
  "newBlobReader v =
     \<lparr>br_verifier = v, br_closed = False, br_once = OnceFree, br_close_err = None,
      br_released = False, br_aborts = 0, br_body_closes = 0, br_releases = 0\<rparr>"

text \<open>\<open>r.releaseOnce.Do(r.release)\<close>.\<close>

definition release_once :: "blob_reader \<Rightarrow> blob_reader" where
  "release_once r =
     (if br_released r then r else r\<lparr>br_released := True, br_releases := Suc (br_releases r)\<rparr>)"

section \<open>The methods run alone\<close>

text \<open>\<open>Read\<close> and \<open>Close\<close> when nothing runs beside them; \<open>body_close k\<close> is what the
  body's \<open>Close\<close> returns on its call number \<open>k\<close>.\<close>

definition Read :: "blob_reader reader" where
  "Read r n =
     (if br_closed r then (([], Some BlobReaderClosedError), r)
      else case verifying_read script_read (br_verifier r) n of
        ((b, e), v) \<Rightarrow>
          (let r1 = r\<lparr>br_verifier := v\<rparr>
           in if br_closed r1 then (([], Some BlobReaderClosedError), r1)
              else ((b, e), if e \<noteq> None then release_once r1 else r1)))"

definition Close :: "(nat \<Rightarrow> err option) \<Rightarrow> blob_reader \<Rightarrow> err option \<times> blob_reader" where
  "Close body_close r =
     (if br_once r = OnceDone then (br_close_err r, r)
      else (let r1 = r\<lparr>br_closed := True\<rparr>;
                r2 = r1\<lparr>br_aborts := Suc (br_aborts r1)\<rparr>;
                r3 = r2\<lparr>br_close_err := body_close (br_body_closes r2),
                        br_body_closes := Suc (br_body_closes r2)\<rparr>;
                r4 = (release_once r3)\<lparr>br_once := OnceDone\<rparr>
            in (br_close_err r4, r4)))"

section \<open>The concurrent system\<close>

text \<open>
  Where the reading goroutine is: outside \<open>Read\<close>; past the first \<open>closed.Load()\<close>, about
  to call the verifier; back from it, before the second \<open>closed.Load()\<close>; past that.
  \<open>late\<close> records that some \<open>Close\<close> had returned when this \<open>Read\<close> was called.
\<close>

datatype read_pc =
    RIdle
  | RVerify bool nat
  | RVerified bool bytes "err option"
  | RPassed bool bytes "err option"

datatype reader_event =
    ReadReturn bool bytes "err option"
  | CloseReturn nat "err option"

text \<open>\<open>waiting\<close> are the goroutines inside \<open>Close\<close>; the history is newest first.\<close>

record reader_sys =
  rs_reader :: blob_reader
  rs_read :: read_pc
  rs_waiting :: "nat set"
  rs_history :: "reader_event list"

definition close_returned :: "reader_event list \<Rightarrow> bool" where
  "close_returned h \<longleftrightarrow> (\<exists>j e. CloseReturn j e \<in> set h)"

definition reader_init :: "script verifying \<Rightarrow> reader_sys" where
  "reader_init v =
     \<lparr>rs_reader = newBlobReader v, rs_read = RIdle, rs_waiting = {}, rs_history = []\<rparr>"

inductive reader_step :: "(nat \<Rightarrow> err option) \<Rightarrow> reader_sys \<Rightarrow> reader_sys \<Rightarrow> bool"
  for body_close :: "nat \<Rightarrow> err option" where
  read_refused:
    "rs_read s = RIdle \<Longrightarrow> br_closed (rs_reader s) \<Longrightarrow>
     reader_step body_close s
       (s\<lparr>rs_history := ReadReturn (close_returned (rs_history s)) [] (Some BlobReaderClosedError)
            # rs_history s\<rparr>)"
| read_begin:
    "rs_read s = RIdle \<Longrightarrow> \<not> br_closed (rs_reader s) \<Longrightarrow>
     reader_step body_close s (s\<lparr>rs_read := RVerify (close_returned (rs_history s)) n\<rparr>)"
| read_body:
    "rs_read s = RVerify late n \<Longrightarrow>
     verifying_read script_read (br_verifier (rs_reader s)) n = ((b, e), v) \<Longrightarrow>
     reader_step body_close s
       (s\<lparr>rs_reader := (rs_reader s)\<lparr>br_verifier := v\<rparr>, rs_read := RVerified late b e\<rparr>)"
| read_discard:
    "rs_read s = RVerified late b e \<Longrightarrow> br_closed (rs_reader s) \<Longrightarrow>
     reader_step body_close s
       (s\<lparr>rs_read := RIdle,
          rs_history := ReadReturn late [] (Some BlobReaderClosedError) # rs_history s\<rparr>)"
| read_pass:
    "rs_read s = RVerified late b e \<Longrightarrow> \<not> br_closed (rs_reader s) \<Longrightarrow>
     reader_step body_close s (s\<lparr>rs_read := RPassed late b e\<rparr>)"
| read_return:
    "rs_read s = RPassed late b e \<Longrightarrow>
     reader_step body_close s
       (s\<lparr>rs_reader := (if e \<noteq> None then release_once (rs_reader s) else rs_reader s),
          rs_read := RIdle, rs_history := ReadReturn late b e # rs_history s\<rparr>)"
| close_call:
    "j \<notin> rs_waiting s \<Longrightarrow>
     reader_step body_close s (s\<lparr>rs_waiting := insert j (rs_waiting s)\<rparr>)"
| close_enter:
    "j \<in> rs_waiting s \<Longrightarrow> br_once (rs_reader s) = OnceFree \<Longrightarrow>
     reader_step body_close s (s\<lparr>rs_reader := (rs_reader s)\<lparr>br_once := OnceRunning j 0\<rparr>\<rparr>)"
| close_mark:
    "br_once (rs_reader s) = OnceRunning j 0 \<Longrightarrow>
     reader_step body_close s
       (s\<lparr>rs_reader := (rs_reader s)\<lparr>br_closed := True, br_once := OnceRunning j 1\<rparr>\<rparr>)"
| close_abort:
    "br_once (rs_reader s) = OnceRunning j 1 \<Longrightarrow>
     reader_step body_close s
       (s\<lparr>rs_reader := (rs_reader s)\<lparr>br_aborts := Suc (br_aborts (rs_reader s)),
            br_once := OnceRunning j 2\<rparr>\<rparr>)"
| close_body:
    "br_once (rs_reader s) = OnceRunning j 2 \<Longrightarrow>
     reader_step body_close s
       (s\<lparr>rs_reader := (rs_reader s)\<lparr>br_close_err := body_close (br_body_closes (rs_reader s)),
            br_body_closes := Suc (br_body_closes (rs_reader s)), br_once := OnceRunning j 3\<rparr>\<rparr>)"
| close_release:
    "br_once (rs_reader s) = OnceRunning j 3 \<Longrightarrow>
     reader_step body_close s
       (s\<lparr>rs_reader := (release_once (rs_reader s))\<lparr>br_once := OnceDone\<rparr>\<rparr>)"
| close_return:
    "j \<in> rs_waiting s \<Longrightarrow> br_once (rs_reader s) = OnceDone \<Longrightarrow>
     reader_step body_close s
       (s\<lparr>rs_waiting := rs_waiting s - {j},
          rs_history := CloseReturn j (br_close_err (rs_reader s)) # rs_history s\<rparr>)"
| body_torn:
    "0 < br_aborts (rs_reader s) \<Longrightarrow>
     reader_step body_close s
       (s\<lparr>rs_reader := (rs_reader s)\<lparr>br_verifier :=
            (br_verifier (rs_reader s))\<lparr>ver_body := torn\<rparr>\<rparr>\<rparr>)"

inductive reader_reach :: "(nat \<Rightarrow> err option) \<Rightarrow> script verifying \<Rightarrow> reader_sys \<Rightarrow> bool"
  for body_close :: "nat \<Rightarrow> err option" and v :: "script verifying" where
  reach_init: "reader_reach body_close v (reader_init v)"
| reach_step: "reader_reach body_close v s \<Longrightarrow> reader_step body_close s t \<Longrightarrow>
     reader_reach body_close v t"

section \<open>Close\<close>

text \<open>
  The shutdown invariant: the counters agree with how far the one run of \<open>Close\<close> has come,
  and every returned \<open>Close\<close> returned what that run latched.
\<close>

definition close_stage :: "blob_reader \<Rightarrow> nat" where
  "close_stage r = (case br_once r of OnceFree \<Rightarrow> 0 | OnceRunning j k \<Rightarrow> k | OnceDone \<Rightarrow> 4)"

definition shutdown_inv :: "(nat \<Rightarrow> err option) \<Rightarrow> reader_sys \<Rightarrow> bool" where
  "shutdown_inv body_close s \<longleftrightarrow>
     (let r = rs_reader s; k = close_stage r in
      k \<le> 4 \<and> (br_once r \<noteq> OnceDone \<longrightarrow> k \<le> 3)
      \<and> br_closed r = (1 \<le> k)
      \<and> br_aborts r = (if 2 \<le> k then 1 else 0)
      \<and> br_body_closes r = (if 3 \<le> k then 1 else 0)
      \<and> (3 \<le> k \<longrightarrow> br_close_err r = body_close 0)
      \<and> br_releases r = (if br_released r then 1 else 0)
      \<and> (k = 4 \<longrightarrow> br_released r)
      \<and> (close_returned (rs_history s) \<longrightarrow> br_once r = OnceDone)
      \<and> (\<forall>j e. CloseReturn j e \<in> set (rs_history s) \<longrightarrow> e = body_close 0))"

lemma release_once_simps [simp]:
  "br_verifier (release_once r) = br_verifier r" "br_closed (release_once r) = br_closed r"
  "br_once (release_once r) = br_once r" "br_close_err (release_once r) = br_close_err r"
  "br_aborts (release_once r) = br_aborts r"
  "br_body_closes (release_once r) = br_body_closes r" "br_released (release_once r)"
  by (simp_all add: release_once_def)

lemma br_releases_once:
  "br_releases r = (if br_released r then 1 else 0) \<Longrightarrow> br_releases (release_once r) = 1"
  by (auto simp: release_once_def)

lemma close_returned_simps [simp]:
  "\<not> close_returned []" "close_returned (CloseReturn j e # h)"
  "close_returned (ReadReturn late b e # h) = close_returned h"
  by (auto simp: close_returned_def)

lemma close_stage_simps [simp]:
  "br_once r = OnceRunning j k \<Longrightarrow> close_stage r = k"
  "br_once r = OnceDone \<Longrightarrow> close_stage r = 4" "br_once r = OnceFree \<Longrightarrow> close_stage r = 0"
  by (simp_all add: close_stage_def)

lemma close_stage_cong: "br_once r = br_once t \<Longrightarrow> close_stage r = close_stage t"
  by (simp add: close_stage_def)

lemma shutdown_init: "shutdown_inv body_close (reader_init v)"
  by (simp add: shutdown_inv_def reader_init_def newBlobReader_def close_stage_def Let_def)

lemma shutdown_step:
  "reader_step body_close s t \<Longrightarrow> shutdown_inv body_close s \<Longrightarrow> shutdown_inv body_close t"
proof (induction rule: reader_step.induct)
  case (read_return s late b e)
  then show ?case
    by (auto simp: shutdown_inv_def Let_def close_stage_def br_releases_once)
qed (auto simp: shutdown_inv_def Let_def close_stage_def br_releases_once split: close_once.splits)

lemma reach_shutdown: "reader_reach body_close v s \<Longrightarrow> shutdown_inv body_close s"
  by (induction rule: reader_reach.induct) (auto intro: shutdown_init shutdown_step)

section \<open>Read\<close>

text \<open>The bytes handed to the caller, oldest first, and what a clean end of stream claims.\<close>

fun delivered :: "reader_event list \<Rightarrow> bytes" where
  "delivered [] = []"
| "delivered (ReadReturn late b e # h) = delivered h @ b"
| "delivered (CloseReturn j e # h) = delivered h"

fun eof_verified :: "int \<Rightarrow> bytes \<Rightarrow> reader_event list \<Rightarrow> bool" where
  "eof_verified expected digest [] \<longleftrightarrow> True"
| "eof_verified expected digest (CloseReturn j e # h) \<longleftrightarrow> eof_verified expected digest h"
| "eof_verified expected digest (ReadReturn late b e # h) \<longleftrightarrow>
     eof_verified expected digest h
     \<and> (e = Some EOF \<longrightarrow> int (length (delivered h @ b)) = expected
          \<and> sum256 (delivered h @ b) = digest)"

fun read_pending :: "read_pc \<Rightarrow> bool \<Rightarrow> script verifying \<Rightarrow> bytes \<Rightarrow> bool" where
  "read_pending RIdle closed v out \<longleftrightarrow> (\<not> closed \<longrightarrow> ver_hash v = out)"
| "read_pending (RVerify late n) closed v out \<longleftrightarrow> \<not> late \<and> ver_hash v = out"
| "read_pending (RVerified late b e) closed v out \<longleftrightarrow>
     \<not> late \<and> ver_hash v = out @ b \<and> (e = Some EOF \<longrightarrow> ver_terminal v = Some EOF)"
| "read_pending (RPassed late b e) closed v out \<longleftrightarrow>
     \<not> late \<and> ver_hash v = out @ b \<and> (e = Some EOF \<longrightarrow> ver_terminal v = Some EOF)"

definition read_inv :: "int \<Rightarrow> bytes \<Rightarrow> reader_sys \<Rightarrow> bool" where
  "read_inv expected digest s \<longleftrightarrow>
     (let r = rs_reader s; v = br_verifier r in
      verifying_ok v \<and> ver_expected_size v = expected \<and> ver_expected_digest v = digest
      \<and> read_pending (rs_read s) (br_closed r) v (delivered (rs_history s))
      \<and> eof_verified expected digest (rs_history s)
      \<and> (\<forall>b e. ReadReturn True b e \<in> set (rs_history s) \<longrightarrow>
            b = [] \<and> e = Some BlobReaderClosedError))"

lemma read_inv_init:
  "0 \<le> expected \<Longrightarrow>
   read_inv expected digest (reader_init (newVerifyingBlobReader body expected digest))"
  using verifying_ok_new [of expected body digest]
  by (simp add: read_inv_def reader_init_def newBlobReader_def newVerifyingBlobReader_def)

lemma verifying_ok_body [simp]: "verifying_ok (v\<lparr>ver_body := b\<rparr>) = verifying_ok v"
  by (simp add: verifying_ok_def)

lemma verified_at_eof:
  "verifying_ok v \<Longrightarrow> ver_terminal v = Some EOF \<Longrightarrow>
   int (length (ver_hash v)) = ver_expected_size v \<and> sum256 (ver_hash v) = ver_expected_digest v"
  by (simp add: verifying_ok_def)

lemma read_pending_closed:
  "read_pending pc c v out \<Longrightarrow> read_pending pc True v out"
  by (cases pc) auto

lemma read_pending_body [simp]:
  "read_pending pc c (v\<lparr>ver_body := b\<rparr>) out = read_pending pc c v out"
  by (cases pc) auto

lemma read_step_inv:
  assumes "reader_step body_close s t" "shutdown_inv body_close s" "read_inv expected digest s"
  shows "read_inv expected digest t"
  using assms
proof (induction rule: reader_step.induct)
  case (read_begin s n)
  then have "\<not> close_returned (rs_history s)"
    by (auto simp: shutdown_inv_def Let_def)
  with read_begin show ?case by (simp add: read_inv_def Let_def)
next
  case (read_body s late n b e v)
  then have ok: "verifying_ok (br_verifier (rs_reader s))" by (simp add: read_inv_def Let_def)
  from script.verifying_readD [OF ok read_body.hyps(2)] read_body show ?case
    by (auto simp: read_inv_def Let_def)
next
  case (read_return s late b e)
  then show ?case
    using verified_at_eof [of "br_verifier (rs_reader s)"]
    by (auto simp: read_inv_def Let_def)
next
  case (close_mark s j)
  then show ?case by (auto simp: read_inv_def Let_def intro: read_pending_closed)
qed (auto simp: read_inv_def Let_def)

lemma reach_read_inv:
  assumes "0 \<le> expected"
    and "reader_reach body_close (newVerifyingBlobReader body expected digest) s"
  shows "read_inv expected digest s"
  using assms(2)
proof (induction rule: reader_reach.induct)
  case reach_init
  show ?case by (rule read_inv_init [OF assms(1)])
next
  case (reach_step s t)
  then show ?case by (blast intro: read_step_inv reach_shutdown)
qed

section \<open>Close waits for nobody but another Close\<close>

text \<open>Steps that leave the reading goroutine where it is.\<close>

definition close_only :: "(nat \<Rightarrow> err option) \<Rightarrow> reader_sys \<Rightarrow> reader_sys \<Rightarrow> bool" where
  "close_only body_close s t \<longleftrightarrow> reader_step body_close s t \<and> rs_read t = rs_read s"

text \<open>How many of its own steps \<open>Close\<close> still has, the return of one caller included.\<close>

definition close_todo :: "blob_reader \<Rightarrow> nat" where
  "close_todo r = (case br_once r of OnceFree \<Rightarrow> 6 | OnceRunning j k \<Rightarrow> 5 - k | OnceDone \<Rightarrow> 1)"

lemma close_progress:
  assumes "j \<in> rs_waiting s" "shutdown_inv body_close s" "br_once (rs_reader s) \<noteq> OnceDone"
  shows "\<exists>t. close_only body_close s t \<and> j \<in> rs_waiting t
    \<and> close_todo (rs_reader s) = Suc (close_todo (rs_reader t))"
proof -
  have goal: ?thesis if "reader_step body_close s t" "rs_read t = rs_read s"
    "rs_waiting t = rs_waiting s" "close_todo (rs_reader s) = Suc (close_todo (rs_reader t))" for t
    using that assms(1) by (auto simp: close_only_def)
  show ?thesis
  proof (cases "br_once (rs_reader s)")
    case OnceFree
    show ?thesis
      by (rule goal, rule close_enter [OF assms(1) OnceFree])
        (simp_all add: close_todo_def OnceFree)
  next
    case (OnceRunning i k)
    have "k \<le> 3" using assms(2) OnceRunning by (simp add: shutdown_inv_def Let_def)
    then consider "k = 0" | "k = 1" | "k = 2" | "k = 3" by linarith
    then show ?thesis
    proof cases
      case 1
      show ?thesis by (rule goal, rule close_mark) (simp_all add: close_todo_def OnceRunning 1)
    next
      case 2
      show ?thesis by (rule goal, rule close_abort) (simp_all add: close_todo_def OnceRunning 2)
    next
      case 3
      show ?thesis by (rule goal, rule close_body) (simp_all add: close_todo_def OnceRunning 3)
    next
      case 4
      show ?thesis by (rule goal, rule close_release) (simp_all add: close_todo_def OnceRunning 4)
    qed
  qed (use assms in simp)
qed

lemma close_only_returns:
  assumes "j \<in> rs_waiting s" "shutdown_inv body_close s"
  shows "\<exists>t. (close_only body_close ^^ close_todo (rs_reader s)) s t
    \<and> CloseReturn j (body_close 0) \<in> set (rs_history t)"
  using assms
proof (induction "close_todo (rs_reader s)" arbitrary: s rule: less_induct)
  case less
  show ?case
  proof (cases "br_once (rs_reader s) = OnceDone")
    case True
    let ?t = "s\<lparr>rs_waiting := rs_waiting s - {j},
      rs_history := CloseReturn j (br_close_err (rs_reader s)) # rs_history s\<rparr>"
    have "close_only body_close s ?t"
      using close_return [OF less.prems(1) True] by (simp add: close_only_def)
    moreover have "br_close_err (rs_reader s) = body_close 0"
      using less.prems(2) True by (simp add: shutdown_inv_def Let_def)
    ultimately show ?thesis using True by (intro exI [of _ ?t]) (auto simp: close_todo_def)
  next
    case False
    from close_progress [OF less.prems False] obtain t where
      t: "close_only body_close s t" "j \<in> rs_waiting t"
        "close_todo (rs_reader s) = Suc (close_todo (rs_reader t))" by blast
    have "shutdown_inv body_close t"
      using t(1) less.prems(2) by (auto simp: close_only_def intro: shutdown_step)
    with less.hyps [of t] t(2,3) obtain u where
      "(close_only body_close ^^ close_todo (rs_reader t)) t u"
      "CloseReturn j (body_close 0) \<in> set (rs_history u)" by auto
    with t(1,3) show ?thesis
      by (metis relpowp_Suc_I2)
  qed
qed

section \<open>The methods run alone are runs of the system\<close>

lemma run_step:
  "(reader_step body_close)\<^sup>*\<^sup>* s t \<Longrightarrow> reader_step body_close t u \<Longrightarrow>
   (reader_step body_close)\<^sup>*\<^sup>* s u"
  by simp

lemma run_refl: "(reader_step body_close)\<^sup>*\<^sup>* s s"
  by simp

lemma Read_is_a_run:
  assumes "rs_read s = RIdle" "Read (rs_reader s) n = ((b, e), r)"
  shows "(reader_step body_close)\<^sup>*\<^sup>* s
    (s\<lparr>rs_reader := r,
       rs_history := ReadReturn (close_returned (rs_history s)) b e # rs_history s\<rparr>)"
proof (cases "br_closed (rs_reader s)")
  case True
  then show ?thesis using assms read_refused [of s body_close]
    by (auto simp: Read_def)
next
  case False
  obtain b' e' v where v: "verifying_read script_read (br_verifier (rs_reader s)) n = ((b', e'), v)"
    by (metis prod.collapse)
  define late where "late = close_returned (rs_history s)"
  define s1 where "s1 = s\<lparr>rs_read := RVerify late n\<rparr>"
  define s2 where "s2 = s1\<lparr>rs_reader := (rs_reader s1)\<lparr>br_verifier := v\<rparr>,
    rs_read := RVerified late b' e'\<rparr>"
  define s3 where "s3 = s2\<lparr>rs_read := RPassed late b' e'\<rparr>"
  define s4 where "s4 = s3\<lparr>rs_reader := (if e' \<noteq> None then release_once (rs_reader s3)
    else rs_reader s3), rs_read := RIdle, rs_history := ReadReturn late b' e' # rs_history s3\<rparr>"
  have "reader_step body_close s s1"
    unfolding s1_def late_def using assms(1) False by (rule read_begin)
  note r1 = run_step [OF run_refl this]
  have "verifying_read script_read (br_verifier (rs_reader s1)) n = ((b', e'), v)"
    using v by (simp add: s1_def)
  then have "reader_step body_close s1 s2"
    unfolding s2_def by (rule read_body [rotated]) (simp add: s1_def)
  note r2 = run_step [OF r1 this]
  have "reader_step body_close s2 s3"
    unfolding s3_def by (rule read_pass) (simp_all add: s1_def s2_def False)
  note r3 = run_step [OF r2 this]
  have "reader_step body_close s3 s4"
    unfolding s4_def by (rule read_return) (simp add: s3_def)
  note r4 = run_step [OF r3 this]
  have "b = b'" "e = e'"
    "r = (if e' \<noteq> None then release_once ((rs_reader s)\<lparr>br_verifier := v\<rparr>)
          else (rs_reader s)\<lparr>br_verifier := v\<rparr>)"
    using assms(2) v False by (auto simp: Read_def Let_def)
  then have "s4 = s\<lparr>rs_reader := r,
      rs_history := ReadReturn (close_returned (rs_history s)) b e # rs_history s\<rparr>"
    using assms(1)
    by (intro reader_sys.equality) (simp_all add: s1_def s2_def s3_def s4_def late_def)
  with r4 show ?thesis by simp
qed

lemma Close_free_run:
  assumes "j \<notin> rs_waiting s" and free: "br_once (rs_reader s) = OnceFree"
    and "Close body_close (rs_reader s) = (e, r)"
  shows "(reader_step body_close)\<^sup>*\<^sup>* s
    (s\<lparr>rs_reader := r, rs_history := CloseReturn j e # rs_history s\<rparr>)"
proof -
  define s1 where "s1 = s\<lparr>rs_waiting := insert j (rs_waiting s)\<rparr>"
  have call: "reader_step body_close s s1"
    unfolding s1_def using assms(1) by (rule close_call)
  have wait: "rs_waiting s1 - {j} = rs_waiting s" using assms(1) by (simp add: s1_def)
  define s2 where "s2 = s1\<lparr>rs_reader := (rs_reader s1)\<lparr>br_once := OnceRunning j 0\<rparr>\<rparr>"
  define s3 where "s3 = s2\<lparr>rs_reader := (rs_reader s2)\<lparr>br_closed := True,
    br_once := OnceRunning j 1\<rparr>\<rparr>"
  define s4 where "s4 = s3\<lparr>rs_reader := (rs_reader s3)\<lparr>
    br_aborts := Suc (br_aborts (rs_reader s3)), br_once := OnceRunning j 2\<rparr>\<rparr>"
  define s5 where "s5 = s4\<lparr>rs_reader := (rs_reader s4)\<lparr>
    br_close_err := body_close (br_body_closes (rs_reader s4)),
    br_body_closes := Suc (br_body_closes (rs_reader s4)), br_once := OnceRunning j 3\<rparr>\<rparr>"
  define s6 where "s6 = s5\<lparr>rs_reader := (release_once (rs_reader s5))\<lparr>br_once := OnceDone\<rparr>\<rparr>"
  define s7 where "s7 = s6\<lparr>rs_waiting := rs_waiting s6 - {j},
    rs_history := CloseReturn j (br_close_err (rs_reader s6)) # rs_history s6\<rparr>"
  note defs = s1_def s2_def s3_def s4_def s5_def s6_def
  have "reader_step body_close s1 s2"
    unfolding s2_def by (rule close_enter) (simp_all add: defs free)
  note r2 = run_step [OF run_step [OF run_refl call] this]
  have "reader_step body_close s2 s3"
    unfolding s3_def by (rule close_mark) (simp add: defs)
  note r3 = run_step [OF r2 this]
  have "reader_step body_close s3 s4"
    unfolding s4_def by (rule close_abort) (simp add: defs)
  note r4 = run_step [OF r3 this]
  have "reader_step body_close s4 s5"
    unfolding s5_def by (rule close_body) (simp add: defs)
  note r5 = run_step [OF r4 this]
  have "reader_step body_close s5 s6"
    unfolding s6_def by (rule close_release) (simp add: defs)
  note r6 = run_step [OF r5 this]
  have "reader_step body_close s6 s7"
    unfolding s7_def by (rule close_return) (simp_all add: defs)
  note r7 = run_step [OF r6 this]
  have "rs_reader s6 = r" "br_close_err r = e"
    using assms(3) free by (auto simp: Close_def Let_def defs release_once_def)
  then have "s7 = s\<lparr>rs_reader := r, rs_history := CloseReturn j e # rs_history s\<rparr>"
    using wait by (intro reader_sys.equality) (simp_all add: s7_def defs)
  with r7 show ?thesis by simp
qed

lemma Close_is_a_run:
  assumes "j \<notin> rs_waiting s" "\<And>i k. br_once (rs_reader s) \<noteq> OnceRunning i k"
    "Close body_close (rs_reader s) = (e, r)"
  shows "(reader_step body_close)\<^sup>*\<^sup>* s
    (s\<lparr>rs_reader := r, rs_history := CloseReturn j e # rs_history s\<rparr>)"
proof (cases "br_once (rs_reader s)")
  case OnceDone
  define s1 where "s1 = s\<lparr>rs_waiting := insert j (rs_waiting s)\<rparr>"
  have call: "reader_step body_close s s1"
    unfolding s1_def using assms(1) by (rule close_call)
  have "reader_step body_close s1 (s1\<lparr>rs_waiting := rs_waiting s1 - {j},
      rs_history := CloseReturn j (br_close_err (rs_reader s1)) # rs_history s1\<rparr>)"
    by (rule close_return) (simp_all add: s1_def OnceDone)
  note r2 = run_step [OF run_step [OF run_refl call] this]
  have "br_close_err (rs_reader s) = e" "rs_reader s = r"
    using assms(3) OnceDone by (auto simp: Close_def)
  then have "s1\<lparr>rs_waiting := rs_waiting s1 - {j},
      rs_history := CloseReturn j (br_close_err (rs_reader s1)) # rs_history s1\<rparr> =
    s\<lparr>rs_reader := r, rs_history := CloseReturn j e # rs_history s\<rparr>"
    using assms(1) by (intro reader_sys.equality) (simp_all add: s1_def)
  with r2 show ?thesis by simp
next
  case OnceFree
  from Close_free_run [OF assms(1) this assms(3)] show ?thesis .
qed (use assms(2) in simp)

section \<open>Properties\<close>

lemma run_reach:
  "(reader_step body_close)\<^sup>*\<^sup>* s t \<Longrightarrow> reader_reach body_close v s \<Longrightarrow> reader_reach body_close v t"
  by (induction rule: rtranclp_induct) (auto intro: reach_step)

lemmas Read_reach = run_reach [OF Read_is_a_run]
lemmas Close_reach = run_reach [OF Close_is_a_run]

lemma eof_verified_at:
  "eof_verified expected digest (h @ ReadReturn late b (Some EOF) # h') \<Longrightarrow>
   int (length (delivered h' @ b)) = expected \<and> sum256 (delivered h' @ b) = digest"
proof (induction h)
  case (Cons x h)
  then show ?case by (cases x) auto
qed simp

text \<open>
  A stream that reported \<open>io.EOF\<close> delivered exactly the committed blob: whatever the
  transport did, and however many goroutines called \<open>Close\<close> meanwhile, the bytes all reads
  returned up to and including the one that returned \<open>io.EOF\<close> have the manifest's size and
  its SHA-256.
\<close>

lemma eof_means_verified:
  assumes "0 \<le> expected"
    and "reader_reach body_close (newVerifyingBlobReader body expected digest) s"
    and "rs_history s = h @ ReadReturn late b (Some EOF) # h'"
  shows "int (length (delivered h' @ b)) = expected \<and> sum256 (delivered h' @ b) = digest"
proof (rule eof_verified_at)
  show "eof_verified expected digest (h @ ReadReturn late b (Some EOF) # h')"
    using reach_read_inv [OF assms(1,2)] assms(3) by (simp add: read_inv_def Let_def)
qed

lemma empty_blob_reads_eof:
  "Read (newBlobReader (newVerifyingBlobReader [] 0 (sum256 []))) n =
     (([], Some EOF), release_once ((newBlobReader (newVerifyingBlobReader [] 0 (sum256 [])))
        \<lparr>br_verifier := (newVerifyingBlobReader [] 0 (sum256 []))\<lparr>ver_terminal := Some EOF\<rparr>\<rparr>))"
  if "0 < n"
  using that by (simp add: Read_def newBlobReader_def newVerifyingBlobReader_def verifying_read_def
      verifying_finish_cases Let_def)

lemma eof_means_verified_witness:
  "\<exists>s. reader_reach (\<lambda>_. None) (newVerifyingBlobReader [] 0 (sum256 [])) s
     \<and> rs_history s = [ReadReturn False [] (Some EOF)]
     \<and> int (length (delivered [] @ [])) = 0 \<and> sum256 (delivered [] @ []) = sum256 []"
proof -
  let ?v = "newVerifyingBlobReader [] 0 (sum256 []) :: script verifying"
  obtain s where s: "reader_reach (\<lambda>_. None) ?v s"
    "rs_history s = [ReadReturn False [] (Some EOF)]"
    using Read_reach [OF _ _ reach_init, of ?v 1 "[]" "Some EOF"] empty_blob_reads_eof [of 1]
    by (force simp: reader_init_def)
  with eof_means_verified [OF _ s(1), of "[]" False "[]" "[]"] show ?thesis by auto
qed

text \<open>
  C16. Once a \<open>Close\<close> has returned, every \<open>Read\<close> called after it returns no bytes and the
  closed error, never \<open>io.EOF\<close>, for every interleaving of the goroutines.
\<close>

theorem no_read_after_close:
  assumes "0 \<le> expected"
    and "reader_reach body_close (newVerifyingBlobReader body expected digest) s"
    and "ReadReturn True b e \<in> set (rs_history s)"
  shows "b = [] \<and> e = Some BlobReaderClosedError"
  using reach_read_inv [OF assms(1,2)] assms(3) by (auto simp: read_inv_def Let_def)

lemma no_read_after_close_witness:
  "\<exists>s e. reader_reach (\<lambda>_. None) (newVerifyingBlobReader [([1], None)] 1 (sum256 [1])) s
     \<and> ReadReturn True [] e \<in> set (rs_history s) \<and> e = Some BlobReaderClosedError"
proof -
  let ?v = "newVerifyingBlobReader [([1], None)] 1 (sum256 [1])"
  define s0 where "s0 = reader_init ?v"
  define r where "r = snd (Close (\<lambda>_. None) (rs_reader s0))"
  define s1 where "s1 = s0\<lparr>rs_reader := r, rs_history := CloseReturn 0 None # rs_history s0\<rparr>"
  have "Close (\<lambda>_. None) (rs_reader s0) = (None, r)"
    by (simp add: r_def Close_def Let_def s0_def reader_init_def newBlobReader_def)
  then have s1: "reader_reach (\<lambda>_. None) ?v s1"
    unfolding s1_def
    by (rule Close_reach [rotated 2])
      (simp_all add: s0_def reader_init_def newBlobReader_def
        reach_init [unfolded reader_init_def newBlobReader_def])
  have "br_closed (rs_reader s1)"
    by (simp add: s1_def r_def Close_def Let_def s0_def reader_init_def newBlobReader_def)
  then have "Read (rs_reader s1) 1 = (([], Some BlobReaderClosedError), rs_reader s1)"
    by (simp add: Read_def)
  from Read_reach [OF _ this s1] obtain s2 where s2: "reader_reach (\<lambda>_. None) ?v s2"
    "rs_history s2 = ReadReturn True [] (Some BlobReaderClosedError) # rs_history s1"
    by (simp add: s1_def s0_def reader_init_def)
  then have "ReadReturn True [] (Some BlobReaderClosedError) \<in> set (rs_history s2)" by simp
  from no_read_after_close [OF _ s2(1) this] this s2(1) show ?thesis by blast
qed

text \<open>
  C17. The shutdown contract of \<open>Close\<close>: over every interleaving the request is aborted, the
  body closed and the transfer slot released at most once each; every \<open>Close\<close> returns the one
  error the body's first close gave; and once any \<open>Close\<close> has returned all three have been done.
\<close>

theorem close_once_latched:
  assumes "reader_reach body_close v s"
  shows "br_aborts (rs_reader s) \<le> 1 \<and> br_body_closes (rs_reader s) \<le> 1
    \<and> br_releases (rs_reader s) \<le> 1
    \<and> (\<forall>j e. CloseReturn j e \<in> set (rs_history s) \<longrightarrow>
          e = body_close 0 \<and> br_closed (rs_reader s) \<and> br_aborts (rs_reader s) = 1
          \<and> br_body_closes (rs_reader s) = 1 \<and> br_releases (rs_reader s) = 1)"
proof -
  from reach_shutdown [OF assms] have inv: "shutdown_inv body_close s" .
  moreover have "CloseReturn j e \<in> set (rs_history s) \<Longrightarrow> br_once (rs_reader s) = OnceDone" for j e
    using inv by (auto simp: shutdown_inv_def Let_def close_returned_def)
  ultimately show ?thesis
    by (auto simp: shutdown_inv_def Let_def)
qed

lemma close_once_latched_witness:
  "\<exists>s. CloseReturn 4 (Some EOF) \<in> set (rs_history s) \<and> br_releases (rs_reader s) = 1
     \<and> reader_reach (\<lambda>_. Some EOF) (newVerifyingBlobReader [] 0 []) s"
proof -
  let ?bc = "\<lambda>_. Some EOF" and ?v = "newVerifyingBlobReader [] 0 []"
  define r where "r = snd (Close ?bc (newBlobReader ?v))"
  have r: "Close ?bc (newBlobReader ?v) = (Some EOF, r)"
    by (simp add: r_def Close_def Let_def newBlobReader_def)
  obtain s where s: "reader_reach ?bc ?v s" "CloseReturn 4 (Some EOF) \<in> set (rs_history s)"
    using Close_reach [of 4 "reader_init ?v" ?bc "Some EOF" r, OF _ _ _ reach_init] r
    by (force simp: reader_init_def newBlobReader_def)
  from close_once_latched [OF s(1)] s show ?thesis by blast
qed


definition stalled :: "reader_sys" where
  "stalled = (reader_init (newVerifyingBlobReader [([7], None)] 1 []))
     \<lparr>rs_read := RVerify False 4, rs_waiting := {9}\<rparr>"

lemma stalled_reach: "reader_reach (\<lambda>_. None) (newVerifyingBlobReader [([7], None)] 1 []) stalled"
proof -
  let ?v = "newVerifyingBlobReader [([7], None)] 1 []"
  define s where "s = (reader_init ?v)\<lparr>rs_read := RVerify False 4\<rparr>"
  have "reader_step (\<lambda>_. None) (reader_init ?v)
    ((reader_init ?v)\<lparr>rs_read := RVerify (close_returned (rs_history (reader_init ?v))) 4\<rparr>)"
    by (rule read_begin) (simp_all add: reader_init_def newBlobReader_def)
  then have "reader_step (\<lambda>_. None) (reader_init ?v) s"
    by (simp add: s_def reader_init_def)
  moreover have "reader_step (\<lambda>_. None) s (s\<lparr>rs_waiting := insert 9 (rs_waiting s)\<rparr>)"
    by (rule close_call) (simp add: s_def reader_init_def)
  ultimately show ?thesis
    using reach_step [OF reach_step [OF reach_init]]
    by (fastforce simp: stalled_def s_def reader_init_def)
qed


text \<open>
  C40. What the code does not promise: a \<open>Read\<close> that was in flight when \<open>Close\<close> began can
  still return bytes, even after that \<open>Close\<close> returned, because its second look at the flag
  may come first. The bytes are those of the body, so nothing unverified is claimed by it.
\<close>

theorem read_in_flight_can_outlive_close:
  assumes "verifying_read script_read v n = ((b, None), v')"
  shows "\<exists>s. reader_reach body_close v s
    \<and> rs_history s = [ReadReturn False b None, CloseReturn j (body_close 0)]"
proof -
  let ?s0 = "reader_init v"
  define r0 where "r0 = (newBlobReader v)\<lparr>br_verifier := v'\<rparr>"
  define s1 where "s1 = ?s0\<lparr>rs_read := RVerify False n\<rparr>"
  define s2 where "s2 = s1\<lparr>rs_reader := r0, rs_read := RVerified False b None\<rparr>"
  define s3 where "s3 = s2\<lparr>rs_read := RPassed False b None\<rparr>"
  define r1 where "r1 = snd (Close body_close r0)"
  define s4 where "s4 = s3\<lparr>rs_reader := r1, rs_history := [CloseReturn j (body_close 0)]\<rparr>"
  have "reader_step body_close ?s0 (?s0\<lparr>rs_read := RVerify (close_returned (rs_history ?s0)) n\<rparr>)"
    by (rule read_begin) (simp_all add: reader_init_def newBlobReader_def)
  from reach_step [OF reach_init this] have r1: "reader_reach body_close v s1"
    by (simp add: s1_def reader_init_def)
  have "reader_step body_close s1 (s1\<lparr>rs_reader := (rs_reader s1)\<lparr>br_verifier := v'\<rparr>,
      rs_read := RVerified False b None\<rparr>)"
    by (rule read_body [where late = False and n = n])
      (simp_all add: s1_def reader_init_def newBlobReader_def assms)
  from reach_step [OF r1 this] have r2: "reader_reach body_close v s2"
    by (simp add: s1_def s2_def r0_def reader_init_def)
  have "reader_step body_close s2 s3"
    unfolding s3_def
    by (rule read_pass) (simp_all add: s2_def r0_def newBlobReader_def)
  note r3 = reach_step [OF r2 this]
  have "Close body_close (rs_reader s3) = (body_close 0, r1)"
    by (simp add: r1_def Close_def Let_def s3_def s2_def r0_def newBlobReader_def)
  from Close_reach [OF _ _ this r3, of j] have r4: "reader_reach body_close v s4"
    by (simp add: s4_def s3_def s2_def s1_def r0_def reader_init_def newBlobReader_def)
  have "reader_step body_close s4
      (s4\<lparr>rs_reader := (if None \<noteq> (None :: err option) then release_once (rs_reader s4)
         else rs_reader s4), rs_read := RIdle,
       rs_history := ReadReturn False b None # rs_history s4\<rparr>)"
    by (rule read_return) (simp add: s4_def s3_def)
  from reach_step [OF r4 this] show ?thesis by (force simp: s4_def)
qed

lemma read_in_flight_can_outlive_close_witness:
  "\<exists>s. reader_reach (\<lambda>_. None) (newVerifyingBlobReader [([5], None)] 2 []) s
     \<and> rs_history s = [ReadReturn False [5] None, CloseReturn 0 None]"
proof -
  have "verifying_read script_read (newVerifyingBlobReader [([5], None)] 2 []) 1 =
    (([5], None), (newVerifyingBlobReader [] 2 [])\<lparr>ver_read := 1, ver_hash := [5]\<rparr>)"
    by (simp add: verifying_read_def newVerifyingBlobReader_def clip_def verifying_absorb_def Let_def)
  from read_in_flight_can_outlive_close [OF this] show ?thesis by blast
qed

end
