(* ===== verification/Blob.thy ===== *)
theory Blob
  imports Store Manifest BlobReader
begin

text \<open>
  blob.go: \<open>Put\<close>, \<open>Get\<close>, \<open>Delete\<close> and \<open>List\<close> with every helper, as programs over the commands
  of \<open>Sdk\<close>, in the code's order; a deferred call is run where the function returns, last deferred
  first. \<open>vn\<close> is \<open>storage.ValidateName\<close>. A response body is a value: reading and closing it is
  not a command, but what its reads and its \<open>Close\<close> give decides the outcome.
\<close>

section \<open>Shared pieces\<close>

definition verificationRangeBytes :: int where
  [limits]: "verificationRangeBytes = 2 ^ 20"

definition listPageSize :: int where
  [limits]: "listPageSize = 1000"

definition st_prefix :: "store \<Rightarrow> string" where
  "st_prefix s = ro_deploymentPrefix (st_options s)"

definition object_at :: "store \<Rightarrow> string \<Rightarrow> object_input" where
  "object_at s key = \<lparr>oi_bucket = ro_bucket (st_options s), oi_key = key\<rparr>"

text \<open>\<open>if ctx.Err() != nil { return ctx.Err() }; return e\<close>.\<close>

definition ctx_or :: "ctx \<Rightarrow> err \<Rightarrow> err prog" where
  "ctx_or c e = pbind (ctx_Err c) (\<lambda>x. Ret (case x of Some ce \<Rightarrow> ce | None \<Rightarrow> e))"

definition byte_range :: "int \<Rightarrow> int \<Rightarrow> string" where
  "byte_range lo hi = ''bytes='' @ itoa lo @ ''-'' @ itoa hi"

definition manifestsMatch :: "blob_manifest \<Rightarrow> blob_manifest \<Rightarrow> bool" where
  "manifestsMatch left right \<longleftrightarrow> LogicalKey left = LogicalKey right \<and> Size left = Size right
     \<and> equalDigest (Digest left) (Digest right)"

definition deletePayloadBestEffort :: "store \<Rightarrow> ctx \<Rightarrow> string \<Rightarrow> unit prog" where
  "deletePayloadBestEffort s c payloadKey =
     call (DeleteObject c (object_at s payloadKey)) (\<lambda>_. ())"

text \<open>\<open>newPayloadObjectKey\<close> with its draw of 16 random bytes, made after the two name checks.\<close>

definition draw_payload_key :: "name_validator \<Rightarrow> store \<Rightarrow> string \<Rightarrow> string result prog" where
  "draw_payload_key vn s key =
     (if vn (st_prefix s) = None \<and> vn key = None
      then call (RandRead 16) (\<lambda>r. newPayloadObjectKey vn (as_rand r) (st_prefix s) key)
      else Ret (newPayloadObjectKey vn None (st_prefix s) key))"

section \<open>Reading a manifest\<close>

definition manifestCandidates :: "name_validator \<Rightarrow> string \<Rightarrow> string \<Rightarrow> string list result" where
  "manifestCandidates vn deploymentPrefix key =
     ebind (manifestObjectKey vn deploymentPrefix key) (\<lambda>current.
       case legacyManifestObjectKey deploymentPrefix key of
         Some legacy \<Rightarrow> Inr [current, legacy]
       | None \<Rightarrow> Inr [current])"

definition manifest_range :: "store \<Rightarrow> string \<Rightarrow> int \<Rightarrow> head_output \<Rightarrow> get_input" where
  "manifest_range s objectKey len head =
     \<lparr>gi_bucket = ro_bucket (st_options s), gi_key = objectKey,
      gi_range = Some (byte_range 0 (len - 1)), gi_if_match = ho_etag head\<rparr>"

text \<open>What is checked of the ranged response and of the manifest decoded from it.\<close>

definition accept_manifest ::
    "name_validator \<Rightarrow> store \<Rightarrow> string \<Rightarrow> int \<Rightarrow> get_output \<Rightarrow> blob_manifest result" where
  "accept_manifest vn s logicalKey len out =
     (case go_body out of
        None \<Rightarrow> Inl (integrityError ''manifest range'')
      | Some b \<Rightarrow>
          (if go_length out \<noteq> Some len then Inl (integrityError ''manifest range'')
           else ebind (decodeManifest vn (bd_script b) len) (\<lambda>manifest.
             if bd_close b \<noteq> None then Inl (BackendError ''manifest body close'')
             else if LogicalKey manifest \<noteq> logicalKey
               \<or> \<not> payloadObjectKeyMatches (st_prefix s) logicalKey (PayloadKey manifest)
             then Inl (integrityError ''manifest binding'')
             else Inr manifest)))"

definition get_manifest ::
    "name_validator \<Rightarrow> store \<Rightarrow> ctx \<Rightarrow> string \<Rightarrow> string \<Rightarrow> int \<Rightarrow> head_output \<Rightarrow> blob_manifest result prog"
  where
  "get_manifest vn s c objectKey logicalKey len head =
     pbind (call (GetObject c (manifest_range s objectKey len head)) as_get) (\<lambda>out.
       case out of
         Inl e \<Rightarrow>
           (if isHTTPStatus e 404 then Ret (Inl (integrityError ''manifest vanished after head''))
            else pbind (ctx_or c (BackendError ''manifest get'')) (\<lambda>x. Ret (Inl x)))
       | Inr response \<Rightarrow> Ret (accept_manifest vn s logicalKey len response))"

definition readManifestAt ::
    "name_validator \<Rightarrow> store \<Rightarrow> ctx \<Rightarrow> string \<Rightarrow> string \<Rightarrow> bool \<Rightarrow> blob_manifest result prog" where
  "readManifestAt vn s c objectKey logicalKey legacy =
     pbind (call (HeadObject c (object_at s objectKey)) as_head) (\<lambda>h.
       case h of
         Inl e \<Rightarrow>
           (if isHTTPStatus e 404 \<or> (legacy \<and> isHTTPStatus e 400)
            then Ret (Inl (BlobNotFoundError logicalKey))
            else pbind (ctx_or c (BackendError ''manifest head'')) (\<lambda>x. Ret (Inl x)))
       | Inr head \<Rightarrow>
           (case ho_length head of
              None \<Rightarrow> Ret (Inl (integrityError ''manifest head''))
            | Some len \<Rightarrow>
                (if len < int manifestHeaderBytes \<or> int maxManifestBytes < len
                 then Ret (Inl (integrityError ''manifest head''))
                 else get_manifest vn s c objectKey logicalKey len head)))"

definition readManifest ::
    "name_validator \<Rightarrow> store \<Rightarrow> ctx \<Rightarrow> string \<Rightarrow> string \<Rightarrow> blob_manifest result prog" where
  "readManifest vn s c objectKey logicalKey = readManifestAt vn s c objectKey logicalKey False"

definition readLegacyManifest ::
    "name_validator \<Rightarrow> store \<Rightarrow> ctx \<Rightarrow> string \<Rightarrow> string \<Rightarrow> blob_manifest result prog" where
  "readLegacyManifest vn s c objectKey logicalKey = readManifestAt vn s c objectKey logicalKey True"

text \<open>\<open>errors.As(err, &notFound)\<close>.\<close>

definition is_not_found :: "err \<Rightarrow> bool" where
  "is_not_found e \<longleftrightarrow> errors_as as_not_found e \<noteq> None"

text \<open>The loop of \<open>locateManifest\<close>: \<open>legacy\<close> is \<open>index > 0\<close>, \<open>lastErr\<close> the last not-found.\<close>

fun locate_in ::
    "name_validator \<Rightarrow> store \<Rightarrow> ctx \<Rightarrow> string \<Rightarrow> bool \<Rightarrow> err \<Rightarrow> string list
      \<Rightarrow> (string \<times> blob_manifest) result prog" where
  "locate_in vn s c key legacy lastErr [] = Ret (Inl lastErr)"
| "locate_in vn s c key legacy lastErr (manifestKey # rest) =
     pbind (readManifestAt vn s c manifestKey key legacy) (\<lambda>r.
       case r of
         Inr manifest \<Rightarrow> Ret (Inr (manifestKey, manifest))
       | Inl e \<Rightarrow> (if \<not> is_not_found e then Ret (Inl e)
                   else locate_in vn s c key True e rest))"

definition locateManifest ::
    "name_validator \<Rightarrow> store \<Rightarrow> ctx \<Rightarrow> string \<Rightarrow> (string \<times> blob_manifest) result prog" where
  "locateManifest vn s c key =
     (case manifestCandidates vn (st_prefix s) key of
        Inl e \<Rightarrow> Ret (Inl e)
      | Inr candidates \<Rightarrow> locate_in vn s c key False (BlobNotFoundError key) candidates)"

section \<open>Verifying a staged payload\<close>

definition payload_range :: "store \<Rightarrow> string \<Rightarrow> int \<Rightarrow> int \<Rightarrow> string option \<Rightarrow> get_input" where
  "payload_range s key lo hi etag =
     \<lparr>gi_bucket = ro_bucket (st_options s), gi_key = key,
      gi_range = Some (byte_range lo hi), gi_if_match = etag\<rparr>"

text \<open>\<open>io.CopyN\<close> into the hash, the one-byte probe and \<open>Close\<close>: the bytes hashed.\<close>

definition copy_range :: "get_output \<Rightarrow> int \<Rightarrow> bytes result" where
  "copy_range out expected =
     (case go_body out of
        None \<Rightarrow> Inl (integrityError ''payload verification range length'')
      | Some b \<Rightarrow>
          (if go_length out \<noteq> Some expected
           then Inl (integrityError ''payload verification range length'')
           else case copy_n (bd_script b) (nat expected) of
             ((written, copyErr), rest) \<Rightarrow>
               (case script_read rest 1 of
                  ((extra, probeErr), rest') \<Rightarrow>
                    (if copyErr \<noteq> None \<or> int (length written) \<noteq> expected \<or> extra \<noteq> []
                       \<or> (probeErr \<noteq> None \<and> probeErr \<noteq> Some EOF)
                     then Inl (integrityError ''payload verification range body'')
                     else if bd_close b \<noteq> None
                     then Inl (BackendError ''payload verification body close'')
                     else Inr written))))"

function verify_ranges ::
    "store \<Rightarrow> ctx \<Rightarrow> string \<Rightarrow> int \<Rightarrow> bytes \<Rightarrow> string option \<Rightarrow> int \<Rightarrow> bytes \<Rightarrow> err option prog"
  where
  "verify_ranges s c key sz digest etag offset hashed =
     (if offset < sz then
        (let stop = min (offset + verificationRangeBytes - 1) (sz - 1);
             expected = stop - offset + 1
         in pbind (call (GetObject c (payload_range s key offset stop etag)) as_get) (\<lambda>out.
              case out of
                Inl e \<Rightarrow> pbind (ctx_or c (BackendError ''payload verification range''))
                           (\<lambda>x. Ret (Some x))
              | Inr response \<Rightarrow>
                  (case copy_range response expected of
                     Inl e \<Rightarrow> Ret (Some e)
                   | Inr written \<Rightarrow>
                       verify_ranges s c key sz digest etag (offset + verificationRangeBytes)
                         (hashed @ written))))
      else if \<not> equalDigest (sum256 hashed) digest
      then Ret (Some (integrityError ''payload verification digest''))
      else Ret None)"
  by pat_completeness auto
termination
  by (relation "measure (\<lambda>(s, c, key, sz, digest, etag, offset, hashed). nat (sz - offset))")
    (auto simp: verificationRangeBytes_def)

declare verify_ranges.simps [simp del]

definition verifyPayload :: "store \<Rightarrow> ctx \<Rightarrow> string \<Rightarrow> int \<Rightarrow> bytes \<Rightarrow> err option prog" where
  "verifyPayload s c key sz digest =
     pbind (call (HeadObject c (object_at s key)) as_head) (\<lambda>h.
       case h of
         Inl e \<Rightarrow> pbind (ctx_or c (BackendError ''payload verification head'')) (\<lambda>x. Ret (Some x))
       | Inr head \<Rightarrow>
           (if ho_length head \<noteq> Some sz
            then Ret (Some (integrityError ''payload verification length''))
            else verify_ranges s c key sz digest (ho_etag head) 0 []))"

section \<open>Put\<close>

text \<open>The pair \<open>(settled, err)\<close>.\<close>

definition settleAgainstLegacyManifest ::
    "name_validator \<Rightarrow> store \<Rightarrow> ctx \<Rightarrow> string \<Rightarrow> blob_manifest \<Rightarrow> (bool \<times> err option) prog" where
  "settleAgainstLegacyManifest vn s c key manifest =
     (case legacyManifestObjectKey (st_prefix s) key of
        None \<Rightarrow> Ret (False, None)
      | Some legacyKey \<Rightarrow>
          pbind (readLegacyManifest vn s c legacyKey key) (\<lambda>r.
            case r of
              Inl e \<Rightarrow> Ret (if is_not_found e then (False, None) else (True, Some e))
            | Inr existing \<Rightarrow>
                Ret (True, if manifestsMatch existing manifest then None
                           else Some (BlobConflictError key))))"

definition publishManifest :: "store \<Rightarrow> ctx \<Rightarrow> string \<Rightarrow> bytes \<Rightarrow> (bool \<times> err option) prog" where
  "publishManifest s c key encoded =
     (let input = applyEncryption s
            \<lparr>pi_bucket = ro_bucket (st_options s), pi_key = key, pi_body = encoded,
             pi_length = int (length encoded), pi_if_none_match = Some ''*'',
             pi_sse = None, pi_kms = None\<rparr>
      in call (PutObject c input) (\<lambda>r. (as_err r = None, as_err r)))"

text \<open>
  The rest of \<open>Put\<close> from \<open>cleanupSafe = false\<close> on. The result is the error and the value
  \<open>cleanupSafe\<close> has when the function returns. Both ends that read the manifest again differ
  only in the operation their error names.
\<close>

definition resolve_publish ::
    "name_validator \<Rightarrow> store \<Rightarrow> ctx \<Rightarrow> string \<Rightarrow> string \<Rightarrow> string \<Rightarrow> blob_manifest \<Rightarrow> string
      \<Rightarrow> (err option \<times> bool) prog" where
  "resolve_publish vn s c key manifestKey payloadKey manifest operation =
     pbind (readManifest vn s c manifestKey key) (\<lambda>g.
       case g of
         Inr existing \<Rightarrow>
           Ret (if manifestsMatch existing manifest then None else Some (BlobConflictError key),
                PayloadKey existing \<noteq> payloadKey)
       | Inl e \<Rightarrow>
           pbind (ctx_or c (BackendError operation)) (\<lambda>x. Ret (Some x, False)))"

definition put_publish ::
    "name_validator \<Rightarrow> store \<Rightarrow> ctx \<Rightarrow> string \<Rightarrow> string \<Rightarrow> string \<Rightarrow> blob_manifest \<Rightarrow> bytes
      \<Rightarrow> (err option \<times> bool) prog" where
  "put_publish vn s c key manifestKey payloadKey manifest encoded =
     pbind (publishManifest s c manifestKey encoded) (\<lambda>(created, publishErr).
       case publishErr of
         None \<Rightarrow>
           (if created then Ret (None, False)
            else resolve_publish vn s c key manifestKey payloadKey manifest
                   ''manifest conflict resolution'')
       | Some e \<Rightarrow>
           resolve_publish vn s c key manifestKey payloadKey manifest
             (if \<not> isConditionalConflict e then ''manifest publish''
              else ''manifest conflict resolution''))"

text \<open>From the committed upload to publication: \<open>cleanupSafe\<close> is true throughout.\<close>

definition put_uploaded ::
    "name_validator \<Rightarrow> store \<Rightarrow> ctx \<Rightarrow> string \<Rightarrow> string \<Rightarrow> string \<Rightarrow> int option \<Rightarrow> int \<Rightarrow> bytes
      \<Rightarrow> (err option \<times> bool) prog" where
  "put_uploaded vn s c key manifestKey payloadKey uploadedLength sz digest =
     (if uploadedLength \<noteq> Some sz then Ret (Some (integrityError ''upload length''), True)
      else pbind (verifyPayload s c payloadKey sz digest) (\<lambda>v.
        case v of
          Some e \<Rightarrow> Ret (Some e, True)
        | None \<Rightarrow>
            (let manifest =
                   \<lparr>LogicalKey = key, PayloadKey = payloadKey, Size = sz, Digest = digest\<rparr>
             in case encodeManifest vn manifest of
                  Inl e \<Rightarrow> Ret (Some e, True)
                | Inr encoded \<Rightarrow>
                    pbind (settleAgainstLegacyManifest vn s c key manifest) (\<lambda>(settled, e).
                      if settled \<or> e \<noteq> None then Ret (e, True)
                      else put_publish vn s c key manifestKey payloadKey manifest encoded))))"

definition upload_of :: "store \<Rightarrow> string \<Rightarrow> script \<Rightarrow> upload_input" where
  "upload_of s payloadKey source =
     applyTransferEncryption s
       \<lparr>ui_bucket = ro_bucket (st_options s), ui_key = payloadKey,
        ui_body = newAccountedHashReader source (ro_maxAccountedObjectSize (st_options s)),
        ui_if_none_match = Some ''*'', ui_sse = None, ui_kms = None\<rparr>"

text \<open>The accounting reader after the transfer manager read it with buffers of lengths \<open>ns\<close>.\<close>

definition read_by_upload :: "upload_input \<Rightarrow> nat list \<Rightarrow> script accounted" where
  "read_by_upload input ns = snd (read_seq (accounted_read script_read) (ui_body input) ns)"

definition put_staged ::
    "name_validator \<Rightarrow> store \<Rightarrow> ctx \<Rightarrow> string \<Rightarrow> string \<Rightarrow> string \<Rightarrow> script
      \<Rightarrow> (err option \<times> bool) prog" where
  "put_staged vn s c key manifestKey payloadKey source =
     (let input = upload_of s payloadKey source
      in pbind (call (UploadObject c input) as_upload) (\<lambda>(uploaded, ns).
           case uploaded of
             Inl e \<Rightarrow>
               (case errors_as as_too_large e of
                  Some m \<Rightarrow> Ret (Some (ObjectTooLargeError m), False)
                | None \<Rightarrow>
                    pbind (ctx_or c (BackendError ''payload upload'')) (\<lambda>x. Ret (Some x, False)))
           | Inr uploadedLength \<Rightarrow>
               (let accounted = read_by_upload input ns
                in put_uploaded vn s c key manifestKey payloadKey uploadedLength
                     (acc_size accounted) (fst (accounted_digest accounted)))))"

text \<open>The deferred cleanup.\<close>

definition put_cleanup :: "store \<Rightarrow> ctx \<Rightarrow> string \<Rightarrow> bool \<Rightarrow> unit prog" where
  "put_cleanup s c payloadKey cleanupSafe =
     (if cleanupSafe
      then pbind (ctx_Err c) (\<lambda>e.
             if e = None then deletePayloadBestEffort s c payloadKey else Ret ())
      else Ret ())"

text \<open>What runs while the transfer slot is held.\<close>

definition put_holding ::
    "name_validator \<Rightarrow> store \<Rightarrow> ctx \<Rightarrow> string \<Rightarrow> script \<Rightarrow> err option prog" where
  "put_holding vn s c key source =
     (case manifestObjectKey vn (st_prefix s) key of
        Inl e \<Rightarrow> Ret (Some e)
      | Inr manifestKey \<Rightarrow>
          pbind (draw_payload_key vn s key) (\<lambda>p.
            case p of
              Inl e \<Rightarrow> Ret (Some e)
            | Inr payloadKey \<Rightarrow>
                pbind (put_staged vn s c key manifestKey payloadKey source) (\<lambda>(e, cleanupSafe).
                  pbind (put_cleanup s c payloadKey cleanupSafe) (\<lambda>_. Ret e))))"

definition put_bounded ::
    "name_validator \<Rightarrow> store \<Rightarrow> ctx \<Rightarrow> string \<Rightarrow> script option \<Rightarrow> err option prog" where
  "put_bounded vn s c key source =
     (case validateBlobKey vn key of
        Some e \<Rightarrow> Ret (Some e)
      | None \<Rightarrow>
          (case source of
             None \<Rightarrow> Ret (Some (BackendError ''upload source''))
           | Some src \<Rightarrow>
               pbind (acquireTransfer s c ''Blobs.Put'') (\<lambda>a.
                 case a of
                   Some e \<Rightarrow> Ret (Some e)
                 | None \<Rightarrow> pbind (put_holding vn s c key src) (\<lambda>e.
                             pbind releaseTransfer (\<lambda>_. Ret e)))))"

text \<open>A nil source is \<open>None\<close>.\<close>

definition Put ::
    "name_validator \<Rightarrow> store \<Rightarrow> ctx option \<Rightarrow> string \<Rightarrow> script option \<Rightarrow> err option prog" where
  "Put vn s ctx key source =
     pbind (guard_bound ctx ''Blobs.Put'' (ro_operationTimeout (st_options s))) (\<lambda>b.
       case b of
         Inl e \<Rightarrow> Ret (Some e)
       | Inr (c, cancelFn) \<Rightarrow>
           pbind (put_bounded vn s c key source) (\<lambda>e. pbind (cancel cancelFn) (\<lambda>_. Ret e)))"

section \<open>Get\<close>

text \<open>The stream: its reader, and the two functions the reader was built with.\<close>

record get_stream =
  gs_reader :: blob_reader
  gs_abort :: "unit prog"
  gs_release :: "unit prog"

definition checked_stream ::
    "blob_manifest \<Rightarrow> get_output \<Rightarrow> blob_reader option" where
  "checked_stream manifest out =
     (case go_body out of
        None \<Rightarrow> None
      | Some b \<Rightarrow>
          (if go_length out \<noteq> Some (Size manifest) then None
           else Some (newBlobReader
                  (newVerifyingBlobReader (bd_script b) (Size manifest) (Digest manifest)))))"

text \<open>The payload request on its own cancelable context, \<open>i\<close> that context's identity.\<close>

definition get_payload ::
    "store \<Rightarrow> ctx \<Rightarrow> nat option \<Rightarrow> blob_manifest \<Rightarrow> nat \<Rightarrow> get_stream result prog" where
  "get_payload s c cancelBound manifest i =
     pbind (call (GetObject (with_cancel i c)
              \<lparr>gi_bucket = ro_bucket (st_options s), gi_key = PayloadKey manifest,
               gi_range = None, gi_if_match = None\<rparr>) as_get) (\<lambda>out.
       case out of
         Inl e \<Rightarrow>
           pbind (cancel (Some i)) (\<lambda>_.
             if isHTTPStatus e 404 then Ret (Inl (integrityError ''payload lookup''))
             else pbind (ctx_or c (BackendError ''payload get'')) (\<lambda>x. Ret (Inl x)))
       | Inr response \<Rightarrow>
           (case checked_stream manifest response of
              None \<Rightarrow> pbind (cancel (Some i)) (\<lambda>_. Ret (Inl (integrityError ''payload head'')))
            | Some reader \<Rightarrow>
                Ret (Inr \<lparr>gs_reader = reader,
                  gs_abort = pbind (cancel (Some i)) (\<lambda>_. cancel cancelBound),
                  gs_release = pbind releaseTransfer (\<lambda>_. cancel cancelBound)\<rparr>)))"

text \<open>Deferred: the slot is released unless a stream was handed off.\<close>

definition get_holding ::
    "name_validator \<Rightarrow> store \<Rightarrow> ctx \<Rightarrow> nat option \<Rightarrow> string \<Rightarrow> get_stream result prog" where
  "get_holding vn s c cancelBound key =
     pbind (locateManifest vn s c key) (\<lambda>l.
       case l of
         Inl e \<Rightarrow> Ret (Inl e)
       | Inr (manifestKey, manifest) \<Rightarrow>
           pbind (call Fresh (\<lambda>r. snd (as_fresh r))) (\<lambda>i. get_payload s c cancelBound manifest i))"

definition get_bounded ::
    "name_validator \<Rightarrow> store \<Rightarrow> ctx \<Rightarrow> nat option \<Rightarrow> string \<Rightarrow> get_stream result prog" where
  "get_bounded vn s c cancelBound key =
     (case validateBlobKey vn key of
        Some e \<Rightarrow> Ret (Inl e)
      | None \<Rightarrow>
          pbind (acquireTransfer s c ''Blobs.Get'') (\<lambda>a.
            case a of
              Some e \<Rightarrow> Ret (Inl e)
            | None \<Rightarrow>
                pbind (get_holding vn s c cancelBound key) (\<lambda>g.
                  case g of
                    Inr stream \<Rightarrow> Ret (Inr stream)
                  | Inl e \<Rightarrow> pbind releaseTransfer (\<lambda>_. Ret (Inl e)))))"

definition Get ::
    "name_validator \<Rightarrow> store \<Rightarrow> ctx option \<Rightarrow> string \<Rightarrow> get_stream result prog" where
  "Get vn s ctx key =
     pbind (guard_bound ctx ''Blobs.Get'' (ro_operationTimeout (st_options s))) (\<lambda>b.
       case b of
         Inl e \<Rightarrow> Ret (Inl e)
       | Inr (c, cancelBound) \<Rightarrow>
           pbind (get_bounded vn s c cancelBound key) (\<lambda>g.
             case g of
               Inr stream \<Rightarrow> Ret (Inr stream)
             | Inl e \<Rightarrow> pbind (cancel cancelBound) (\<lambda>_. Ret (Inl e))))"

section \<open>Delete\<close>

fun delete_in ::
    "name_validator \<Rightarrow> store \<Rightarrow> ctx \<Rightarrow> string \<Rightarrow> bool \<Rightarrow> string list \<Rightarrow> err option prog" where
  "delete_in vn s c key legacy [] = Ret None"
| "delete_in vn s c key legacy (manifestKey # rest) =
     pbind (readManifestAt vn s c manifestKey key legacy) (\<lambda>r.
       case r of
         Inl e \<Rightarrow> (if is_not_found e then delete_in vn s c key True rest else Ret (Some e))
       | Inr manifest \<Rightarrow>
           pbind (call (DeleteObject c (object_at s manifestKey)) as_err) (\<lambda>e.
             case e of
               Some _ \<Rightarrow> pbind (ctx_or c (BackendError ''manifest delete'')) (\<lambda>x. Ret (Some x))
             | None \<Rightarrow>
                 pbind (deletePayloadBestEffort s c (PayloadKey manifest))
                   (\<lambda>_. delete_in vn s c key True rest)))"

definition delete_bounded :: "name_validator \<Rightarrow> store \<Rightarrow> ctx \<Rightarrow> string \<Rightarrow> err option prog" where
  "delete_bounded vn s c key =
     (case validateBlobKey vn key of
        Some e \<Rightarrow> Ret (Some e)
      | None \<Rightarrow>
          pbind (acquireTransfer s c ''Blobs.Delete'') (\<lambda>a.
            case a of
              Some e \<Rightarrow> Ret (Some e)
            | None \<Rightarrow>
                pbind (case manifestCandidates vn (st_prefix s) key of
                         Inl e \<Rightarrow> Ret (Some e)
                       | Inr candidates \<Rightarrow> delete_in vn s c key False candidates) (\<lambda>e.
                  pbind releaseTransfer (\<lambda>_. Ret e))))"

definition Delete :: "name_validator \<Rightarrow> store \<Rightarrow> ctx option \<Rightarrow> string \<Rightarrow> err option prog" where
  "Delete vn s ctx key =
     pbind (guard_bound ctx ''Blobs.Delete'' (ro_operationTimeout (st_options s))) (\<lambda>b.
       case b of
         Inl e \<Rightarrow> Ret (Some e)
       | Inr (c, cancelFn) \<Rightarrow>
           pbind (delete_bounded vn s c key) (\<lambda>e. pbind (cancel cancelFn) (\<lambda>_. Ret e)))"

section \<open>List\<close>

text \<open>The rows of one page that decode and match the prefix, added to \<open>seen\<close>.\<close>

definition list_row :: "name_validator \<Rightarrow> store \<Rightarrow> string \<Rightarrow> string option \<Rightarrow> string set \<Rightarrow> string set" where
  "list_row vn s prefix row seen =
     (case row of
        None \<Rightarrow> seen
      | Some rowKey \<Rightarrow>
          (case logicalKeyFromManifestObject vn (st_prefix s) rowKey of
             None \<Rightarrow> seen
           | Some logical \<Rightarrow> if \<not> has_prefix logical prefix then seen else insert logical seen))"

text \<open>\<open>None\<close>: this was the last page; \<open>Some (Inr t)\<close>: go on from token \<open>t\<close>.\<close>

definition next_page :: "list_output \<Rightarrow> string option \<Rightarrow> string result option" where
  "next_page out continuation =
     (if lo_truncated out \<noteq> Some True then None
      else case lo_next out of
        None \<Rightarrow> Some (Inl (integrityError ''manifest listing page''))
      | Some t \<Rightarrow>
          (if t = [] \<or> continuation = Some t
           then Some (Inl (integrityError ''manifest listing page''))
           else Some (Inr t)))"

text \<open>The loop, with fuel for one request each; \<open>None\<close> is out of fuel.\<close>

primrec list_pages ::
    "name_validator \<Rightarrow> store \<Rightarrow> ctx \<Rightarrow> string \<Rightarrow> nat \<Rightarrow> string option \<Rightarrow> string set
      \<Rightarrow> string set result option prog" where
  "list_pages vn s c prefix 0 continuation seen = Ret None"
| "list_pages vn s c prefix (Suc fuel) continuation seen =
     pbind (call (ListObjectsV2 c
              \<lparr>li_bucket = ro_bucket (st_options s),
               li_prefix = namespaceRoot (st_prefix s) manifestNamespace,
               li_token = continuation, li_max = listPageSize\<rparr>) as_list) (\<lambda>out.
       case out of
         Inl e \<Rightarrow> pbind (ctx_or c (BackendError ''manifest list'')) (\<lambda>x. Ret (Some (Inl x)))
       | Inr page \<Rightarrow>
           (let seen' = fold (list_row vn s prefix) (lo_rows page) seen
            in case next_page page continuation of
                 None \<Rightarrow> Ret (Some (Inr seen'))
               | Some (Inl e) \<Rightarrow> Ret (Some (Inl e))
               | Some (Inr t) \<Rightarrow> list_pages vn s c prefix fuel (Some t) seen'))"

text \<open>\<open>sort.Strings\<close>: strings in the order of their bytes. An empty and a nil slice are alike.\<close>

definition sorted_keys :: "string set result \<Rightarrow> string list result" where
  "sorted_keys r = map_sum id sorted_list_of_set r"

definition list_bounded ::
    "name_validator \<Rightarrow> store \<Rightarrow> ctx \<Rightarrow> string \<Rightarrow> nat \<Rightarrow> string list result option prog" where
  "list_bounded vn s c prefix fuel =
     (case validateListPrefix vn prefix of
        Some e \<Rightarrow> Ret (Some (Inl e))
      | None \<Rightarrow>
          pbind (acquireTransfer s c ''Blobs.List'') (\<lambda>a.
            case a of
              Some e \<Rightarrow> Ret (Some (Inl e))
            | None \<Rightarrow>
                pbind (list_pages vn s c prefix fuel None {}) (\<lambda>r.
                  pbind releaseTransfer (\<lambda>_. Ret (map_option sorted_keys r)))))"

definition List_keys ::
    "name_validator \<Rightarrow> store \<Rightarrow> ctx option \<Rightarrow> string \<Rightarrow> nat \<Rightarrow> string list result option prog" where
  "List_keys vn s ctx prefix fuel =
     pbind (guard_bound ctx ''Blobs.List'' (ro_operationTimeout (st_options s))) (\<lambda>b.
       case b of
         Inl e \<Rightarrow> Ret (Some (Inl e))
       | Inr (c, cancelFn) \<Rightarrow>
           pbind (list_bounded vn s c prefix fuel) (\<lambda>r. pbind (cancel cancelFn) (\<lambda>_. Ret r)))"

end
