(* ===== verification/BlobRequests.thy ===== *)
theory BlobRequests
  imports Blob
begin

text \<open>
  What the four operations put on the wire, and what they hold while they do, over every behaviour
  of the world: which requests, to which keys, with which headers and contexts; the transfer slot;
  the contexts they make.
\<close>

section \<open>Lifting\<close>

text \<open>A program whose commands all satisfy \<open>P\<close> keeps every invariant that commands with \<open>P\<close>
  keep.\<close>

lemma along_lift:
  assumes "along (\<lambda>_. P) p h (\<lambda>_. R)" "I h"
    and "\<And>h c. I h \<Longrightarrow> P c \<Longrightarrow> A h c"
    and "\<And>h c r. I h \<Longrightarrow> P c \<Longrightarrow> answers c r \<Longrightarrow> I ((c, r) # h)"
  shows "along A p h (\<lambda>h' x. I h' \<and> R x)"
  using assms(1,2)
proof (induction p arbitrary: h)
  case (Do c k)
  then show ?case using assms(3,4) by (auto intro!: Do.IH [OF rangeI])
qed simp

lemma along_weaken:
  "along (\<lambda>_. P) p h (\<lambda>_. R) \<Longrightarrow> (\<And>c. P c \<Longrightarrow> P' c) \<Longrightarrow> (\<And>x. R x \<Longrightarrow> R' x) \<Longrightarrow>
   along (\<lambda>_. P') p h (\<lambda>_. R')"
  using along_lift [of P p h R "\<lambda>_. True" "\<lambda>_. P'"] by (auto elim: along_mono)

section \<open>The reading helpers\<close>

text \<open>Commands that only look: at objects of the configured bucket with keys in \<open>K\<close>, under the
  operation's own context.\<close>

definition reads :: "store \<Rightarrow> ctx \<Rightarrow> string set \<Rightarrow> cmd \<Rightarrow> bool" where
  "reads s c K cmd \<longleftrightarrow>
     (case cmd of
        HeadObject c' i \<Rightarrow> c' = c \<and> oi_bucket i = ro_bucket (st_options s) \<and> oi_key i \<in> K
      | GetObject c' g \<Rightarrow> c' = c \<and> gi_bucket g = ro_bucket (st_options s) \<and> gi_key g \<in> K
      | CtxErr c' \<Rightarrow> c' = c
      | _ \<Rightarrow> False)"

lemma reads_simps [simp]:
  "reads s c K (HeadObject c' (object_at s key)) \<longleftrightarrow> c' = c \<and> key \<in> K"
  "reads s c K (GetObject c' g) \<longleftrightarrow>
     c' = c \<and> gi_bucket g = ro_bucket (st_options s) \<and> gi_key g \<in> K"
  "reads s c K (CtxErr c') \<longleftrightarrow> c' = c"
  by (auto simp: reads_def object_at_def)

lemma reads_mono: "reads s c K cmd \<Longrightarrow> K \<subseteq> L \<Longrightarrow> reads s c L cmd"
  by (auto simp: reads_def split: cmd.splits)

lemma along_ctx_or [simp]:
  "along A (ctx_or c e) h Q \<longleftrightarrow>
     A h (CtxErr c) \<and> Q ((CtxErr c, RErr None) # h) e
     \<and> Q ((CtxErr c, RErr (Some CtxCanceled)) # h) CtxCanceled
     \<and> Q ((CtxErr c, RErr (Some CtxDeadlineExceeded)) # h) CtxDeadlineExceeded"
  by (simp add: ctx_or_def)

text \<open>What an accepted manifest is bound to.\<close>

definition bound_manifest :: "store \<Rightarrow> string \<Rightarrow> blob_manifest \<Rightarrow> bool" where
  "bound_manifest s key m \<longleftrightarrow> LogicalKey m = key
     \<and> payloadObjectKeyMatches (st_prefix s) key (PayloadKey m)"

lemma accept_manifest_bound:
  "accept_manifest vn s key len out = Inr m \<Longrightarrow> bound_manifest s key m"
  by (auto simp: accept_manifest_def bound_manifest_def ebind_Inr split: option.splits if_splits)

lemma readManifestAt_reads:
  "along (\<lambda>_. reads s c {objectKey}) (readManifestAt vn s c objectKey key legacy) h
     (\<lambda>_ r. \<forall>m. r = Inr m \<longrightarrow> bound_manifest s key m)"
  by (auto simp: readManifestAt_def get_manifest_def manifest_range_def
      split: sum.split option.split dest: accept_manifest_bound)

lemma verify_ranges_reads:
  "along (\<lambda>_. reads s c {key}) (verify_ranges s c key sz digest etag offset hashed) h (\<lambda>_ _. True)"
proof (induction s c key sz digest etag offset hashed arbitrary: h rule: verify_ranges.induct)
  case (1 s c key sz digest etag offset hashed)
  then show ?case
    by (subst verify_ranges.simps)
      (auto simp: Let_def payload_range_def split: sum.split)
qed

lemma verifyPayload_reads:
  "along (\<lambda>_. reads s c {key}) (verifyPayload s c key sz digest) h (\<lambda>_ _. True)"
  by (auto simp: verifyPayload_def verify_ranges_reads split: sum.split)

lemma locate_in_reads:
  "set keys \<subseteq> K \<Longrightarrow>
   along (\<lambda>_. reads s c K) (locate_in vn s c key legacy lastErr keys) h
     (\<lambda>_ r. \<forall>mk m. r = Inr (mk, m) \<longrightarrow> mk \<in> K \<and> bound_manifest s key m)"
proof (induction keys arbitrary: legacy lastErr h)
  case (Cons mk keys)
  have "along (\<lambda>_. reads s c K) (readManifestAt vn s c mk key legacy) h
    (\<lambda>_ r. \<forall>m. r = Inr m \<longrightarrow> bound_manifest s key m)"
    using Cons.prems by (intro along_weaken [OF readManifestAt_reads]) (auto intro: reads_mono)
  with Cons show ?case by (auto elim!: along_mono split: sum.split)
qed simp

lemma candidates_keys:
  "manifestCandidates vn p key = Inr ks \<Longrightarrow>
   set ks \<subseteq> {k. has_prefix k (namespaceRoot p manifestNamespace)}"
  by (auto simp: manifestCandidates_def ebind_Inr manifestObjectKey_Inr
      legacyManifestObjectKey_def manifestDigestRoot_def Let_def split: option.splits if_splits)

abbreviation manifest_keys :: "store \<Rightarrow> string set" where
  "manifest_keys s \<equiv> {k. has_prefix k (namespaceRoot (st_prefix s) manifestNamespace)}"

lemma locateManifest_reads:
  "along (\<lambda>_. reads s c (manifest_keys s)) (locateManifest vn s c key) h
     (\<lambda>_ r. \<forall>mk m. r = Inr (mk, m) \<longrightarrow> bound_manifest s key m)"
  unfolding locateManifest_def
  by (auto split: sum.split dest!: candidates_keys elim!: along_mono
      intro!: along_mono [OF locate_in_reads])

lemma settle_reads:
  "along (\<lambda>_. reads s c (manifest_keys s)) (settleAgainstLegacyManifest vn s c key m) h (\<lambda>_ _. True)"
proof -
  have "along (\<lambda>_. reads s c (manifest_keys s)) (readManifestAt vn s c k key True) h' (\<lambda>_ _. True)"
    if "legacyManifestObjectKey (st_prefix s) key = Some k" for k h'
  proof (rule along_weaken [OF readManifestAt_reads])
    have "k \<in> manifest_keys s" using that
      by (auto simp: legacyManifestObjectKey_def manifestDigestRoot_def Let_def split: if_splits)
    then show "reads s c {k} c' \<Longrightarrow> reads s c (manifest_keys s) c'" for c'
      by (auto intro: reads_mono)
  qed simp
  then show ?thesis
    by (auto simp: settleAgainstLegacyManifest_def readLegacyManifest_def elim!: along_mono
        split: option.split sum.split)
qed

section \<open>Every request\<close>

text \<open>The header a creating request carries under the configured posture.\<close>

definition header_ok :: "store \<Rightarrow> string option \<Rightarrow> string option \<Rightarrow> bool" where
  "header_ok s sse kms \<longleftrightarrow>
     (if ro_encryption (st_options s) = EncryptionAES256 then sse = Some ''AES256'' \<and> kms = None
      else if ro_encryption (st_options s) = EncryptionKMS
      then sse = Some ''aws:kms'' \<and> kms = Some (ro_kmsKeyID (st_options s))
      else sse = None \<and> kms = None)"

definition own_key :: "store \<Rightarrow> string \<Rightarrow> bool" where
  "own_key s key \<longleftrightarrow> has_prefix key (st_prefix s @ ''/'')"

definition bounded :: "ctx \<Rightarrow> bool" where
  "bounded c \<longleftrightarrow> ctx_deadline c \<noteq> NoDeadline"

definition request_ok :: "store \<Rightarrow> cmd \<Rightarrow> bool" where
  "request_ok s cmd \<longleftrightarrow>
     (let bucket = ro_bucket (st_options s) in
      case cmd of
        HeadObject c i \<Rightarrow> bounded c \<and> oi_bucket i = bucket \<and> own_key s (oi_key i)
      | GetObject c i \<Rightarrow> bounded c \<and> gi_bucket i = bucket \<and> own_key s (gi_key i)
      | DeleteObject c i \<Rightarrow> bounded c \<and> oi_bucket i = bucket \<and> own_key s (oi_key i)
      | PutObject c i \<Rightarrow> bounded c \<and> pi_bucket i = bucket \<and> own_key s (pi_key i)
          \<and> pi_if_none_match i = Some ''*'' \<and> header_ok s (pi_sse i) (pi_kms i)
          \<and> pi_length i = int (length (pi_body i))
      | UploadObject c i \<Rightarrow> bounded c \<and> ui_bucket i = bucket \<and> own_key s (ui_key i)
          \<and> ui_if_none_match i = Some ''*'' \<and> header_ok s (ui_sse i) (ui_kms i)
      | ListObjectsV2 c i \<Rightarrow> bounded c \<and> li_bucket i = bucket
          \<and> li_prefix i = st_prefix s @ ''/blobs/v1/''
      | Acquire c \<Rightarrow> bounded c
      | _ \<Rightarrow> True)"

lemma own_manifest_keys: "k \<in> manifest_keys s \<Longrightarrow> own_key s k"
  by (auto simp: own_key_def namespaceRoot_def has_prefix_iff)

lemma own_manifestObjectKey: "manifestObjectKey vn (st_prefix s) key = Inr k \<Longrightarrow> k \<in> manifest_keys s"
  by (auto simp: manifestObjectKey_Inr manifestDigestRoot_def)

lemma own_payload: "payloadObjectKeyMatches (st_prefix s) key k \<Longrightarrow> own_key s k"
  by (auto simp: own_key_def payload_key_shape payloadRoot_def namespaceRoot_def has_prefix_iff)

lemma own_drawn: "newPayloadObjectKey vn a (st_prefix s) key = Inr k \<Longrightarrow> own_key s k"
  by (auto simp: own_key_def newPayloadObjectKey_Inr payloadRoot_def namespaceRoot_def has_prefix_iff)

lemma reads_ok:
  "reads s c K cmd \<Longrightarrow> bounded c \<Longrightarrow> (\<And>k. k \<in> K \<Longrightarrow> own_key s k) \<Longrightarrow> request_ok s cmd"
  by (auto simp: reads_def request_ok_def Let_def split: cmd.splits)

text \<open>A reading helper is fine in any program whose invariant its reads keep.\<close>

lemma reads_along:
  assumes "along (\<lambda>_. reads s c K) p h (\<lambda>_. R)" "bounded c" "\<And>k. k \<in> K \<Longrightarrow> own_key s k"
    and "\<And>h x. R x \<Longrightarrow> Q h x"
  shows "along (\<lambda>_. request_ok s) p h Q"
  using along_mono [OF along_weaken [OF assms(1), of "request_ok s" R]] reads_ok assms(2-4)
  by blast

lemma applyEncryption_simps [simp]:
  "pi_bucket (applyEncryption s i) = pi_bucket i" "pi_key (applyEncryption s i) = pi_key i"
  "pi_body (applyEncryption s i) = pi_body i" "pi_length (applyEncryption s i) = pi_length i"
  "pi_if_none_match (applyEncryption s i) = pi_if_none_match i"
  by (simp_all add: applyEncryption_def)

lemma applyEncryption_header:
  "pi_sse i = None \<Longrightarrow> pi_kms i = None \<Longrightarrow>
   header_ok s (pi_sse (applyEncryption s i)) (pi_kms (applyEncryption s i))"
  by (auto simp: applyEncryption_def header_ok_def encryption_modes)

lemma applyTransferEncryption_simps [simp]:
  "ui_bucket (applyTransferEncryption s i) = ui_bucket i"
  "ui_key (applyTransferEncryption s i) = ui_key i"
  "ui_body (applyTransferEncryption s i) = ui_body i"
  "ui_if_none_match (applyTransferEncryption s i) = ui_if_none_match i"
  by (simp_all add: applyTransferEncryption_def)

lemma applyTransferEncryption_header:
  "ui_sse i = None \<Longrightarrow> ui_kms i = None \<Longrightarrow>
   header_ok s (ui_sse (applyTransferEncryption s i)) (ui_kms (applyTransferEncryption s i))"
  by (auto simp: applyTransferEncryption_def header_ok_def encryption_modes)

lemma upload_of_simps [simp]:
  "ui_bucket (upload_of s k src) = ro_bucket (st_options s)" "ui_key (upload_of s k src) = k"
  "ui_if_none_match (upload_of s k src) = Some ''*''"
  "ui_body (upload_of s k src) =
     newAccountedHashReader src (ro_maxAccountedObjectSize (st_options s))"
  by (simp_all add: upload_of_def)

lemma upload_of_header: "header_ok s (ui_sse (upload_of s k src)) (ui_kms (upload_of s k src))"
  by (simp add: upload_of_def applyTransferEncryption_header)

lemma request_ok_simps:
  "request_ok s (CtxErr c)" "request_ok s Fresh" "request_ok s (Cancel i)"
  "request_ok s (RandRead n)" "request_ok s Release"
  "request_ok s (Acquire c) \<longleftrightarrow> bounded c"
  "request_ok s (DeleteObject c (object_at s k)) \<longleftrightarrow> bounded c \<and> own_key s k"
  "request_ok s (UploadObject c (upload_of s k src)) \<longleftrightarrow> bounded c \<and> own_key s k"
  by (simp_all add: request_ok_def object_at_def upload_of_header)

subsection \<open>Put\<close>

lemma resolve_publish_ok:
  assumes "bounded c" "mk \<in> manifest_keys s"
  shows "along (\<lambda>_. request_ok s) (resolve_publish vn s c key mk pk m op) h (\<lambda>_ _. True)"
proof -
  have "along (\<lambda>_. request_ok s) (readManifest vn s c mk key) h
      (\<lambda>h' g. along (\<lambda>_. request_ok s)
        (case g of Inr existing \<Rightarrow> Ret (if manifestsMatch existing m then None
             else Some (BlobConflictError key), PayloadKey existing \<noteq> pk)
         | Inl e \<Rightarrow> pbind (ctx_or c (BackendError op)) (\<lambda>x. Ret (Some x, False))) h' (\<lambda>_ _. True))"
    unfolding readManifest_def
    using assms own_manifest_keys
    by (intro reads_along [OF readManifestAt_reads]) (auto simp: request_ok_simps split: sum.split)
  then show ?thesis by (simp add: resolve_publish_def)
qed

lemma put_publish_ok:
  assumes "bounded c" "mk \<in> manifest_keys s"
  shows "along (\<lambda>_. request_ok s) (put_publish vn s c key mk pk m encoded) h (\<lambda>_ _. True)"
proof -
  have "request_ok s (PutObject c (applyEncryption s \<lparr>pi_bucket = ro_bucket (st_options s),
      pi_key = mk, pi_body = encoded, pi_length = int (length encoded),
      pi_if_none_match = Some ''*'', pi_sse = None, pi_kms = None\<rparr>))"
    using assms own_manifest_keys by (simp add: request_ok_def Let_def applyEncryption_header)
  then show ?thesis
    by (auto simp: put_publish_def publishManifest_def Let_def resolve_publish_ok [OF assms]
        split: option.split)
qed

lemma put_uploaded_ok:
  assumes "bounded c" "mk \<in> manifest_keys s" "own_key s pk"
  shows "along (\<lambda>_. request_ok s) (put_uploaded vn s c key mk pk len sz digest) h (\<lambda>_ _. True)"
proof -
  have settle: "along (\<lambda>_. request_ok s) (settleAgainstLegacyManifest vn s c key m) h' Q"
    if "\<And>h x. Q h x" for m h' Q
    by (rule reads_along [OF settle_reads assms(1)]) (use own_manifest_keys that in auto)
  have verify: "along (\<lambda>_. request_ok s) (verifyPayload s c pk sz digest) h' Q"
    if "\<And>h x. Q h x" for h' Q
    by (rule reads_along [OF verifyPayload_reads assms(1)]) (use assms(3) that in auto)
  show ?thesis
    by (auto simp: put_uploaded_def Let_def put_publish_ok [OF assms(1,2)] intro!: verify settle
        split: option.split sum.split)
qed

lemma put_holding_ok:
  assumes "bounded c"
  shows "along (\<lambda>_. request_ok s) (put_holding vn s c key src) h (\<lambda>_ _. True)"
proof -
  have staged: "along (\<lambda>_. request_ok s) (put_staged vn s c key mk pk src) h' Q"
    if "mk \<in> manifest_keys s" "own_key s pk" "\<And>h x. Q h x" for mk pk h' Q
    using that assms
    by (auto simp: put_staged_def Let_def request_ok_simps split: sum.split option.split
        intro!: along_mono [OF put_uploaded_ok])
  have cleanup: "along (\<lambda>_. request_ok s) (put_cleanup s c pk safe) h' Q"
    if "own_key s pk" "\<And>h x. Q h x" for pk safe h' Q
    using that assms by (simp add: put_cleanup_def deletePayloadBestEffort_def request_ok_simps)
  have draw: "along (\<lambda>_. request_ok s) (draw_payload_key vn s key) h'
      (\<lambda>_ r. \<forall>k. r = Inr k \<longrightarrow> own_key s k)" for h'
    by (auto simp: draw_payload_key_def request_ok_simps dest: own_drawn)
  show ?thesis
    by (auto simp: put_holding_def split: sum.split intro!: along_mono [OF draw] staged cleanup
        dest: own_manifestObjectKey)
qed

lemma bounded_child: "ctx_deadline c = NoDeadline \<Longrightarrow> bounded (with_timeout i t c n)"
  by (simp add: bounded_def)

lemma Put_ok: "along (\<lambda>_. request_ok s) (Put vn s ctx key src) h (\<lambda>_ _. True)"
proof -
  have bounded: "along (\<lambda>_. request_ok s) (put_bounded vn s c key src) h' Q"
    if "bounded c" "\<And>h x. Q h x" for c h' Q
    using that by (auto simp: put_bounded_def request_ok_simps bounded_def
        split: option.split intro!: along_mono [OF put_holding_ok])
  show ?thesis
    by (auto simp: Put_def request_ok_simps split: option.split
        intro!: bounded bounded_child simp: bounded_def)
qed

subsection \<open>Get, Delete and List\<close>

lemma locate_ok:
  assumes "bounded c" "\<And>h r. (\<And>mk m. r = Inr (mk, m) \<Longrightarrow> bound_manifest s key m) \<Longrightarrow> Q h r"
  shows "along (\<lambda>_. request_ok s) (locateManifest vn s c key) h Q"
  by (rule reads_along [OF locateManifest_reads assms(1)])
    (use assms(2) own_manifest_keys in auto)

lemma bounded_cancel [simp]: "bounded (with_cancel i c) = bounded c"
  by (simp add: bounded_def)

lemma get_payload_ok:
  assumes "bounded c" "bound_manifest s key m" "\<And>h x. Q h x"
  shows "along (\<lambda>_. request_ok s) (get_payload s c cb m i) h Q"
proof -
  have "own_key s (PayloadKey m)" using assms(2) by (auto simp: bound_manifest_def own_payload)
  then have "request_ok s (GetObject (with_cancel i c) \<lparr>gi_bucket = ro_bucket (st_options s),
      gi_key = PayloadKey m, gi_range = None, gi_if_match = None\<rparr>)"
    using assms(1) by (simp add: request_ok_def Let_def)
  with assms(3) show ?thesis
    by (auto simp: get_payload_def request_ok_simps split: sum.split option.split)
qed

lemma Get_ok: "along (\<lambda>_. request_ok s) (Get vn s ctx key) h (\<lambda>_ _. True)"
proof -
  have holding: "along (\<lambda>_. request_ok s) (get_holding vn s c cb key) h' Q"
    if "bounded c" "\<And>h x. Q h x" for c cb h' Q
    using that by (auto simp: get_holding_def request_ok_simps split: sum.split
        intro!: locate_ok get_payload_ok)
  have bounded: "along (\<lambda>_. request_ok s) (get_bounded vn s c cb key) h' Q"
    if "bounded c" "\<And>h x. Q h x" for c cb h' Q
    using that by (auto simp: get_bounded_def request_ok_simps bounded_def
        split: option.split sum.split intro!: holding)
  show ?thesis
    by (auto simp: Get_def request_ok_simps split: option.split sum.split
        intro!: bounded bounded_child simp: bounded_def)
qed

lemma delete_in_ok:
  assumes "bounded c"
  shows "set keys \<subseteq> manifest_keys s \<Longrightarrow>
    along (\<lambda>_. request_ok s) (delete_in vn s c key legacy keys) h (\<lambda>_ _. True)"
proof (induction keys arbitrary: legacy h)
  case (Cons mk keys)
  have read: "along (\<lambda>_. request_ok s) (readManifestAt vn s c mk key legacy) h' Q"
    if "\<And>h r. (\<And>m. r = Inr m \<Longrightarrow> bound_manifest s key m) \<Longrightarrow> Q h r" for h' Q
    using Cons.prems own_manifest_keys that
    by (intro reads_along [OF readManifestAt_reads assms]) auto
  show ?case
    using Cons own_manifest_keys assms
    by (auto simp: deletePayloadBestEffort_def request_ok_simps bound_manifest_def own_payload
        split: sum.split option.split intro!: read)
qed simp

lemma Delete_ok: "along (\<lambda>_. request_ok s) (Delete vn s ctx key) h (\<lambda>_ _. True)"
proof -
  have bounded: "along (\<lambda>_. request_ok s) (delete_bounded vn s c key) h' Q"
    if "bounded c" "\<And>h x. Q h x" for c h' Q
    using that by (auto simp: delete_bounded_def request_ok_simps bounded_def
        split: option.split sum.split dest: candidates_keys
        intro!: along_mono [OF delete_in_ok])
  show ?thesis
    by (auto simp: Delete_def request_ok_simps split: option.split sum.split
        intro!: bounded bounded_child simp: bounded_def)
qed

lemma list_pages_ok:
  assumes "bounded c"
  shows "along (\<lambda>_. request_ok s) (list_pages vn s c prefix fuel cont seen) h (\<lambda>_ _. True)"
proof (induction fuel arbitrary: cont seen h)
  case (Suc fuel)
  have "request_ok s (ListObjectsV2 c \<lparr>li_bucket = ro_bucket (st_options s),
      li_prefix = namespaceRoot (st_prefix s) manifestNamespace, li_token = cont,
      li_max = listPageSize\<rparr>)"
    using assms by (simp add: request_ok_def Let_def namespaceRoot_def manifestNamespace_def)
  with Suc show ?case
    by (auto simp: request_ok_simps Let_def split: sum.split option.split)
qed simp

lemma List_ok: "along (\<lambda>_. request_ok s) (List_keys vn s ctx prefix fuel) h (\<lambda>_ _. True)"
proof -
  have bounded: "along (\<lambda>_. request_ok s) (list_bounded vn s c prefix fuel) h' Q"
    if "bounded c" "\<And>h x. Q h x" for c h' Q
    using that by (auto simp: list_bounded_def request_ok_simps bounded_def
        split: option.split intro!: along_mono [OF list_pages_ok])
  show ?thesis
    by (auto simp: List_keys_def request_ok_simps split: option.split sum.split
        intro!: bounded bounded_child simp: bounded_def)
qed

text \<open>The behaviours of the operations.\<close>

definition operation_trace :: "name_validator \<Rightarrow> store \<Rightarrow> event list \<Rightarrow> bool" where
  "operation_trace vn s tr \<longleftrightarrow>
     (\<exists>ctx key src e. exec (Put vn s ctx key src) tr e)
     \<or> (\<exists>ctx key g. exec (Get vn s ctx key) tr g)
     \<or> (\<exists>ctx key e. exec (Delete vn s ctx key) tr e)
     \<or> (\<exists>ctx prefix fuel l. exec (List_keys vn s ctx prefix fuel) tr l)"

text \<open>A store and a listing of its empty namespace, for the witnesses.\<close>

definition sample_store :: store where
  "sample_store = newStore
     \<lparr>cc_load = defaultLoadConfig sample_resolved, cc_base_endpoint = ''https://s3.test'',
      cc_use_path_style = False\<rparr>
     \<lparr>tc_threshold = 67108864, tc_part_size = 16777216, tc_concurrency = 3,
      tc_get_buffer = 50331648, tc_max_upload_parts = 10000\<rparr> sample_resolved"

definition sample_ctx :: ctx where
  "sample_ctx = Root 0 (At 5)"

definition empty_listing :: "event list" where
  "empty_listing =
     [(Acquire sample_ctx, RErr None),
      (ListObjectsV2 sample_ctx \<lparr>li_bucket = ''bucket'', li_prefix = ''dep/blobs/v1/'',
         li_token = None, li_max = 1000\<rparr>,
       RList (Inr \<lparr>lo_rows = [], lo_truncated = Some False, lo_next = None\<rparr>)),
      (Release, RDone)]"

lemma sample_store_simps [simp]:
  "ro_bucket (st_options sample_store) = ''bucket''" "st_prefix sample_store = ''dep''"
  "st_slots sample_store = Some 4" "ctx_deadline sample_ctx = At 5"
  by (simp_all add: sample_store_def sample_resolved_def newStore_def st_prefix_def sample_ctx_def)

lemma empty_listing_exec:
  "exec (List_keys grammar_validator sample_store (Some sample_ctx) [] 1) empty_listing (Some (Inr []))"
  by (simp add: List_keys_def guard_bound_def Bound_def list_bounded_def validateListPrefix_def
      acquireTransfer_def RequireDeadline_def call_def exec_Do_iff empty_listing_def ctx_answer_def
      releaseTransfer_def cancel_def next_page_def namespaceRoot_def manifestNamespace_def
      listPageSize_def sorted_keys_def)

text \<open>
  C12. Every request of every operation, over every behaviour of the service: it is issued under a
  context with a deadline, to the configured bucket, for a key under the deployment's own prefix
  (a listing: for exactly the deployment's manifest root); every request that creates an object
  carries \<open>If-None-Match: *\<close> and the server-side encryption header of the configured posture.
\<close>

theorem every_request_is_confined:
  assumes "operation_trace vn s tr" "(c, r) \<in> set tr"
  shows "request_ok s c"
proof -
  from assms(1) have "\<forall>(c, r) \<in> set tr. request_ok s c"
    unfolding operation_trace_def
    by (elim disjE exE) (simp_all add: along_each [OF _ Put_ok] along_each [OF _ Get_ok]
        along_each [OF _ Delete_ok] along_each [OF _ List_ok])
  with assms(2) show ?thesis by auto
qed

lemma every_request_is_confined_witness:
  "request_ok sample_store (ListObjectsV2 sample_ctx \<lparr>li_bucket = ''bucket'',
     li_prefix = ''dep/blobs/v1/'', li_token = None, li_max = 1000\<rparr>)"
proof -
  have "operation_trace grammar_validator sample_store empty_listing"
    unfolding operation_trace_def using empty_listing_exec by blast
  from every_request_is_confined [OF this] show ?thesis by (simp add: empty_listing_def)
qed

section \<open>Transfer slots and contexts\<close>

text \<open>How many slots a history holds: successful acquisitions less releases.\<close>

fun slot_change :: "cmd \<Rightarrow> resp \<Rightarrow> int" where
  "slot_change (Acquire c) r = (if as_err r = None then 1 else 0)"
| "slot_change Release r = - 1"
| "slot_change _ r = 0"

primrec slots_held :: "event list \<Rightarrow> int" where
  "slots_held [] = 0"
| "slots_held (e # h) = slot_change (fst e) (snd e) + slots_held h"

text \<open>The contexts made and not canceled yet, in a newest-first history.\<close>

fun track_context :: "cmd \<Rightarrow> resp \<Rightarrow> nat list \<Rightarrow> nat list" where
  "track_context Fresh r live = snd (as_fresh r) # live"
| "track_context (Cancel i) r live = remove1 i live"
| "track_context _ r live = live"

primrec live_contexts :: "event list \<Rightarrow> nat list" where
  "live_contexts [] = []"
| "live_contexts (e # h) = track_context (fst e) (snd e) (live_contexts h)"

primrec made_contexts :: "event list \<Rightarrow> nat list" where
  "made_contexts [] = []"
| "made_contexts (e # h) =
     (if fst e = Fresh then snd (as_fresh (snd e)) # made_contexts h else made_contexts h)"

text \<open>The discipline: at most one slot per operation; requests, and its release, only while it
  is held; only contexts the operation made are canceled (again, perhaps: a cancel function may be
  called twice).\<close>

definition paired :: allowed where
  "paired h c \<longleftrightarrow>
     (is_request c \<or> c = Release \<longrightarrow> slots_held h = 1)
     \<and> (\<forall>x. c = Acquire x \<longrightarrow> slots_held h = 0)
     \<and> (\<forall>i. c = Cancel i \<longrightarrow> i \<in> set (made_contexts h))"

lemma paired_simps [simp]:
  "paired h (HeadObject c i) \<longleftrightarrow> slots_held h = 1" "paired h (GetObject c g) \<longleftrightarrow> slots_held h = 1"
  "paired h (PutObject c p) \<longleftrightarrow> slots_held h = 1" "paired h (DeleteObject c i) \<longleftrightarrow> slots_held h = 1"
  "paired h (ListObjectsV2 c l) \<longleftrightarrow> slots_held h = 1"
  "paired h (UploadObject c u) \<longleftrightarrow> slots_held h = 1"
  "paired h Release \<longleftrightarrow> slots_held h = 1" "paired h (Acquire c) \<longleftrightarrow> slots_held h = 0"
  "paired h (CtxErr c)" "paired h Fresh" "paired h (RandRead n)"
  "paired h (Cancel j) \<longleftrightarrow> j \<in> set (made_contexts h)"
  by (simp_all add: paired_def)

text \<open>A program that touches neither, run while the slot is held.\<close>

primrec inert :: "cmd \<Rightarrow> bool" where
  "inert (HeadObject c i) \<longleftrightarrow> True"
| "inert (GetObject c i) \<longleftrightarrow> True"
| "inert (PutObject c i) \<longleftrightarrow> True"
| "inert (DeleteObject c i) \<longleftrightarrow> True"
| "inert (ListObjectsV2 c i) \<longleftrightarrow> True"
| "inert (UploadObject c i) \<longleftrightarrow> True"
| "inert (CtxErr c) \<longleftrightarrow> True"
| "inert Fresh \<longleftrightarrow> False"
| "inert (Cancel i) \<longleftrightarrow> False"
| "inert (RandRead n) \<longleftrightarrow> True"
| "inert (Acquire c) \<longleftrightarrow> False"
| "inert Release \<longleftrightarrow> False"

lemma inert_paired: "inert c \<Longrightarrow> slots_held h = 1 \<Longrightarrow> paired h c"
  by (cases c) simp_all

lemma inert_keeps:
  "inert c \<Longrightarrow> slots_held ((c, r) # h) = slots_held h \<and> live_contexts ((c, r) # h) = live_contexts h
     \<and> made_contexts ((c, r) # h) = made_contexts h"
  by (cases c) simp_all

lemma along_inert:
  assumes "along (\<lambda>_. inert) p h (\<lambda>_. R)" "slots_held h = 1"
    and "\<And>h' x. slots_held h' = 1 \<Longrightarrow> live_contexts h' = live_contexts h \<Longrightarrow>
      made_contexts h' = made_contexts h \<Longrightarrow> R x \<Longrightarrow> Q h' x"
  shows "along paired p h Q"
proof (rule along_mono [OF along_lift [where R = R and
      I = "\<lambda>h'. slots_held h' = 1 \<and> live_contexts h' = live_contexts h
        \<and> made_contexts h' = made_contexts h"]])
  show "along (\<lambda>_. inert) p h (\<lambda>_. R)" by (rule assms(1))
qed (use assms inert_paired inert_keeps in auto)

lemma reads_inert:
  assumes "along (\<lambda>_. reads s c K) p h (\<lambda>_. R)" "\<And>h x. Q h x"
  shows "along (\<lambda>_. inert) p h Q"
proof -
  have "along (\<lambda>_. inert) p h (\<lambda>_ _. True)"
    by (rule along_weaken [OF assms(1)]) (auto simp: reads_def split: cmd.splits)
  then show ?thesis by (rule along_mono) (rule assms(2))
qed

lemmas inert_reads =
  reads_inert [OF locateManifest_reads] reads_inert [OF readManifestAt_reads]
  reads_inert [OF verifyPayload_reads] reads_inert [OF settle_reads]

lemma put_holding_inert: "along (\<lambda>_. inert) (put_holding vn s c key src) h (\<lambda>_ _. True)"
  by (auto simp: put_holding_def draw_payload_key_def put_staged_def Let_def put_uploaded_def
      put_publish_def publishManifest_def resolve_publish_def readManifest_def put_cleanup_def
      deletePayloadBestEffort_def intro!: inert_reads split: sum.split option.split)

lemma locate_inert: "along (\<lambda>_. inert) (locateManifest vn s c key) h (\<lambda>_ _. True)"
  by (rule inert_reads) simp

lemma delete_in_inert: "along (\<lambda>_. inert) (delete_in vn s c key legacy keys) h (\<lambda>_ _. True)"
  by (induction keys arbitrary: legacy h)
    (auto simp: deletePayloadBestEffort_def intro!: inert_reads split: sum.split option.split)

lemma list_pages_inert: "along (\<lambda>_. inert) (list_pages vn s c prefix fuel cont seen) h (\<lambda>_ _. True)"
  by (induction fuel arbitrary: cont seen h) (auto simp: Let_def split: sum.split option.split)

definition nothing_held :: "event list \<Rightarrow> bool" where
  "nothing_held h \<longleftrightarrow> slots_held h = 0 \<and> live_contexts h = []"

lemma Put_paired: "along paired (Put vn s ctx key src) [] (\<lambda>h _. nothing_held h)"
  by (auto simp: nothing_held_def Put_def put_bounded_def
      intro!: along_inert [OF put_holding_inert] split: option.split sum.split)

lemma Delete_paired: "along paired (Delete vn s ctx key) [] (\<lambda>h _. nothing_held h)"
  by (auto simp: nothing_held_def Delete_def delete_bounded_def
      intro!: along_inert [OF delete_in_inert] split: option.split sum.split)

lemma List_paired: "along paired (List_keys vn s ctx prefix fuel) [] (\<lambda>h _. nothing_held h)"
  by (auto simp: nothing_held_def List_keys_def list_bounded_def
      intro!: along_inert [OF list_pages_inert] split: option.split sum.split)

text \<open>A stream keeps its slot and its contexts; its two functions give them back.\<close>

definition stream_holds :: "get_stream \<Rightarrow> event list \<Rightarrow> bool" where
  "stream_holds st h \<longleftrightarrow> slots_held h = 1
     \<and> along paired (pbind (gs_abort st) (\<lambda>_. gs_release st)) h (\<lambda>h' _. nothing_held h')
     \<and> along paired (gs_release st) h (\<lambda>h' _. slots_held h' = 0)"

lemma Get_paired:
  "along paired (Get vn s ctx key) []
     (\<lambda>h g. case g of Inl e \<Rightarrow> nothing_held h | Inr st \<Rightarrow> stream_holds st h)"
proof -
  define handed where "handed cb L M h g \<longleftrightarrow>
    (case g of Inl e \<Rightarrow> slots_held h = 1 \<and> live_contexts h = L \<and> set M \<subseteq> set (made_contexts h)
     | Inr st \<Rightarrow> slots_held h = 1 \<and> (\<exists>i. live_contexts h = i # L
         \<and> insert i (set M) \<subseteq> set (made_contexts h)
         \<and> gs_abort st = pbind (cancel (Some i)) (\<lambda>_. cancel cb)
         \<and> gs_release st = pbind releaseTransfer (\<lambda>_. cancel cb)))"
    for cb L M h and g :: "get_stream result"
  have payload: "along paired (get_payload s c cb m i) h (handed cb L M)"
    if "slots_held h = 1" "live_contexts h = i # L" "insert i (set M) \<subseteq> set (made_contexts h)"
    for c cb m i L M h
    using that by (auto simp: get_payload_def handed_def split: sum.split option.split)
  have holding: "along paired (get_holding vn s c cb key) h
      (handed cb (live_contexts h) (made_contexts h))"
    if "slots_held h = 1" for c cb h
    unfolding get_holding_def
    using that
    by (auto intro!: along_inert [OF locate_inert] payload simp: handed_def [of _ _ _ _ "Inl _"]
        split: sum.splits)
  have bounded: "along paired (get_bounded vn s c cb key) h
      (\<lambda>h' g. case g of
         Inl e \<Rightarrow> slots_held h' = 0 \<and> live_contexts h' = live_contexts h
           \<and> set (made_contexts h) \<subseteq> set (made_contexts h')
       | Inr st \<Rightarrow> handed cb (live_contexts h) (made_contexts h) h' g)"
    if "slots_held h = 0" for c cb h
  proof -
    have "along paired (get_holding vn s c cb key) ((Acquire c, RErr None) # h)
        (handed cb (live_contexts h) (made_contexts h))"
      using holding [of "(Acquire c, RErr None) # h"] that by simp
    with that show ?thesis
      by (auto simp: get_bounded_def handed_def elim!: along_mono split: option.split sum.splits)
  qed
  have bounded': "along paired (get_bounded vn s c cb key) h
      (\<lambda>h' g. along paired (case g of Inl e \<Rightarrow> pbind (cancel cb) (\<lambda>_. Ret (Inl e)) | Inr st \<Rightarrow> Ret (Inr st)) h'
        (\<lambda>h g. case g of Inl e \<Rightarrow> nothing_held h | Inr st \<Rightarrow> stream_holds st h))"
    if "h = [] \<and> cb = None \<or> (\<exists>t i. h = [(Fresh, RFresh t i)] \<and> cb = Some i)" for c cb h
    by (rule along_mono [OF bounded])
      (use that in \<open>auto simp: handed_def nothing_held_def stream_holds_def split: sum.splits\<close>)
  show ?thesis
    by (auto simp: Get_def nothing_held_def [of "[]"] intro!: bounded' split: option.splits)
qed

text \<open>
  C8. Slots and contexts are paired, over every behaviour of the service: every request is issued
  while the operation holds exactly one transfer slot; \<open>Put\<close>, \<open>Delete\<close>, \<open>List\<close> and a failing
  \<open>Get\<close> end with the slot returned and every context they made canceled; a succeeding \<open>Get\<close> hands
  exactly one slot to the stream, and aborting and releasing the stream returns everything.
\<close>

theorem slots_and_contexts_are_paired:
  "(exec (Put vn s ctx key src) tr e \<longrightarrow> allowed_trace paired [] tr \<and> nothing_held (rev tr))
   \<and> (exec (Delete vn s ctx key) tr e \<longrightarrow> allowed_trace paired [] tr \<and> nothing_held (rev tr))
   \<and> (exec (List_keys vn s ctx prefix fuel) tr l \<longrightarrow>
        allowed_trace paired [] tr \<and> nothing_held (rev tr))
   \<and> (exec (Get vn s ctx key) tr g \<longrightarrow> allowed_trace paired [] tr
        \<and> (case g of Inl e \<Rightarrow> nothing_held (rev tr) | Inr st \<Rightarrow> stream_holds st (rev tr)))"
  using along_exec [OF _ Put_paired] along_exec [OF _ Delete_paired] along_exec [OF _ List_paired]
    along_exec [OF _ Get_paired] unfolding append_Nil2 by simp

lemma slots_and_contexts_are_paired_witness: "nothing_held (rev empty_listing)"
  using slots_and_contexts_are_paired empty_listing_exec by blast

section \<open>Guards\<close>

text \<open>The first reason an operation has to refuse a call, from its arguments alone.\<close>

definition refusal :: "string \<Rightarrow> store \<Rightarrow> ctx option \<Rightarrow> err option \<Rightarrow> err option" where
  "refusal operation s ctx invalid =
     (if ctx = None then Some (DeadlineRequiredError operation)
      else case invalid of
        Some e \<Rightarrow> Some e
      | None \<Rightarrow> if st_slots s = None then Some (UnconstructedStoreError operation) else None)"

lemmas guard_unfold =
  refusal_def guard_bound_def Bound_def acquireTransfer_def RequireDeadline_def validateBlobKey_def

lemma Put_refuses:
  assumes "refusal ''Blobs.Put'' s ctx (case vn key of Some x \<Rightarrow> Some x
      | None \<Rightarrow> if src = None then Some (BackendError ''upload source'') else None) = Some x"
  shows "along (\<lambda>_ c. \<not> is_request c) (Put vn s ctx key src) [] (\<lambda>_ e. e = Some x)"
  using assms
  by (auto simp: guard_unfold Put_def put_bounded_def split: option.splits if_splits)

lemma Get_refuses:
  assumes "refusal ''Blobs.Get'' s ctx (vn key) = Some x"
  shows "along (\<lambda>_ c. \<not> is_request c) (Get vn s ctx key) [] (\<lambda>_ g. g = Inl x)"
  using assms
  by (auto simp: guard_unfold Get_def get_bounded_def split: option.splits if_splits)

lemma Delete_refuses:
  assumes "refusal ''Blobs.Delete'' s ctx (vn key) = Some x"
  shows "along (\<lambda>_ c. \<not> is_request c) (Delete vn s ctx key) [] (\<lambda>_ e. e = Some x)"
  using assms
  by (auto simp: guard_unfold Delete_def delete_bounded_def split: option.splits if_splits)

lemma List_refuses:
  assumes "refusal ''Blobs.List'' s ctx (validateListPrefix vn prefix) = Some x"
  shows "along (\<lambda>_ c. \<not> is_request c) (List_keys vn s ctx prefix fuel) [] (\<lambda>_ l. l = Some (Inl x))"
  using assms
  by (auto simp: guard_unfold List_keys_def list_bounded_def split: option.splits if_splits)

lemmas refused =
  along_each [OF _ Put_refuses] along_each [OF _ Get_refuses] along_each [OF _ Delete_refuses]
  along_each [OF _ List_refuses]

text \<open>
  C19. Guards come first: a nil context, then an invalid key (or list prefix), then a nil upload
  source, then a store that no constructor built make an operation return exactly the error of the
  first of these that applies, without a single request to the object store.
\<close>

theorem guards_refuse_first:
  "(exec (Put vn s ctx key src) tr e
      \<and> refusal ''Blobs.Put'' s ctx (case vn key of Some x \<Rightarrow> Some x
          | None \<Rightarrow> if src = None then Some (BackendError ''upload source'') else None) = Some x \<longrightarrow>
      e = Some x \<and> (\<forall>(c, r) \<in> set tr. \<not> is_request c))
   \<and> (exec (Get vn s ctx key) tr g \<and> refusal ''Blobs.Get'' s ctx (vn key) = Some x \<longrightarrow>
      g = Inl x \<and> (\<forall>(c, r) \<in> set tr. \<not> is_request c))
   \<and> (exec (Delete vn s ctx key) tr e \<and> refusal ''Blobs.Delete'' s ctx (vn key) = Some x \<longrightarrow>
      e = Some x \<and> (\<forall>(c, r) \<in> set tr. \<not> is_request c))
   \<and> (exec (List_keys vn s ctx prefix fuel) tr l
      \<and> refusal ''Blobs.List'' s ctx (validateListPrefix vn prefix) = Some x \<longrightarrow>
      l = Some (Inl x) \<and> (\<forall>(c, r) \<in> set tr. \<not> is_request c))"
  by (intro conjI impI; elim conjE; drule (1) refused; simp)

lemma guards_refuse_first_witness:
  "\<exists>e. exec (Delete grammar_validator sample_store None ''a'') [] e
     \<and> e = Some (DeadlineRequiredError ''Blobs.Delete'')"
proof -
  obtain e where e: "exec (Delete grammar_validator sample_store None ''a'') [] e"
    by (simp add: Delete_def guard_bound_def Bound_def)
  moreover have "refusal ''Blobs.Delete'' sample_store None (grammar_validator ''a'')
      = Some (DeadlineRequiredError ''Blobs.Delete'')"
    by (simp add: refusal_def)
  ultimately show ?thesis
    using guards_refuse_first [of grammar_validator sample_store None "''a''" None "[]" e
        "DeadlineRequiredError ''Blobs.Delete''"] by blast
qed

end
