(* ===== verification/BlobPut.thy ===== *)
theory BlobPut
  imports BlobRequests
begin

text \<open>
  The safety of \<open>Put\<close>, over every behaviour of the service: what was verified before a manifest is
  published, when a staged payload may be deleted again, and what success means. The facts are read
  off the history of an execution, newest event first.
\<close>

section \<open>What a history shows\<close>

text \<open>The last committed upload: its key, and the bytes the transfer manager was given.\<close>

definition upload_event :: "cmd \<Rightarrow> resp \<Rightarrow> (string \<times> bytes) option" where
  "upload_event c r =
     (case c of
        UploadObject x i \<Rightarrow>
          (case r of
             RUpload (Inr len) ns \<Rightarrow>
               Some (ui_key i, fst (fst (read_seq (accounted_read script_read) (ui_body i) ns)))
           | _ \<Rightarrow> None)
      | _ \<Rightarrow> None)"

primrec uploaded :: "event list \<Rightarrow> (string \<times> bytes) option" where
  "uploaded [] = None"
| "uploaded (e # h) =
     (case upload_event (fst e) (snd e) of Some u \<Rightarrow> Some u | None \<Rightarrow> uploaded h)"

text \<open>The bytes the service served for a key, range by range, as far as the response's length.\<close>

definition range_event :: "string \<Rightarrow> cmd \<Rightarrow> resp \<Rightarrow> bytes" where
  "range_event key c r =
     (case c of
        GetObject x g \<Rightarrow>
          (case r of
             RGet (Inr out) \<Rightarrow>
               (case (go_body out, go_length out) of
                  (Some b, Some n) \<Rightarrow>
                    if gi_key g = key then take (nat n) (script_bytes (bd_script b)) else []
                | _ \<Rightarrow> [])
           | _ \<Rightarrow> [])
      | _ \<Rightarrow> [])"

primrec served :: "string \<Rightarrow> event list \<Rightarrow> bytes" where
  "served key [] = []"
| "served key (e # h) = served key h @ range_event key (fst e) (snd e)"

text \<open>A manifest the service served and the code accepted for a logical key, since the last
  publication.\<close>

definition manifest_event ::
    "name_validator \<Rightarrow> store \<Rightarrow> string \<Rightarrow> cmd \<Rightarrow> resp \<Rightarrow> blob_manifest option" where
  "manifest_event vn s key c r =
     (case c of
        GetObject x g \<Rightarrow>
          (case r of
             RGet (Inr out) \<Rightarrow>
               (if gi_key g \<in> manifest_keys s then
                  (case go_length out of
                     Some n \<Rightarrow>
                       (case accept_manifest vn s key n out of Inr m \<Rightarrow> Some m | Inl e \<Rightarrow> None)
                   | None \<Rightarrow> None)
                else None)
           | _ \<Rightarrow> None)
      | _ \<Rightarrow> None)"

primrec is_publish :: "cmd \<Rightarrow> bool" where
  "is_publish (HeadObject c i) \<longleftrightarrow> False"
| "is_publish (GetObject c i) \<longleftrightarrow> False"
| "is_publish (PutObject c i) \<longleftrightarrow> True"
| "is_publish (DeleteObject c i) \<longleftrightarrow> False"
| "is_publish (ListObjectsV2 c i) \<longleftrightarrow> False"
| "is_publish (UploadObject c i) \<longleftrightarrow> False"
| "is_publish (CtxErr c) \<longleftrightarrow> False"
| "is_publish Fresh \<longleftrightarrow> False"
| "is_publish (Cancel i) \<longleftrightarrow> False"
| "is_publish (RandRead n) \<longleftrightarrow> False"
| "is_publish (Acquire c) \<longleftrightarrow> False"
| "is_publish Release \<longleftrightarrow> False"

primrec published :: "event list \<Rightarrow> bool" where
  "published [] \<longleftrightarrow> False"
| "published (e # h) \<longleftrightarrow> is_publish (fst e) \<or> published h"

primrec acknowledged :: "event list \<Rightarrow> bool" where
  "acknowledged [] \<longleftrightarrow> False"
| "acknowledged (e # h) \<longleftrightarrow> (is_publish (fst e) \<and> as_err (snd e) = None) \<or> acknowledged h"

primrec seen_manifest ::
    "name_validator \<Rightarrow> store \<Rightarrow> string \<Rightarrow> event list \<Rightarrow> blob_manifest option" where
  "seen_manifest vn s key [] = None"
| "seen_manifest vn s key (e # h) =
     (if is_publish (fst e) then None
      else case manifest_event vn s key (fst e) (snd e) of
        Some m \<Rightarrow> Some m
      | None \<Rightarrow> seen_manifest vn s key h)"

section \<open>The discipline\<close>

text \<open>
  A manifest is published only for a committed upload whose content the service served back in
  full; an object is deleted only if it is the payload this \<open>Put\<close> staged, and after publication
  only once a manifest read back names another payload.
\<close>

definition put_allowed :: "name_validator \<Rightarrow> store \<Rightarrow> string \<Rightarrow> allowed" where
  "put_allowed vn s key h cmd \<longleftrightarrow>
     (case cmd of
        PutObject c i \<Rightarrow>
          \<not> published h
          \<and> (\<exists>pk content. uploaded h = Some (pk, content)
               \<and> length (served pk h) = length content
               \<and> sum256 (served pk h) = sum256 content
               \<and> manifestObjectKey vn (st_prefix s) key = Inr (pi_key i)
               \<and> encodeManifest vn \<lparr>LogicalKey = key, PayloadKey = pk,
                    Size = int (length content), Digest = sum256 content\<rparr> = Inr (pi_body i))
      | DeleteObject c i \<Rightarrow>
          (\<exists>content. uploaded h = Some (oi_key i, content))
          \<and> (published h \<longrightarrow>
               (\<exists>m. seen_manifest vn s key h = Some m \<and> PayloadKey m \<noteq> oi_key i))
      | _ \<Rightarrow> True)"

definition put_succeeds :: "name_validator \<Rightarrow> store \<Rightarrow> string \<Rightarrow> event list \<Rightarrow> bool" where
  "put_succeeds vn s key h \<longleftrightarrow>
     (\<exists>pk content. uploaded h = Some (pk, content)
        \<and> int (length content) \<le> ro_maxAccountedObjectSize (st_options s)
        \<and> (acknowledged h
           \<or> (\<exists>m. seen_manifest vn s key h = Some m \<and> LogicalKey m = key
                \<and> Size m = int (length content) \<and> Digest m = sum256 content)))"

lemma put_allowed_simps [simp]:
  "put_allowed vn s key h (HeadObject c i)" "put_allowed vn s key h (GetObject c g)"
  "put_allowed vn s key h (UploadObject c u)" "put_allowed vn s key h (CtxErr c)"
  "put_allowed vn s key h Fresh" "put_allowed vn s key h (Cancel j)"
  "put_allowed vn s key h (RandRead n)" "put_allowed vn s key h (Acquire c)"
  "put_allowed vn s key h Release"
  by (simp_all add: put_allowed_def)

text \<open>Events that show nothing of the above.\<close>

lemma quiet_events [simp]:
  "upload_event (HeadObject c i) r = None" "upload_event (GetObject c g) r = None"
  "upload_event (PutObject c p) r = None" "upload_event (DeleteObject c i) r = None"
  "upload_event (CtxErr c) r = None" "upload_event Fresh r = None" "upload_event (Cancel j) r = None"
  "upload_event (RandRead n) r = None" "upload_event (Acquire c) r = None"
  "upload_event Release r = None" "upload_event (UploadObject c u) (RUpload (Inl e) ns) = None"
  "range_event k (HeadObject c i) r = []" "range_event k (PutObject c p) r = []"
  "range_event k (DeleteObject c i) r = []" "range_event k (UploadObject c u) r = []"
  "range_event k (CtxErr c) r = []" "range_event k Fresh r = []" "range_event k (Cancel j) r = []"
  "range_event k (RandRead n) r = []" "range_event k (Acquire c) r = []"
  "range_event k Release r = []" "range_event k (GetObject c g) (RGet (Inl e)) = []"
  "gi_key g \<noteq> k \<Longrightarrow> range_event k (GetObject c g) r = []"
  "manifest_event vn s key (HeadObject c i) r = None"
  "manifest_event vn s key (DeleteObject c i) r = None"
  "manifest_event vn s key (UploadObject c u) r = None"
  "manifest_event vn s key (CtxErr c) r = None" "manifest_event vn s key Fresh r = None"
  "manifest_event vn s key (Cancel j) r = None" "manifest_event vn s key (RandRead n) r = None"
  "manifest_event vn s key (Acquire c) r = None" "manifest_event vn s key Release r = None"
  "manifest_event vn s key (GetObject c g) (RGet (Inl e)) = None"
  by (auto simp: upload_event_def range_event_def manifest_event_def
      split: resp.splits sum.splits option.splits)

section \<open>Along the helpers\<close>

text \<open>A payload key is not in the manifest namespace.\<close>

lemma payload_not_manifest:
  assumes "newPayloadObjectKey vn a (st_prefix s) key = Inr pk"
  shows "pk \<notin> manifest_keys s"
  using assms by (auto simp: newPayloadObjectKey_Inr payloadRoot_def namespaceRoot_def
      payloadNamespace_def manifestNamespace_def has_prefix_iff)

lemma legacy_in_manifest_keys:
  "legacyManifestObjectKey (st_prefix s) key = Some k \<Longrightarrow> k \<in> manifest_keys s"
  by (auto simp: legacyManifestObjectKey_def manifestDigestRoot_def Let_def split: if_splits)

lemma accept_length:
  "accept_manifest vn s key n out = Inr m \<Longrightarrow> go_length out = Some n"
  by (auto simp: accept_manifest_def split: option.splits if_splits)

lemma readManifestAt_along:
  assumes "mk \<in> manifest_keys s" "pk \<notin> manifest_keys s"
    and "\<And>h' r. uploaded h' = uploaded h \<Longrightarrow> served pk h' = served pk h \<Longrightarrow>
      published h' = published h \<Longrightarrow> acknowledged h' = acknowledged h \<Longrightarrow>
      (\<And>m. r = Inr m \<Longrightarrow> seen_manifest vn s key h' = Some m \<and> LogicalKey m = key) \<Longrightarrow> Q h' r"
  shows "along (put_allowed vn s key) (readManifestAt vn s c mk key legacy) h Q"
proof -
  have ne: "mk \<noteq> pk" using assms(1,2) by blast
  have seen: "manifest_event vn s key (GetObject c (manifest_range s mk len head)) (RGet (Inr out))
      = Some m" if "accept_manifest vn s key len out = Inr m" for len head out m
    using that assms(1) accept_length [OF that]
    by (simp add: manifest_event_def manifest_range_def)
  show ?thesis
    using ne
    by (auto simp: readManifestAt_def get_manifest_def manifest_range_def seen
        [unfolded manifest_range_def] bound_manifest_def intro!: assms(3)
        dest: accept_manifest_bound split: sum.split option.split)
qed

lemma copy_range_served:
  assumes "copy_range out expected = Inr written" "0 \<le> expected"
  shows "int (length written) = expected
    \<and> range_event k (GetObject c g) (RGet (Inr out)) = (if gi_key g = k then written else [])"
proof -
  from assms obtain b rest where b: "go_body out = Some b" "go_length out = Some expected"
    and c: "copy_n (bd_script b) (nat expected) = ((written, None), rest)"
    and len: "int (length written) = expected"
    by (auto simp: copy_range_def split: option.splits prod.splits if_splits)
  from copy_n_bytes [OF c] len have "take (nat expected) (script_bytes (bd_script b)) = written"
    by (metis append_eq_conv_conj nat_int)
  with b len show ?thesis by (simp add: range_event_def)
qed

lemma verify_ranges_along:
  assumes "pk \<notin> manifest_keys s"
  shows "\<lbrakk>0 \<le> offset; served pk h = hashed; int (length hashed) = min offset sz;
      \<And>h' x. uploaded h' = uploaded h \<Longrightarrow> published h' = published h \<Longrightarrow>
        acknowledged h' = acknowledged h \<Longrightarrow>
        (x = None \<Longrightarrow> int (length (served pk h')) = sz \<and> sum256 (served pk h') = digest) \<Longrightarrow>
        Q h' x\<rbrakk>
    \<Longrightarrow> along (put_allowed vn s key) (verify_ranges s c pk sz digest etag offset hashed) h Q"
proof (induction s c pk sz digest etag offset hashed arbitrary: h rule: verify_ranges.induct)
  case (1 s c pk sz digest etag offset hashed)
  show ?case
  proof (cases "offset < sz")
    case False
    with "1.prems" show ?thesis by (subst verify_ranges.simps) auto
  next
    case True
    define stop where "stop = min (offset + verificationRangeBytes - 1) (sz - 1)"
    define g where "g = payload_range s pk offset stop etag"
    have g: "gi_key g = pk" by (simp add: g_def payload_range_def)
    have ex: "0 \<le> stop - offset + 1" "offset + (stop - offset + 1) = min (offset + verificationRangeBytes) sz"
      using True by (auto simp: stop_def verificationRangeBytes_def)
    have step: "along (put_allowed vn s key)
        (verify_ranges s c pk sz digest etag (offset + verificationRangeBytes) (hashed @ written))
        ((GetObject c g, RGet (Inr out)) # h) Q"
      if "copy_range out (stop - offset + 1) = Inr written" for out written
    proof (rule "1.IH" [OF True stop_def refl that])
      from copy_range_served [OF that ex(1), of pk c g]
      have w: "int (length written) = stop - offset + 1"
        "range_event pk (GetObject c g) (RGet (Inr out)) = written" using g by simp_all
      show "served pk ((GetObject c g, RGet (Inr out)) # h) = hashed @ written"
        using "1.prems"(2) w(2) by simp
      show "int (length (hashed @ written)) = min (offset + verificationRangeBytes) sz"
        using "1.prems"(3) w(1) ex(2) True by simp
      show "0 \<le> offset + verificationRangeBytes"
        using "1.prems"(1) by (simp add: verificationRangeBytes_def)
    qed (use "1.prems"(4) in auto)
    show ?thesis
      by (subst verify_ranges.simps)
        (use True step in \<open>auto simp: Let_def stop_def [symmetric] g_def [symmetric]
          intro!: "1.prems"(4) split: sum.split\<close>)
  qed
qed

lemma verifyPayload_along:
  assumes "pk \<notin> manifest_keys s" "served pk h = []" "0 \<le> sz"
    and "\<And>h' x. uploaded h' = uploaded h \<Longrightarrow> published h' = published h \<Longrightarrow>
      acknowledged h' = acknowledged h \<Longrightarrow>
      (x = None \<Longrightarrow> int (length (served pk h')) = sz \<and> sum256 (served pk h') = digest) \<Longrightarrow> Q h' x"
  shows "along (put_allowed vn s key) (verifyPayload s c pk sz digest) h Q"
proof -
  define i where "i = object_at s pk"
  have "Q ((HeadObject c i, r) # h) (Some x)"
    "Q ((CtxErr c, r') # (HeadObject c i, r) # h) (Some x)" for r r' x
    by (rule assms(4); simp)+
  moreover have "along (put_allowed vn s key) (verify_ranges s c pk sz digest etag 0 [])
      ((HeadObject c i, r) # h) Q" for etag r
    using assms(2,3) by (intro verify_ranges_along [OF assms(1)] assms(4)) simp_all
  ultimately show ?thesis
    by (simp add: verifyPayload_def i_def [symmetric] split: sum.split)
qed

text \<open>The states of \<open>Put\<close> between its steps.\<close>

definition staged :: "string \<Rightarrow> bytes \<Rightarrow> event list \<Rightarrow> bool" where
  "staged pk content h \<longleftrightarrow> uploaded h = Some (pk, content) \<and> \<not> published h \<and> \<not> acknowledged h"

definition verified :: "string \<Rightarrow> bytes \<Rightarrow> event list \<Rightarrow> bool" where
  "verified pk content h \<longleftrightarrow> staged pk content h
     \<and> length (served pk h) = length content \<and> sum256 (served pk h) = sum256 content"

text \<open>What a return value and \<open>cleanupSafe\<close> promise together.\<close>

definition put_outcome ::
    "name_validator \<Rightarrow> store \<Rightarrow> string \<Rightarrow> string \<Rightarrow> event list \<Rightarrow> err option \<times> bool \<Rightarrow> bool" where
  "put_outcome vn s key pk h r \<longleftrightarrow>
     (fst r = None \<longrightarrow> put_succeeds vn s key h)
     \<and> (snd r \<longrightarrow> (\<exists>content. uploaded h = Some (pk, content))
          \<and> (published h \<longrightarrow> (\<exists>m. seen_manifest vn s key h = Some m \<and> PayloadKey m \<noteq> pk)))"

lemma outcome_failed:
  "snd r \<longrightarrow> staged pk content h \<Longrightarrow> fst r \<noteq> None \<Longrightarrow> put_outcome vn s key pk h r"
  by (auto simp: put_outcome_def staged_def)

lemma resolve_publish_along:
  assumes "mk \<in> manifest_keys s" "pk \<notin> manifest_keys s" "uploaded h = Some (pk, content)"
    and "int (length content) \<le> ro_maxAccountedObjectSize (st_options s)"
    and "LogicalKey m = key" "Size m = int (length content)" "Digest m = sum256 content"
  shows "along (put_allowed vn s key) (resolve_publish vn s c key mk pk m op) h
    (put_outcome vn s key pk)"
  unfolding resolve_publish_def readManifest_def along_bind
proof (rule readManifestAt_along [OF assms(1,2)])
  fix h' and r :: "blob_manifest result"
  assume h': "uploaded h' = uploaded h" "served pk h' = served pk h" "published h' = published h"
    and seen: "\<And>m. r = Inr m \<Longrightarrow> seen_manifest vn s key h' = Some m \<and> LogicalKey m = key"
  show "along (put_allowed vn s key)
      (case r of Inl e \<Rightarrow> pbind (ctx_or c (BackendError op)) (\<lambda>x. Ret (Some x, False))
       | Inr existing \<Rightarrow> Ret (if manifestsMatch existing m then None
           else Some (BlobConflictError key), PayloadKey existing \<noteq> pk)) h' (put_outcome vn s key pk)"
    using h' seen assms
    by (auto simp: put_outcome_def put_succeeds_def manifestsMatch_def split: sum.split)
qed

lemma put_publish_along:
  assumes "mk \<in> manifest_keys s" "pk \<notin> manifest_keys s" "verified pk content h"
    and "int (length content) \<le> ro_maxAccountedObjectSize (st_options s)"
    and "manifestObjectKey vn (st_prefix s) key = Inr mk"
    and m: "m = \<lparr>LogicalKey = key, PayloadKey = pk, Size = int (length content),
      Digest = sum256 content\<rparr>"
    and "encodeManifest vn m = Inr encoded"
  shows "along (put_allowed vn s key) (put_publish vn s c key mk pk m encoded) h
    (put_outcome vn s key pk)"
proof -
  define i where "i = applyEncryption s \<lparr>pi_bucket = ro_bucket (st_options s), pi_key = mk,
    pi_body = encoded, pi_length = int (length encoded), pi_if_none_match = Some ''*'',
    pi_sse = None, pi_kms = None\<rparr>"
  have up: "uploaded h = Some (pk, content)" using assms(3) by (simp add: verified_def staged_def)
  have "put_allowed vn s key h (PutObject c i)"
    using assms(3,5,7) by (auto simp: put_allowed_def i_def m verified_def staged_def)
  moreover have "along (put_allowed vn s key) (resolve_publish vn s c key mk pk m op)
      ((PutObject c i, r) # h) (put_outcome vn s key pk)" for op r
    by (rule resolve_publish_along [OF assms(1,2)]) (use up assms(4) in \<open>simp_all add: m\<close>)
  moreover have "put_outcome vn s key pk ((PutObject c i, RErr None) # h) (None, False)"
    using up assms(4) by (auto simp: put_outcome_def put_succeeds_def)
  ultimately show ?thesis
    by (auto simp: put_publish_def publishManifest_def Let_def i_def [symmetric] split: option.split)
qed

lemma settle_along:
  assumes "pk \<notin> manifest_keys s" "verified pk content h"
    and "int (length content) \<le> ro_maxAccountedObjectSize (st_options s)"
    and "LogicalKey m = key" "Size m = int (length content)" "Digest m = sum256 content"
    and go: "\<And>h'. verified pk content h' \<Longrightarrow> Q h' (False, None)"
    and out: "\<And>h' e. put_outcome vn s key pk h' (e, True) \<Longrightarrow> Q h' (True, e)"
  shows "along (put_allowed vn s key) (settleAgainstLegacyManifest vn s c key m) h Q"
proof (cases "legacyManifestObjectKey (st_prefix s) key")
  case None
  then show ?thesis using go assms(2) by (simp add: settleAgainstLegacyManifest_def)
next
  case (Some lk)
  have "along (put_allowed vn s key) (readManifestAt vn s c lk key True) h
    (\<lambda>h' r. along (put_allowed vn s key)
      (case r of Inl e \<Rightarrow> Ret (if is_not_found e then (False, None) else (True, Some e))
       | Inr existing \<Rightarrow> Ret (True, if manifestsMatch existing m then None
           else Some (BlobConflictError key))) h' Q)"
  proof (rule readManifestAt_along [OF legacy_in_manifest_keys [OF Some] assms(1)])
    fix h' and r :: "blob_manifest result"
    assume h': "uploaded h' = uploaded h" "served pk h' = served pk h" "published h' = published h"
      "acknowledged h' = acknowledged h"
      and seen: "\<And>m. r = Inr m \<Longrightarrow> seen_manifest vn s key h' = Some m \<and> LogicalKey m = key"
    have v: "verified pk content h'" using assms(2) h' by (simp add: verified_def staged_def)
    then have up: "uploaded h' = Some (pk, content)" "\<not> published h'"
      by (simp_all add: verified_def staged_def)
    show "along (put_allowed vn s key)
      (case r of Inl e \<Rightarrow> Ret (if is_not_found e then (False, None) else (True, Some e))
       | Inr existing \<Rightarrow> Ret (True, if manifestsMatch existing m then None
           else Some (BlobConflictError key))) h' Q"
    proof (cases r)
      case (Inl e)
      with v go up show ?thesis by (auto intro!: out simp: put_outcome_def)
    next
      case (Inr existing)
      with seen up assms(3-6) show ?thesis
        by (auto intro!: out simp: put_outcome_def put_succeeds_def manifestsMatch_def)
    qed
  qed
  with Some show ?thesis by (simp add: settleAgainstLegacyManifest_def readLegacyManifest_def)
qed

text \<open>What follows the verification.\<close>

lemma put_verified_along:
  assumes "mk \<in> manifest_keys s" "pk \<notin> manifest_keys s" "staged pk content h"
    and "int (length content) \<le> ro_maxAccountedObjectSize (st_options s)"
    and "manifestObjectKey vn (st_prefix s) key = Inr mk"
    and m: "m = \<lparr>LogicalKey = key, PayloadKey = pk, Size = int (length content), Digest = sum256 content\<rparr>"
    and v: "v = None \<Longrightarrow> verified pk content h"
  shows "along (put_allowed vn s key)
    (case v of Some e \<Rightarrow> Ret (Some e, True)
     | None \<Rightarrow> (case encodeManifest vn m of
           Inl e \<Rightarrow> Ret (Some e, True)
         | Inr encoded \<Rightarrow> pbind (settleAgainstLegacyManifest vn s c key m) (\<lambda>(settled, e).
             if settled \<or> e \<noteq> None then Ret (e, True)
             else put_publish vn s c key mk pk m encoded))) h (put_outcome vn s key pk)"
proof (cases v)
  case None
  have "along (put_allowed vn s key) (settleAgainstLegacyManifest vn s c key m) h
      (\<lambda>h' x. along (put_allowed vn s key)
        (case x of (settled, e) \<Rightarrow> if settled \<or> e \<noteq> None then Ret (e, True)
          else put_publish vn s c key mk pk m encoded) h' (put_outcome vn s key pk))"
    if "encodeManifest vn m = Inr encoded" for encoded
    by (rule settle_along [OF assms(2) v [OF None] assms(4)])
      (use put_publish_along [OF assms(1,2) _ assms(4,5) m that] in \<open>simp_all add: m\<close>)
  with None show ?thesis by (auto intro!: outcome_failed assms(3) split: sum.split)
next
  case (Some e)
  then show ?thesis by (auto intro!: outcome_failed assms(3))
qed

lemma put_uploaded_along:
  assumes "mk \<in> manifest_keys s" "pk \<notin> manifest_keys s" "staged pk content h" "served pk h = []"
    and "int (length content) \<le> ro_maxAccountedObjectSize (st_options s)"
    and "manifestObjectKey vn (st_prefix s) key = Inr mk"
  shows "along (put_allowed vn s key)
    (put_uploaded vn s c key mk pk len (int (length content)) (sum256 content)) h
    (put_outcome vn s key pk)"
proof -
  define m where "m = \<lparr>LogicalKey = key, PayloadKey = pk, Size = int (length content),
    Digest = sum256 content\<rparr>"
  define rest where "rest v =
    (case v of Some e \<Rightarrow> Ret (Some e, True)
     | None \<Rightarrow> (case encodeManifest vn m of
           Inl e \<Rightarrow> Ret (Some e, True)
         | Inr encoded \<Rightarrow> pbind (settleAgainstLegacyManifest vn s c key m) (\<lambda>(settled, e).
             if settled \<or> e \<noteq> None then Ret (e, True)
             else put_publish vn s c key mk pk m encoded)))" for v :: "err option"
  have "along (put_allowed vn s key) (verifyPayload s c pk (int (length content)) (sum256 content)) h
      (\<lambda>h' v. along (put_allowed vn s key) (rest v) h' (put_outcome vn s key pk))"
  proof (rule verifyPayload_along [OF assms(2,4)])
    fix h' and v :: "err option"
    assume h': "uploaded h' = uploaded h" "published h' = published h"
        "acknowledged h' = acknowledged h"
      and ok: "v = None \<Longrightarrow> int (length (served pk h')) = int (length content)
        \<and> sum256 (served pk h') = sum256 content"
    have st: "staged pk content h'" using assms(3) h' by (simp add: staged_def)
    with ok show "along (put_allowed vn s key) (rest v) h' (put_outcome vn s key pk)"
      unfolding rest_def by (intro put_verified_along [OF assms(1,2) st assms(5,6) m_def]) (simp add: verified_def)
  qed simp
  moreover have "put_uploaded vn s c key mk pk len (int (length content)) (sum256 content) =
    (if len \<noteq> Some (int (length content)) then Ret (Some (integrityError ''upload length''), True)
     else pbind (verifyPayload s c pk (int (length content)) (sum256 content)) rest)"
    by (simp add: put_uploaded_def Let_def m_def [symmetric] rest_def [abs_def])
  ultimately show ?thesis using assms(3) by (auto intro!: outcome_failed)
qed

text \<open>What the accounting reader knows of the content.\<close>

lemma upload_content:
  assumes "0 \<le> ro_maxAccountedObjectSize (st_options s)"
    and "content = fst (fst (read_seq (accounted_read script_read) (ui_body (upload_of s pk src)) ns))"
  shows "acc_size (read_by_upload (upload_of s pk src) ns) = int (length content)"
    "fst (accounted_digest (read_by_upload (upload_of s pk src) ns)) = sum256 content"
    "int (length content) \<le> ro_maxAccountedObjectSize (st_options s)"
proof -
  let ?r = "newAccountedHashReader src (ro_maxAccountedObjectSize (st_options s))"
  obtain es r' where seq: "read_seq (accounted_read script_read) ?r ns = ((content, es), r')"
    using assms(2) by (metis prod.collapse upload_of_simps(4))
  from script.accounted_seq [OF accounted_ok_new [OF assms(1)] seq]
  have ok: "accounted_ok r'" "acc_hash r' = content"
    "acc_maximum r' = ro_maxAccountedObjectSize (st_options s)"
    by (simp_all add: newAccountedHashReader_def)
  have r': "read_by_upload (upload_of s pk src) ns = r'" using seq by (simp add: read_by_upload_def)
  from ok show "acc_size (read_by_upload (upload_of s pk src) ns) = int (length content)"
    "int (length content) \<le> ro_maxAccountedObjectSize (st_options s)"
    by (simp_all add: r' accounted_ok_def)
  show "fst (accounted_digest (read_by_upload (upload_of s pk src) ns)) = sum256 content"
    using accounted_digest_ok [OF ok(1)] ok(2) by (simp add: r')
qed

lemma put_staged_along:
  assumes "mk \<in> manifest_keys s" "pk \<notin> manifest_keys s"
    and "\<not> published h" "\<not> acknowledged h" "served pk h = []"
    and "0 \<le> ro_maxAccountedObjectSize (st_options s)"
    and "manifestObjectKey vn (st_prefix s) key = Inr mk"
  shows "along (put_allowed vn s key) (put_staged vn s c key mk pk src) h (put_outcome vn s key pk)"
proof -
  define u where "u = upload_of s pk src"
  have committed: "along (put_allowed vn s key)
      (put_uploaded vn s c key mk pk len (acc_size (read_by_upload u ns))
        (fst (accounted_digest (read_by_upload u ns))))
      ((UploadObject c u, RUpload (Inr len) ns) # h) (put_outcome vn s key pk)" for len ns
  proof -
    define content where
      "content = fst (fst (read_seq (accounted_read script_read) (ui_body u) ns))"
    note c = upload_content [OF assms(6) content_def [unfolded u_def], folded u_def]
    show ?thesis
      unfolding c(1,2)
      by (rule put_uploaded_along [OF assms(1,2) _ _ c(3) assms(7)])
        (use assms(3-5) in \<open>simp_all add: staged_def upload_event_def content_def u_def\<close>)
  qed
  show ?thesis
    by (auto simp: put_staged_def Let_def u_def [symmetric] put_outcome_def committed
        split: sum.split option.split)
qed

lemma put_holding_along:
  assumes "\<not> published h" "\<not> acknowledged h" "\<And>k. served k h = []"
    and "0 \<le> ro_maxAccountedObjectSize (st_options s)"
  shows "along (put_allowed vn s key) (put_holding vn s c key src) h
    (\<lambda>h' e. e = None \<longrightarrow> put_succeeds vn s key h')"
proof -
  have cleanup: "along (put_allowed vn s key) (put_cleanup s c pk (snd r)) h'
      (\<lambda>h'' _. fst r = None \<longrightarrow> put_succeeds vn s key h'')"
    if "put_outcome vn s key pk h' r" for pk h' r
    using that
    by (auto simp: put_cleanup_def deletePayloadBestEffort_def put_outcome_def put_succeeds_def
        put_allowed_def object_at_def)
  have staged: "along (put_allowed vn s key) (put_staged vn s c key mk pk src) h'
      (\<lambda>h'' r. along (put_allowed vn s key)
        (case r of (e, safe) \<Rightarrow> pbind (put_cleanup s c pk safe) (\<lambda>_. Ret e)) h''
        (\<lambda>h' e. e = None \<longrightarrow> put_succeeds vn s key h'))"
    if "manifestObjectKey vn (st_prefix s) key = Inr mk"
      "newPayloadObjectKey vn a (st_prefix s) key = Inr pk"
      "\<not> published h'" "\<not> acknowledged h'" "served pk h' = []" for mk pk a h'
    using put_staged_along [OF own_manifestObjectKey [OF that(1)] payload_not_manifest [OF that(2)]
        that(3-5) assms(4) that(1)] cleanup
    by (fastforce elim!: along_mono split: prod.split)
  show ?thesis
    using assms(1-3)
    by (auto simp: put_holding_def draw_payload_key_def intro!: staged split: sum.split)
qed

lemma Put_along:
  assumes "0 \<le> ro_maxAccountedObjectSize (st_options s)"
  shows "along (put_allowed vn s key) (Put vn s ctx key src) []
    (\<lambda>h e. e = None \<longrightarrow> put_succeeds vn s key h)"
proof -
  have mono: "put_succeeds vn s key ((Release, r) # h) = put_succeeds vn s key h"
    "put_succeeds vn s key ((Cancel i, r) # h) = put_succeeds vn s key h" for r i h
    by (simp_all add: put_succeeds_def)
  show ?thesis
    by (auto simp: Put_def put_bounded_def mono
        intro!: along_mono [OF put_holding_along [OF _ _ _ assms]] split: option.split sum.split)
qed

section \<open>Properties\<close>

text \<open>Two behaviours of \<open>Put\<close> of an empty source, for the witnesses: the service commits
  everything, or misreports the length of the upload.\<close>

lemma put_example_names:
  obtains mk pk enc where
    "manifestObjectKey grammar_validator ''dep'' ''a'' = Inr mk"
    "newPayloadObjectKey grammar_validator (Some (replicate 16 7)) ''dep'' ''a'' = Inr pk"
    "encodeManifest grammar_validator \<lparr>LogicalKey = ''a'', PayloadKey = pk, Size = 0,
       Digest = sum256 []\<rparr> = Inr enc"
    "legacyManifestObjectKey ''dep'' ''a'' = None"
    "payloadObjectKeyMatches ''dep'' ''a'' pk"
    "decodeManifest grammar_validator [(enc, None)] (int (length enc)) =
       Inr \<lparr>LogicalKey = ''a'', PayloadKey = pk, Size = 0, Digest = sum256 []\<rparr>"
    "manifestHeaderBytes \<le> length enc" "length enc \<le> maxManifestBytes"
proof -
  let ?m = "\<lambda>pk. \<lparr>LogicalKey = ''a'', PayloadKey = pk, Size = 0, Digest = sum256 []\<rparr> :: blob_manifest"
  have names: "grammar_validator ''dep'' = None" "grammar_validator ''a'' = None" by code_simp+
  have b64: "length (b64_encode (bytes_of ''a'')) = 2" by (simp add: length_b64_encode)
  then have mk: "\<exists>mk. manifestObjectKey grammar_validator ''dep'' ''a'' = Inr mk"
    using names by (simp add: manifestObjectKey_Inr segmentEncoding_short limits)
  obtain pk where pk: "newPayloadObjectKey grammar_validator (Some (replicate 16 7)) ''dep'' ''a'' = Inr pk"
    using names by (simp add: newPayloadObjectKey_Inr limits)
  from own_payload_key_valid [OF _ _ _ pk]
  obtain enc where enc: "encodeManifest grammar_validator (?m pk) = Inr enc"
    by (auto simp: encodeManifest_Inr limits)
  have digest: "digest_ok (?m pk)" by (simp add: digest_ok_def)
  note len = encodeManifest_length [OF enc digest]
  have "proper [(enc, None)]"
    using len by (auto simp: proper_def clean_def limits)
  with decode_encoded [of "[(enc, None)]" grammar_validator "?m pk"] enc digest
  have "decodeManifest grammar_validator [(enc, None)] (int (length enc)) = Inr (?m pk)"
    by (simp add: max_int64_def)
  moreover have "manifestHeaderBytes \<le> length enc" "length enc \<le> maxManifestBytes"
    using len enc by (auto simp: inr_iff)
  moreover have "legacyManifestObjectKey ''dep'' ''a'' = None"
    using b64 by (simp add: legacyManifestObjectKey_def limits)
  moreover have "payloadObjectKeyMatches ''dep'' ''a'' pk"
    by (rule own_payload_key_matches [OF pk]) simp
  ultimately show ?thesis using that mk pk enc by blast
qed

lemmas put_unfold =
  Put_def guard_bound_def Bound_def put_bounded_def validateBlobKey_def acquireTransfer_def
  RequireDeadline_def put_holding_def draw_payload_key_def put_staged_def put_uploaded_def
  put_cleanup_def releaseTransfer_def cancel_def call_def Let_def

lemma sample_max: "0 \<le> ro_maxAccountedObjectSize (st_options sample_store)"
  by (simp add: sample_store_def newStore_def sample_resolved_def)

lemma put_commits:
  "\<exists>t c i. exec (Put grammar_validator sample_store (Some sample_ctx) ''a'' (Some []))
     (t @ (PutObject c i, RErr None) # [(Release, RDone)]) None"
proof -
  obtain mk pk enc where names:
    "manifestObjectKey grammar_validator ''dep'' ''a'' = Inr mk"
    "newPayloadObjectKey grammar_validator (Some (replicate 16 7)) ''dep'' ''a'' = Inr pk"
    "encodeManifest grammar_validator \<lparr>LogicalKey = ''a'', PayloadKey = pk, Size = 0,
       Digest = sum256 []\<rparr> = Inr enc"
    "legacyManifestObjectKey ''dep'' ''a'' = None" by (rule put_example_names)
  have v: "grammar_validator ''dep'' = None" "grammar_validator ''a'' = None" by code_simp+
  let ?u = "upload_of sample_store pk []"
  let ?i = "applyEncryption sample_store \<lparr>pi_bucket = ''bucket'', pi_key = mk, pi_body = enc,
    pi_length = int (length enc), pi_if_none_match = Some ''*'', pi_sse = None, pi_kms = None\<rparr>"
  have acc: "acc_size (read_by_upload ?u []) = 0"
    "fst (accounted_digest (read_by_upload ?u [])) = sum256 []"
    by (simp_all add: read_by_upload_def newAccountedHashReader_def accounted_digest_def)
  have "exec (Put grammar_validator sample_store (Some sample_ctx) ''a'' (Some []))
    ([(Acquire sample_ctx, RErr None), (RandRead 16, RRand (Some (replicate 16 7))),
      (UploadObject sample_ctx ?u, RUpload (Inr (Some 0)) []),
      (HeadObject sample_ctx (object_at sample_store pk),
        RHead (Inr \<lparr>ho_length = Some 0, ho_etag = None\<rparr>))]
     @ (PutObject sample_ctx ?i, RErr None) # [(Release, RDone)]) None"
    by (simp add: put_unfold exec_Do_iff names v acc verifyPayload_def verify_ranges.simps
        settleAgainstLegacyManifest_def put_publish_def publishManifest_def rand_ok_def
        ctx_answer_def)
  then show ?thesis by blast
qed

lemma put_cleans_up:
  "\<exists>t c i e. exec (Put grammar_validator sample_store (Some sample_ctx) ''a'' (Some []))
     (t @ (DeleteObject c i, RErr None) # [(Release, RDone)]) (Some e)"
proof -
  obtain mk pk where names:
    "manifestObjectKey grammar_validator ''dep'' ''a'' = Inr mk"
    "newPayloadObjectKey grammar_validator (Some (replicate 16 7)) ''dep'' ''a'' = Inr pk"
    by (rule put_example_names)
  have v: "grammar_validator ''dep'' = None" "grammar_validator ''a'' = None" by code_simp+
  let ?u = "upload_of sample_store pk []"
  have acc: "acc_size (read_by_upload ?u []) = 0"
    by (simp add: read_by_upload_def newAccountedHashReader_def)
  have "exec (Put grammar_validator sample_store (Some sample_ctx) ''a'' (Some []))
    ([(Acquire sample_ctx, RErr None), (RandRead 16, RRand (Some (replicate 16 7))),
      (UploadObject sample_ctx ?u, RUpload (Inr (Some 1)) []), (CtxErr sample_ctx, RErr None)]
     @ (DeleteObject sample_ctx (object_at sample_store pk), RErr None) # [(Release, RDone)])
    (Some (integrityError ''upload length''))"
    by (simp add: put_unfold exec_Do_iff names v acc ctx_Err_def deletePayloadBestEffort_def
        rand_ok_def ctx_answer_def)
  then show ?thesis by blast
qed

text \<open>
  C5. A manifest is published only after verification, whatever the service answers: when \<open>Put\<close>
  sends a manifest, the payload it names was committed by this call, the service has served back
  for it exactly as many bytes as were uploaded, with the SHA-256 of the uploaded bytes; the
  manifest sent is the encoding of that key, length and digest under the key's own object key; and
  at most one manifest is ever sent.
\<close>

theorem publication_follows_verification:
  assumes "0 \<le> ro_maxAccountedObjectSize (st_options s)"
    and "exec (Put vn s ctx key src) (t @ (PutObject c i, r) # u) e"
  shows "\<exists>pk content. uploaded (rev t) = Some (pk, content)
    \<and> length (served pk (rev t)) = length content
    \<and> sum256 (served pk (rev t)) = sum256 content
    \<and> manifestObjectKey vn (st_prefix s) key = Inr (pi_key i)
    \<and> encodeManifest vn \<lparr>LogicalKey = key, PayloadKey = pk, Size = int (length content),
        Digest = sum256 content\<rparr> = Inr (pi_body i)
    \<and> \<not> published (rev t)"
proof -
  from along_exec [OF assms(2) Put_along [OF assms(1)]]
  have "put_allowed vn s key (rev t) (PutObject c i)" by (auto simp: allowed_trace_def)
  then show ?thesis by (auto simp: put_allowed_def)
qed

lemma publication_follows_verification_witness:
  "\<exists>t (i :: put_input) pk content. uploaded (rev t) = Some (pk, content)
     \<and> sum256 (served pk (rev t)) = sum256 content
     \<and> manifestObjectKey grammar_validator ''dep'' ''a'' = Inr (pi_key i)"
proof -
  obtain t c i where "exec (Put grammar_validator sample_store (Some sample_ctx) ''a'' (Some []))
     (t @ (PutObject c i, RErr None) # [(Release, RDone)]) None"
    using put_commits by blast
  from publication_follows_verification [OF sample_max this] show ?thesis
    unfolding sample_store_simps by blast
qed

text \<open>
  C6. Cleanup never removes what a manifest may name: the only object \<open>Put\<close> ever deletes is the
  payload this very call uploaded, and once it has sent a manifest it deletes that payload only
  after reading back a valid manifest of the key that names another payload; a lost
  acknowledgement alone never licenses it.
\<close>

theorem cleanup_spares_published_payloads:
  assumes "0 \<le> ro_maxAccountedObjectSize (st_options s)"
    and "exec (Put vn s ctx key src) (t @ (DeleteObject c i, r) # u) e"
  shows "(\<exists>content. uploaded (rev t) = Some (oi_key i, content))
    \<and> (published (rev t) \<longrightarrow>
         (\<exists>m. seen_manifest vn s key (rev t) = Some m \<and> PayloadKey m \<noteq> oi_key i))"
proof -
  from along_exec [OF assms(2) Put_along [OF assms(1)]]
  have "put_allowed vn s key (rev t) (DeleteObject c i)" by (auto simp: allowed_trace_def)
  then show ?thesis by (simp add: put_allowed_def)
qed

lemma cleanup_spares_published_payloads_witness:
  "\<exists>t (i :: object_input) content. uploaded (rev t) = Some (oi_key i, content)"
proof -
  obtain t c i e where "exec (Put grammar_validator sample_store (Some sample_ctx) ''a'' (Some []))
     (t @ (DeleteObject c i, RErr None) # [(Release, RDone)]) (Some e)"
    using put_cleans_up by blast
  from cleanup_spares_published_payloads [OF sample_max this] show ?thesis by blast
qed

text \<open>
  C9. Success means durable: \<open>Put\<close> returns nil only if its upload was committed, within the
  accounted size bound, and either the service acknowledged the manifest or a valid manifest of
  the key with the uploaded length and SHA-256 was read back.
\<close>

theorem put_success_is_durable:
  assumes "0 \<le> ro_maxAccountedObjectSize (st_options s)"
    and "exec (Put vn s ctx key src) tr None"
  shows "\<exists>pk content. uploaded (rev tr) = Some (pk, content)
    \<and> int (length content) \<le> ro_maxAccountedObjectSize (st_options s)
    \<and> (acknowledged (rev tr)
       \<or> (\<exists>m. seen_manifest vn s key (rev tr) = Some m \<and> LogicalKey m = key
            \<and> Size m = int (length content) \<and> Digest m = sum256 content))"
  using along_exec [OF assms(2) Put_along [OF assms(1)]] by (simp add: put_succeeds_def)

lemma put_success_is_durable_witness:
  "\<exists>tr pk content. exec (Put grammar_validator sample_store (Some sample_ctx) ''a'' (Some [])) tr None
     \<and> uploaded (rev tr) = Some (pk, content)"
proof -
  obtain tr where "exec (Put grammar_validator sample_store (Some sample_ctx) ''a'' (Some [])) tr None"
    using put_commits by blast
  from put_success_is_durable [OF sample_max this] this show ?thesis by blast
qed

end
