(* ===== verification/BlobReads.thy ===== *)
theory BlobReads
  imports BlobPut
begin

text \<open>
  \<open>Get\<close>, \<open>Delete\<close> and \<open>List\<close> over every behaviour of the service: what a stream is bound to, in
  what order a blob is taken apart, and what a listing returns.
\<close>

section \<open>Get\<close>

text \<open>A stream made from the response to a payload request of an accepted manifest.\<close>

definition stream_of :: "store \<Rightarrow> string \<Rightarrow> blob_manifest \<Rightarrow> script \<Rightarrow> get_stream \<Rightarrow> bool" where
  "stream_of s key m payload st \<longleftrightarrow>
     bound_manifest s key m \<and> 0 \<le> Size m
     \<and> gs_reader st = newBlobReader (newVerifyingBlobReader payload (Size m) (Digest m))"

lemma accept_manifest_size: "accept_manifest vn s key n out = Inr m \<Longrightarrow> 0 \<le> Size m"
proof -
  assume "accept_manifest vn s key n out = Inr m"
  then obtain b :: body where "decodeManifest vn (bd_script b) n = Inr m"
    by (auto simp: accept_manifest_def ebind_Inr split: option.splits if_splits)
  then obtain bs where "parse_manifest vn bs = Inr m" by (auto simp: decodeManifest_Inr)
  then show ?thesis by (auto simp: parse_manifest_def Let_def split: if_splits)
qed

text \<open>The manifest events of a history for one logical key, in any order.\<close>

definition manifest_seen ::
    "name_validator \<Rightarrow> store \<Rightarrow> string \<Rightarrow> blob_manifest \<Rightarrow> event list \<Rightarrow> bool" where
  "manifest_seen vn s key m h \<longleftrightarrow> (\<exists>(c, r) \<in> set h. manifest_event vn s key c r = Some m)"

lemma manifest_seen_Cons:
  "manifest_seen vn s key m h \<Longrightarrow> manifest_seen vn s key m (e # h)"
  by (auto simp: manifest_seen_def)

lemma readManifestAt_seen:
  assumes "mk \<in> manifest_keys s"
    and "\<And>h' r. (\<And>m. r = Inr m \<Longrightarrow> manifest_seen vn s key m h' \<and> bound_manifest s key m \<and> 0 \<le> Size m)
      \<Longrightarrow> set h \<subseteq> set h' \<Longrightarrow> Q h' r"
  shows "along (\<lambda>_ _. True) (readManifestAt vn s c mk key legacy) h Q"
proof -
  have seen: "manifest_event vn s key (GetObject c (manifest_range s mk len head)) (RGet (Inr out))
      = Some m" if "accept_manifest vn s key len out = Inr m" for len head out m
    using that assms(1) accept_length [OF that]
    by (simp add: manifest_event_def manifest_range_def)
  show ?thesis
    by (auto simp: readManifestAt_def get_manifest_def seen manifest_seen_def intro!: assms(2)
        dest: accept_manifest_bound accept_manifest_size split: sum.split option.split)
qed

lemma locate_in_seen:
  assumes "set keys \<subseteq> manifest_keys s"
    and "\<And>h' r. (\<And>mk m. r = Inr (mk, m) \<Longrightarrow>
        manifest_seen vn s key m h' \<and> bound_manifest s key m \<and> 0 \<le> Size m) \<Longrightarrow> Q h' r"
  shows "along (\<lambda>_ _. True) (locate_in vn s c key legacy lastErr keys) h Q"
  using assms(1)
proof (induction keys arbitrary: legacy lastErr h)
  case Nil
  then show ?case by (auto intro: assms(2))
next
  case (Cons mk keys)
  then show ?case
    by (auto intro!: readManifestAt_seen assms(2) split: sum.split)
qed

lemma Get_stream:
  "along (\<lambda>_ _. True) (Get vn s ctx key) h
     (\<lambda>h' g. \<forall>st. g = Inr st \<longrightarrow> (\<exists>m payload. manifest_seen vn s key m h' \<and> stream_of s key m payload st))"
proof -
  have payload: "along (\<lambda>_ _. True) (get_payload s c cb m i) h' Q"
    if "manifest_seen vn s key m h'" "bound_manifest s key m" "0 \<le> Size m"
      "\<And>h' g. (\<And>st. g = Inr st \<Longrightarrow> \<exists>m payload. manifest_seen vn s key m h' \<and> stream_of s key m payload st)
        \<Longrightarrow> Q h' g" for c cb m i h' Q
  proof -
    have reader: "stream_of s key m (bd_script b) st"
      if "gs_reader st = newBlobReader (newVerifyingBlobReader (bd_script b) (Size m) (Digest m))"
      for st :: get_stream and b :: body
      using that \<open>bound_manifest s key m\<close> \<open>0 \<le> Size m\<close> by (simp add: stream_of_def)
    have "\<exists>m payload. manifest_seen vn s key m (e # h') \<and> stream_of s key m payload st"
      if "checked_stream m out = Some rd" "gs_reader st = rd" for out :: get_output and rd e and st :: get_stream
    proof -
      from that(1) obtain b :: body where
        "newBlobReader (newVerifyingBlobReader (bd_script b) (Size m) (Digest m)) = rd"
        by (auto simp: checked_stream_def split: option.splits if_splits)
      with that(2) have "gs_reader st =
        newBlobReader (newVerifyingBlobReader (bd_script b) (Size m) (Digest m))" by simp
      from reader [OF this] \<open>manifest_seen vn s key m h'\<close> manifest_seen_Cons show ?thesis by blast
    qed
    then show ?thesis
      by (auto simp: get_payload_def intro!: that(4) split: sum.split option.split)
  qed
  have holding: "along (\<lambda>_ _. True) (get_holding vn s c cb key) h' Q"
    if "\<And>h' g. (\<And>st. g = Inr st \<Longrightarrow> \<exists>m payload. manifest_seen vn s key m h' \<and> stream_of s key m payload st)
        \<Longrightarrow> Q h' g" for c cb h' Q
    using that
    by (auto simp: get_holding_def locateManifest_def manifest_seen_Cons
        intro!: locate_in_seen payload that dest!: candidates_keys split: sum.split)
  show ?thesis
    by (auto simp: Get_def get_bounded_def intro!: holding split: option.split sum.split)
qed

section \<open>Delete\<close>

text \<open>The manifests of a key that a history shows deleted, with the acknowledgement.\<close>

definition manifest_deleted :: "store \<Rightarrow> string \<Rightarrow> event list \<Rightarrow> bool" where
  "manifest_deleted s mk h \<longleftrightarrow> (\<exists>c. (DeleteObject c (object_at s mk), RErr None) \<in> set h)"

definition manifest_absent :: "store \<Rightarrow> string \<Rightarrow> event list \<Rightarrow> bool" where
  "manifest_absent s mk h \<longleftrightarrow>
     (\<exists>c e. (HeadObject c (object_at s mk), RHead (Inl e)) \<in> set h
        \<and> (isHTTPStatus e 404 \<or> isHTTPStatus e 400))"

text \<open>
  A manifest object is deleted only after a valid manifest was read from the service; a payload
  only after the service acknowledged the deletion of a manifest object, and a valid manifest
  naming that payload was read before.
\<close>

definition delete_allowed :: "name_validator \<Rightarrow> store \<Rightarrow> string \<Rightarrow> string list \<Rightarrow> allowed" where
  "delete_allowed vn s key candidates h cmd \<longleftrightarrow>
     (case cmd of
        DeleteObject c i \<Rightarrow>
          (\<exists>m. manifest_seen vn s key m h
             \<and> (oi_key i \<in> set candidates
                \<or> (oi_key i = PayloadKey m \<and> (\<exists>mk \<in> set candidates. manifest_deleted s mk h))))
      | PutObject c i \<Rightarrow> False
      | UploadObject c i \<Rightarrow> False
      | _ \<Rightarrow> True)"

lemma delete_allowed_simps [simp]:
  "delete_allowed vn s key ks h (HeadObject c i)" "delete_allowed vn s key ks h (GetObject c g)"
  "delete_allowed vn s key ks h (CtxErr c)" "delete_allowed vn s key ks h Fresh"
  "delete_allowed vn s key ks h (Cancel j)" "delete_allowed vn s key ks h (Acquire c)"
  "delete_allowed vn s key ks h Release"
  by (simp_all add: delete_allowed_def)

lemma manifest_gone_Cons:
  "manifest_deleted s mk h \<Longrightarrow> manifest_deleted s mk (e # h)"
  "manifest_absent s mk h \<Longrightarrow> manifest_absent s mk (e # h)"
  by (auto simp: manifest_deleted_def manifest_absent_def)

definition gone :: "store \<Rightarrow> string \<Rightarrow> event list \<Rightarrow> bool" where
  "gone s mk h \<longleftrightarrow> manifest_deleted s mk h \<or> manifest_absent s mk h"

lemma gone_mono: "gone s mk h \<Longrightarrow> set h \<subseteq> set h' \<Longrightarrow> gone s mk h'"
  by (auto simp: gone_def manifest_deleted_def manifest_absent_def)

lemma accept_manifest_not_found: "accept_manifest vn s key n out = Inl e \<Longrightarrow> errors_as as_not_found e = None"
proof -
  have "decodeManifest vn b m = Inl e \<Longrightarrow> errors_as as_not_found e = None" for b m
    by (auto simp: decodeManifest_def parse_manifest_def Let_def integrityError_def
        split: if_splits option.splits prod.splits)
  then show "accept_manifest vn s key n out = Inl e \<Longrightarrow> ?thesis"
    by (auto simp: accept_manifest_def ebind_Inl integrityError_def split: option.splits if_splits)
qed

lemma read_for_delete:
  assumes "mk \<in> manifest_keys s"
    and "\<And>h' r. set h \<subseteq> set h' \<Longrightarrow>
      (\<And>m. r = Inr m \<Longrightarrow> manifest_seen vn s key m h') \<Longrightarrow>
      (\<And>e. r = Inl e \<Longrightarrow> is_not_found e \<Longrightarrow> gone s mk h') \<Longrightarrow> Q h' r"
  shows "along (delete_allowed vn s key ks) (readManifestAt vn s c mk key legacy) h Q"
proof -
  have seen: "manifest_event vn s key (GetObject c (manifest_range s mk len head)) (RGet (Inr out))
      = Some m" if "accept_manifest vn s key len out = Inr m" for len head out m
    using that assms(1) accept_length [OF that]
    by (simp add: manifest_event_def manifest_range_def)
  have absent: "gone s mk ((HeadObject c (object_at s mk), RHead (Inl e)) # h)"
    if "isHTTPStatus e 404 \<or> isHTTPStatus e 400" for e
    using that by (auto simp: gone_def manifest_absent_def)
  show ?thesis
    using absent
    by (auto simp: readManifestAt_def get_manifest_def seen manifest_seen_def integrityError_def
        is_not_found_def intro!: assms(2) dest: accept_manifest_not_found
        split: sum.split option.split)
qed

lemma delete_in_along:
  assumes "set keys \<subseteq> manifest_keys s" "set keys \<subseteq> set ks"
  shows "along (delete_allowed vn s key ks) (delete_in vn s c key legacy keys) h
    (\<lambda>h' e. set h \<subseteq> set h' \<and> (e = None \<longrightarrow> (\<forall>mk \<in> set keys. gone s mk h')))"
  using assms
proof (induction keys arbitrary: legacy h)
  case (Cons mk keys)
  let ?D = "\<lambda>k. DeleteObject c (object_at s k)"
  have rest: "along (delete_allowed vn s key ks) (delete_in vn s c key True keys) h'
      (\<lambda>h'' e. set h \<subseteq> set h'' \<and> (e = None \<longrightarrow> (\<forall>mk \<in> set (mk # keys). gone s mk h'')))"
    if "set h \<subseteq> set h'" "gone s mk h'" for h'
  proof (rule along_mono [OF Cons.IH])
    fix h'' e
    assume "set h' \<subseteq> set h'' \<and> (e = None \<longrightarrow> (\<forall>mk \<in> set keys. gone s mk h''))"
    with that gone_mono show
      "set h \<subseteq> set h'' \<and> (e = None \<longrightarrow> (\<forall>mk \<in> set (mk # keys). gone s mk h''))"
      by fastforce
  qed (use Cons.prems in auto)
  have del: "delete_allowed vn s key ks h' (?D mk)" if "manifest_seen vn s key m h'" for m h'
    using that Cons.prems(2) by (auto simp: delete_allowed_def object_at_def)
  have payload: "delete_allowed vn s key ks ((?D mk, RErr None) # h') (?D (PayloadKey m))"
    if "manifest_seen vn s key m h'" for m h'
    using that Cons.prems(2) manifest_seen_Cons [OF that]
    by (auto simp: delete_allowed_def object_at_def manifest_deleted_def)
  have gone: "gone s mk ((?D (PayloadKey m), r) # (?D mk, RErr None) # h')" for m r h'
    by (auto simp: gone_def manifest_deleted_def)
  have removed: "along (delete_allowed vn s key ks)
      (pbind (call (?D mk) as_err) (\<lambda>e.
         case e of
           Some _ \<Rightarrow> pbind (ctx_or c (BackendError ''manifest delete'')) (\<lambda>x. Ret (Some x))
         | None \<Rightarrow> pbind (deletePayloadBestEffort s c (PayloadKey m)) (\<lambda>_. delete_in vn s c key True keys))) h'
      (\<lambda>h'' e. set h \<subseteq> set h'' \<and> (e = None \<longrightarrow> (\<forall>mk \<in> set (mk # keys). gone s mk h'')))"
    if "set h \<subseteq> set h'" "manifest_seen vn s key m h'" for m h'
  proof -
    have "along (delete_allowed vn s key ks) (delete_in vn s c key True keys)
        ((?D (PayloadKey m), r) # (?D mk, RErr None) # h')
        (\<lambda>h'' e. set h \<subseteq> set h'' \<and> (e = None \<longrightarrow> (\<forall>mk \<in> set (mk # keys). gone s mk h'')))"
      for r by (rule rest) (use that(1) gone in auto)
    with del [OF that(2)] payload [OF that(2)] that(1) show ?thesis
      by (auto simp: deletePayloadBestEffort_def split: option.split)
  qed
  show ?case
    unfolding delete_in.simps along_bind
    by (rule read_for_delete) (use Cons.prems(1) rest removed in \<open>auto split: sum.split\<close>)
qed simp

lemma Delete_along:
  assumes "manifestCandidates vn (st_prefix s) key = Inr ks"
  shows "along (delete_allowed vn s key ks) (Delete vn s ctx key) []
    (\<lambda>h e. e = None \<longrightarrow> (\<forall>mk \<in> set ks. gone s mk h))"
proof -
  have gone: "gone s mk ((Release, r) # h) = gone s mk h" "gone s mk ((Cancel i, r) # h) = gone s mk h"
    for mk r i h
    by (auto simp: gone_def manifest_deleted_def manifest_absent_def)
  have sub: "set ks \<subseteq> manifest_keys s" using candidates_keys [OF assms] .
  show ?thesis
    by (auto simp: Delete_def delete_bounded_def assms gone
        intro!: along_mono [OF delete_in_along [OF sub order_refl]] split: option.split sum.split)
qed

section \<open>List\<close>

text \<open>The logical keys the pages of a history show, and the token the next page must ask for.\<close>

definition page_keys :: "name_validator \<Rightarrow> store \<Rightarrow> string \<Rightarrow> list_output \<Rightarrow> string set" where
  "page_keys vn s prefix out =
     {k. has_prefix k prefix
        \<and> (\<exists>row. Some row \<in> set (lo_rows out)
             \<and> logicalKeyFromManifestObject vn (st_prefix s) row = Some k)}"

definition page_event :: "cmd \<Rightarrow> resp \<Rightarrow> list_output option" where
  "page_event c r =
     (case c of
        ListObjectsV2 x i \<Rightarrow> (case r of RList (Inr out) \<Rightarrow> Some out | _ \<Rightarrow> None)
      | _ \<Rightarrow> None)"

primrec listed :: "name_validator \<Rightarrow> store \<Rightarrow> string \<Rightarrow> event list \<Rightarrow> string set" where
  "listed vn s prefix [] = {}"
| "listed vn s prefix (e # h) =
     (case page_event (fst e) (snd e) of
        Some out \<Rightarrow> page_keys vn s prefix out
      | None \<Rightarrow> {}) \<union> listed vn s prefix h"

primrec next_token :: "event list \<Rightarrow> string option" where
  "next_token [] = None"
| "next_token (e # h) =
     (case page_event (fst e) (snd e) of Some out \<Rightarrow> lo_next out | None \<Rightarrow> next_token h)"

primrec page_pending :: "event list \<Rightarrow> bool" where
  "page_pending [] \<longleftrightarrow> True"
| "page_pending (e # h) \<longleftrightarrow>
     (case page_event (fst e) (snd e) of
        Some out \<Rightarrow> lo_truncated out = Some True | None \<Rightarrow> page_pending h)"

text \<open>A page is asked for only while the last one was truncated, from its token on.\<close>

definition list_allowed :: allowed where
  "list_allowed h cmd \<longleftrightarrow>
     (case cmd of
        ListObjectsV2 c i \<Rightarrow> li_token i = next_token h \<and> page_pending h
      | HeadObject c i \<Rightarrow> False | GetObject c i \<Rightarrow> False | PutObject c i \<Rightarrow> False
      | DeleteObject c i \<Rightarrow> False | UploadObject c i \<Rightarrow> False
      | _ \<Rightarrow> True)"

lemma list_allowed_simps [simp]:
  "list_allowed h (CtxErr c)" "list_allowed h Fresh" "list_allowed h (Cancel j)"
  "list_allowed h (Acquire c)" "list_allowed h Release"
  "list_allowed h (ListObjectsV2 c i) \<longleftrightarrow> li_token i = next_token h \<and> page_pending h"
  by (simp_all add: list_allowed_def)

lemma page_event_simps [simp]:
  "page_event (CtxErr c) r = None" "page_event Fresh r = None" "page_event (Cancel j) r = None"
  "page_event (Acquire c) r = None" "page_event Release r = None"
  "page_event (ListObjectsV2 c i) (RList (Inr out)) = Some out"
  "page_event (ListObjectsV2 c i) (RList (Inl e)) = None"
  by (simp_all add: page_event_def)

lemma fold_rows:
  "fold (list_row vn s prefix) rows seen =
     seen \<union> {k. has_prefix k prefix
       \<and> (\<exists>row. Some row \<in> set rows \<and> logicalKeyFromManifestObject vn (st_prefix s) row = Some k)}"
proof (induction rows arbitrary: seen)
  case (Cons r rows)
  have "list_row vn s prefix r seen = seen \<union> {k. has_prefix k prefix
      \<and> (\<exists>row. r = Some row \<and> logicalKeyFromManifestObject vn (st_prefix s) row = Some k)}"
    by (auto simp: list_row_def split: option.split)
  with Cons show ?case by auto
qed simp

lemma fold_rows_finite: "finite seen \<Longrightarrow> finite (fold (list_row vn s prefix) rows seen)"
proof (induction rows arbitrary: seen)
  case (Cons r rows)
  then show ?case by (simp add: list_row_def split: option.split)
qed simp

definition pages_read ::
    "name_validator \<Rightarrow> store \<Rightarrow> string \<Rightarrow> event list \<Rightarrow> string set result option \<Rightarrow> bool" where
  "pages_read vn s prefix h r \<longleftrightarrow>
     (\<forall>ks. r = Some (Inr ks) \<longrightarrow> ks = listed vn s prefix h \<and> finite ks \<and> \<not> page_pending h)"

lemma pages_read_error: "pages_read vn s prefix h (Some (Inl e))"
  by (simp add: pages_read_def)

lemma list_pages_along:
  "\<lbrakk>seen = listed vn s prefix h; finite seen; cont = next_token h; page_pending h\<rbrakk> \<Longrightarrow>
   along list_allowed (list_pages vn s c prefix fuel cont seen) h (pages_read vn s prefix)"
proof (induction fuel arbitrary: cont seen h)
  case 0
  then show ?case by (simp add: pages_read_def)
next
  case (Suc fuel)
  define i where "i = \<lparr>li_bucket = ro_bucket (st_options s),
    li_prefix = namespaceRoot (st_prefix s) manifestNamespace, li_token = cont,
    li_max = listPageSize\<rparr>"
  have i: "list_allowed h (ListObjectsV2 c i)" using Suc.prems by (simp add: i_def)
  have page: "along list_allowed
      (case next_page out cont of
         None \<Rightarrow> Ret (Some (Inr (fold (list_row vn s prefix) (lo_rows out) seen)))
       | Some (Inl e) \<Rightarrow> Ret (Some (Inl e))
       | Some (Inr t) \<Rightarrow> list_pages vn s c prefix fuel (Some t)
           (fold (list_row vn s prefix) (lo_rows out) seen))
      ((ListObjectsV2 c i, RList (Inr out)) # h) (pages_read vn s prefix)" for out
  proof -
    have rows: "fold (list_row vn s prefix) (lo_rows out) seen =
        listed vn s prefix ((ListObjectsV2 c i, RList (Inr out)) # h)"
      using Suc.prems(1) by (auto simp: fold_rows page_keys_def)
    note fin = fold_rows_finite [OF Suc.prems(2), of vn s prefix "lo_rows out"]
    have "\<not> page_pending ((ListObjectsV2 c i, RList (Inr out)) # h)" if "next_page out cont = None"
      using that by (auto simp: next_page_def split: if_splits option.splits)
    moreover have "along list_allowed (list_pages vn s c prefix fuel (Some t)
        (fold (list_row vn s prefix) (lo_rows out) seen))
        ((ListObjectsV2 c i, RList (Inr out)) # h) (pages_read vn s prefix)" if "next_page out cont = Some (Inr t)" for t
    proof (rule Suc.IH)
      have "lo_truncated out = Some True" "lo_next out = Some t"
        using that by (auto simp: next_page_def split: if_splits option.splits)
      then show "Some t = next_token ((ListObjectsV2 c i, RList (Inr out)) # h)"
        "page_pending ((ListObjectsV2 c i, RList (Inr out)) # h)" by simp_all
    qed (use rows fin in simp_all)
    ultimately show ?thesis
      using rows fin by (auto simp: pages_read_def split: option.split sum.split)
  qed
  show ?case
    using i page
    by (auto simp: i_def [symmetric] Let_def pages_read_error split: sum.split)
qed

lemma sorted_keys_Inr: "sorted_keys r = Inr ks \<longleftrightarrow> (\<exists>S. r = Inr S \<and> ks = sorted_list_of_set S)"
  by (cases r) (auto simp: sorted_keys_def)

lemma List_along:
  "along list_allowed (List_keys vn s ctx prefix fuel) []
     (\<lambda>h r. \<forall>ks. r = Some (Inr ks) \<longrightarrow>
        sorted ks \<and> distinct ks \<and> set ks = listed vn s prefix h \<and> \<not> page_pending h)"
proof -
  have bounded: "along list_allowed (list_bounded vn s c prefix fuel) h
      (\<lambda>h r. \<forall>ks. r = Some (Inr ks) \<longrightarrow>
        sorted ks \<and> distinct ks \<and> set ks = listed vn s prefix h \<and> \<not> page_pending h)"
    if "listed vn s prefix h = {}" "next_token h = None" "page_pending h" for c h
  proof -
    have "along list_allowed (list_pages vn s c prefix fuel None {}) ((Acquire c, RErr None) # h)
        (pages_read vn s prefix)"
      by (rule list_pages_along) (use that in simp_all)
    then show ?thesis
      by (auto simp: list_bounded_def pages_read_def sorted_keys_Inr elim!: along_mono
          split: option.split)
  qed
  show ?thesis
    by (auto simp: List_keys_def intro!: along_mono [OF bounded] split: option.split)
qed

section \<open>Properties\<close>

text \<open>A history in which the key \<open>a\<close> holds an empty blob, for the witnesses.\<close>

lemmas op_unfold =
  Get_def Delete_def guard_bound_def Bound_def get_bounded_def delete_bounded_def
  validateBlobKey_def acquireTransfer_def RequireDeadline_def get_holding_def locateManifest_def
  manifestCandidates_def readManifestAt_def get_manifest_def get_payload_def checked_stream_def
  releaseTransfer_def cancel_def deletePayloadBestEffort_def call_def

definition held_manifest :: "string \<Rightarrow> blob_manifest" where
  "held_manifest pk = \<lparr>LogicalKey = ''a'', PayloadKey = pk, Size = 0, Digest = sum256 []\<rparr>"

definition held_reads :: "string \<Rightarrow> bytes \<Rightarrow> event list" where
  "held_reads mk enc =
     (let n = int (length enc); head = \<lparr>ho_length = Some n, ho_etag = None\<rparr>
      in [(Acquire sample_ctx, RErr None),
          (HeadObject sample_ctx (object_at sample_store mk), RHead (Inr head)),
          (GetObject sample_ctx (manifest_range sample_store mk n head),
           RGet (Inr \<lparr>go_body = Some \<lparr>bd_script = [(enc, None)], bd_close = None\<rparr>,
                      go_length = Some n\<rparr>))])"

definition held_get :: "string \<Rightarrow> event list" where
  "held_get pk =
     [(Fresh, RFresh 0 7),
      (GetObject (with_cancel 7 sample_ctx)
         \<lparr>gi_bucket = ''bucket'', gi_key = pk, gi_range = None, gi_if_match = None\<rparr>,
       RGet (Inr \<lparr>go_body = Some \<lparr>bd_script = [], bd_close = None\<rparr>, go_length = Some 0\<rparr>))]"

definition held_delete :: "string \<Rightarrow> string \<Rightarrow> event list" where
  "held_delete mk pk =
     [(DeleteObject sample_ctx (object_at sample_store mk), RErr None),
      (DeleteObject sample_ctx (object_at sample_store pk), RErr None),
      (Release, RDone)]"

lemma held_blob_examples:
  obtains mk pk enc where
    "manifestCandidates grammar_validator ''dep'' ''a'' = Inr [mk]"
    "\<exists>st. exec (Get grammar_validator sample_store (Some sample_ctx) ''a'')
       (held_reads mk enc @ held_get pk) (Inr st)
       \<and> gs_reader st = newBlobReader (newVerifyingBlobReader [] 0 (sum256 []))"
    "exec (Delete grammar_validator sample_store (Some sample_ctx) ''a'')
       (held_reads mk enc @ held_delete mk pk) None"
proof -
  obtain mk pk enc where names:
    "manifestObjectKey grammar_validator ''dep'' ''a'' = Inr mk"
    "legacyManifestObjectKey ''dep'' ''a'' = None"
    "payloadObjectKeyMatches ''dep'' ''a'' pk"
    "decodeManifest grammar_validator [(enc, None)] (int (length enc)) = Inr (held_manifest pk)"
    "manifestHeaderBytes \<le> length enc" "length enc \<le> maxManifestBytes"
    by (rule put_example_names) (simp add: held_manifest_def)
  have v: "grammar_validator ''a'' = None" by code_simp
  have cands: "manifestCandidates grammar_validator ''dep'' ''a'' = Inr [mk]"
    using names by (simp add: manifestCandidates_def)
  have accept: "accept_manifest grammar_validator sample_store ''a'' (int (length enc))
      \<lparr>go_body = Some \<lparr>bd_script = [(enc, None)], bd_close = None\<rparr>, go_length = Some (int (length enc))\<rparr>
    = Inr (held_manifest pk)"
    using names by (simp add: accept_manifest_def) (simp add: held_manifest_def)
  have get: "\<exists>st. exec (Get grammar_validator sample_store (Some sample_ctx) ''a'')
       (held_reads mk enc @ held_get pk) (Inr st)
       \<and> gs_reader st = newBlobReader (newVerifyingBlobReader [] 0 (sum256 []))"
    using names(5,6) accept cands v
    by (simp add: op_unfold exec_Do_iff held_reads_def held_get_def held_manifest_def Let_def
        ctx_answer_def)
  have "exec (Delete grammar_validator sample_store (Some sample_ctx) ''a'')
       (held_reads mk enc @ held_delete mk pk) None"
    using names(5,6) accept cands v
    by (simp add: op_unfold exec_Do_iff held_reads_def held_delete_def held_manifest_def Let_def
        ctx_answer_def)
  with get cands that show ?thesis by blast
qed

text \<open>
  C7. A stream \<open>Get\<close> returns is bound to a manifest the service served and the code accepted: a
  manifest of the requested key, naming a payload of that key in this deployment. Whatever the
  payload response then delivers and whatever goroutines do with the stream, the reads report
  \<open>io.EOF\<close> only after exactly the bytes with the size and the SHA-256 of that manifest.
\<close>

theorem get_streams_are_verified:
  assumes "exec (Get vn s ctx key) tr (Inr st)"
  shows "\<exists>m payload. manifest_seen vn s key m (rev tr) \<and> LogicalKey m = key
    \<and> payloadObjectKeyMatches (st_prefix s) key (PayloadKey m)
    \<and> gs_reader st = newBlobReader (newVerifyingBlobReader payload (Size m) (Digest m))
    \<and> (\<forall>body_close w h late b h'.
         reader_reach body_close (newVerifyingBlobReader payload (Size m) (Digest m)) w
         \<and> rs_history w = h @ ReadReturn late b (Some EOF) # h' \<longrightarrow>
         int (length (delivered h' @ b)) = Size m \<and> sum256 (delivered h' @ b) = Digest m)"
proof -
  from along_exec [OF assms Get_stream, of "[]"] obtain m payload where
    m: "manifest_seen vn s key m (rev tr)" "bound_manifest s key m" "0 \<le> Size m"
      "gs_reader st = newBlobReader (newVerifyingBlobReader payload (Size m) (Digest m))"
    by (auto simp: stream_of_def)
  have "int (length (delivered h' @ b)) = Size m \<and> sum256 (delivered h' @ b) = Digest m"
    if "reader_reach body_close (newVerifyingBlobReader payload (Size m) (Digest m)) w"
      "rs_history w = h @ ReadReturn late b (Some EOF) # h'" for body_close w h late b h'
    by (rule eof_verified_at [of _ _ h late b h'])
      (use reach_read_inv [OF m(3) that(1)] that(2) in \<open>simp add: read_inv_def Let_def\<close>)
  moreover have "LogicalKey m = key" "payloadObjectKeyMatches (st_prefix s) key (PayloadKey m)"
    using m(2) by (simp_all add: bound_manifest_def)
  ultimately show ?thesis using m(1,4) by (intro exI [of _ m] exI [of _ payload]) blast
qed

lemma get_streams_are_verified_witness:
  "\<exists>tr m. (\<exists>st. exec (Get grammar_validator sample_store (Some sample_ctx) ''a'') tr (Inr st))
     \<and> manifest_seen grammar_validator sample_store ''a'' m (rev tr) \<and> LogicalKey m = ''a''"
  by (rule held_blob_examples) (blast dest: get_streams_are_verified)

text \<open>
  C10. A blob is taken apart manifest first: \<open>Delete\<close> publishes nothing; it deletes one of the
  key's own manifest objects only after a valid manifest of the key was read from the service, and
  a payload only after the service acknowledged such a deletion and a valid manifest of the key
  named that payload.
\<close>

theorem delete_unlinks_before_payload:
  assumes "manifestCandidates vn (st_prefix s) key = Inr candidates"
    and "exec (Delete vn s ctx key) (t @ (c, r) # u) e"
  shows "(\<forall>x i. c \<noteq> PutObject x i) \<and> (\<forall>x i. c \<noteq> UploadObject x i)
    \<and> (\<forall>x i. c = DeleteObject x i \<longrightarrow>
         (\<exists>m. manifest_seen vn s key m (rev t)
            \<and> (oi_key i \<in> set candidates
               \<or> (oi_key i = PayloadKey m
                  \<and> (\<exists>mk \<in> set candidates. manifest_deleted s mk (rev t))))))"
proof -
  from along_exec [OF assms(2) Delete_along [OF assms(1)]]
  have "delete_allowed vn s key candidates (rev t) c" by (auto simp: allowed_trace_def)
  then show ?thesis by (auto simp: delete_allowed_def split: cmd.splits)
qed

lemma delete_unlinks_before_payload_witness:
  "\<exists>t mk m. manifestCandidates grammar_validator ''dep'' ''a'' = Inr [mk]
     \<and> manifest_seen grammar_validator sample_store ''a'' m (rev t)"
proof -
  obtain mk pk enc where cands: "manifestCandidates grammar_validator ''dep'' ''a'' = Inr [mk]"
    and del: "exec (Delete grammar_validator sample_store (Some sample_ctx) ''a'')
       (held_reads mk enc @ held_delete mk pk) None"
    by (rule held_blob_examples)
  have "manifestCandidates grammar_validator (st_prefix sample_store) ''a'' = Inr [mk]"
    using cands by simp
  from delete_unlinks_before_payload [OF this del [unfolded held_delete_def]] cands
  show ?thesis by blast
qed



text \<open>The keys listed, without the recursion.\<close>

lemma page_event_iff:
  "page_event c r = Some out \<longleftrightarrow> (\<exists>x i. c = ListObjectsV2 x i) \<and> r = RList (Inr out)"
  by (auto simp: page_event_def split: cmd.split resp.split sum.split)

lemma listed_union:
  "k \<in> listed vn s prefix h \<longleftrightarrow>
     (\<exists>(c, r) \<in> set h. \<exists>out. page_event c r = Some out \<and> k \<in> page_keys vn s prefix out)"
  by (induction h) (auto split: option.split)

lemma listed_iff:
  "k \<in> listed vn s prefix h \<longleftrightarrow>
     has_prefix k prefix
     \<and> (\<exists>c i out row. (ListObjectsV2 c i, RList (Inr out)) \<in> set h \<and> Some row \<in> set (lo_rows out)
          \<and> logicalKeyFromManifestObject vn (st_prefix s) row = Some k)"
  unfolding listed_union page_event_iff page_keys_def by blast

text \<open>
  C11. A listing is exact: when \<open>List\<close> returns keys they are sorted without duplicates, and they
  are precisely the keys with the prefix that the rows of the served pages decode to; the last
  page served was not truncated, every page was asked for from the token of the page before it,
  and no other request was made.
\<close>

theorem list_is_exact:
  assumes "exec (List_keys vn s ctx prefix fuel) tr (Some (Inr ks))"
  shows "sorted ks \<and> distinct ks \<and> allowed_trace list_allowed [] tr \<and> \<not> page_pending (rev tr)
    \<and> (\<forall>k. k \<in> set ks \<longleftrightarrow> has_prefix k prefix
         \<and> (\<exists>c i out row. (ListObjectsV2 c i, RList (Inr out)) \<in> set tr
              \<and> Some row \<in> set (lo_rows out)
              \<and> logicalKeyFromManifestObject vn (st_prefix s) row = Some k))"
  using along_exec [OF assms List_along] by (simp add: listed_iff)

lemma list_is_exact_witness: "\<not> page_pending (rev empty_listing)"
  using list_is_exact [OF empty_listing_exec] by blast

end
