(* ===== verification/ObjectStore.thy ===== *)
theory ObjectStore
  imports Blob
begin

text \<open>
  What the operations rely on of an object store that answers: the documented behaviour of the S3
  requests they issue, as a relation between a service's state, a command, its answer and the next
  state. \<open>ensures\<close> proves facts of a program against every such answer; the locale
  \<open>object_store\<close> is the contract of a world that gives them.
\<close>

section \<open>The service\<close>

text \<open>The objects of one bucket, the ETag of a content, where a continuation token resumes a
  listing, the free transfer slots and the random blocks still to be drawn.\<close>

record service =
  so_bucket :: string
  so_objects :: "string \<Rightarrow> bytes option"
  so_etag :: "bytes \<Rightarrow> string option"
  so_resume :: "string \<Rightarrow> nat option"
  so_free :: nat
  so_draw :: "nat \<Rightarrow> bytes"

definition listing :: "service \<Rightarrow> string \<Rightarrow> string list" where
  "listing v prefix = sorted_list_of_set {k \<in> dom (so_objects v). has_prefix k prefix}"

definition resume_at :: "service \<Rightarrow> string option \<Rightarrow> nat option" where
  "resume_at v token = (case token of None \<Rightarrow> Some 0 | Some t \<Rightarrow> so_resume v t)"

text \<open>A response that delivers exactly \<open>b\<close>.\<close>

definition delivers :: "bytes \<Rightarrow> resp \<Rightarrow> bool" where
  "delivers b r \<longleftrightarrow>
     (\<exists>bd :: body. r = RGet (Inr \<lparr>go_body = Some bd, go_length = Some (int (length b))\<rparr>)
        \<and> proper (bd_script bd) \<and> script_bytes (bd_script bd) = b \<and> bd_close bd = None)"

definition slice_of :: "bytes \<Rightarrow> int \<Rightarrow> int \<Rightarrow> bytes" where
  "slice_of b lo hi = take (nat (hi + 1 - lo)) (drop (nat lo) b)"

text \<open>A page: some rows from \<open>start\<close> on; at least one and a token for the rest, if there is a rest.\<close>

definition page_from :: "service \<Rightarrow> string list \<Rightarrow> nat \<Rightarrow> list_output \<Rightarrow> bool" where
  "page_from v ks start out \<longleftrightarrow>
     (\<exists>l. lo_rows out = map Some (take l (drop start ks))
        \<and> (if start + l < length ks
           then 0 < l \<and> lo_truncated out = Some True
             \<and> (\<exists>t. lo_next out = Some t \<and> t \<noteq> [] \<and> so_resume v t = Some (start + l))
           else lo_truncated out \<noteq> Some True))"

text \<open>
  The transfer manager reads the body it is given to its first error: \<open>io.EOF\<close> commits what was
  read, any other error fails the upload and commits nothing, and the failure carries the reader's
  error.
\<close>

definition upload_step :: "service \<Rightarrow> upload_input \<Rightarrow> resp \<Rightarrow> service \<Rightarrow> bool" where
  "upload_step v u r v' \<longleftrightarrow>
     (\<exists>up ns bs es e rest. r = RUpload up ns
        \<and> read_seq (accounted_read script_read) (ui_body u) ns = ((bs, es @ [Some e]), rest)
        \<and> set es \<subseteq> {None}
        \<and> (if e = EOF
           then up = Inr (Some (int (length bs)))
             \<and> v' = v\<lparr>so_objects := (so_objects v)(ui_key u \<mapsto> bs)\<rparr>
           else v' = v \<and> (\<exists>e'. up = Inl e'
                    \<and> errors_as as_too_large e' = errors_as as_too_large e)))"

primrec s3_step :: "service \<Rightarrow> cmd \<Rightarrow> resp \<Rightarrow> service \<Rightarrow> bool" where
  "s3_step v (HeadObject c i) r v' \<longleftrightarrow> v' = v
     \<and> (case so_objects v (oi_key i) of
          None \<Rightarrow> (\<exists>e. r = RHead (Inl e) \<and> isHTTPStatus e 404)
        | Some b \<Rightarrow> r = RHead (Inr \<lparr>ho_length = Some (int (length b)), ho_etag = so_etag v b\<rparr>))"
| "s3_step v (GetObject c g) r v' \<longleftrightarrow> v' = v
     \<and> (case so_objects v (gi_key g) of
          None \<Rightarrow> (\<exists>e. r = RGet (Inl e) \<and> isHTTPStatus e 404)
        | Some b \<Rightarrow>
            (gi_if_match g \<in> {None, so_etag v b} \<longrightarrow>
              (case gi_range g of
                 None \<Rightarrow> delivers b r
               | Some rg \<Rightarrow>
                   (\<forall>lo hi. rg = byte_range lo hi \<and> 0 \<le> lo \<and> lo \<le> hi \<and> hi < int (length b)
                      \<and> hi < 2 ^ 63 \<longrightarrow> delivers (slice_of b lo hi) r))))"
| "s3_step v (PutObject c i) r v' \<longleftrightarrow>
     (if so_objects v (pi_key i) = None
      then r = RErr None \<and> v' = v\<lparr>so_objects := (so_objects v)(pi_key i \<mapsto> pi_body i)\<rparr>
      else (\<exists>e. r = RErr (Some e) \<and> isHTTPStatus e 412) \<and> v' = v)"
| "s3_step v (DeleteObject c i) r v' \<longleftrightarrow>
     r = RErr None \<and> v' = v\<lparr>so_objects := (so_objects v)(oi_key i := None)\<rparr>"
| "s3_step v (ListObjectsV2 c i) r v' \<longleftrightarrow> v' = v
     \<and> (\<forall>start. resume_at v (li_token i) = Some start
          \<and> start \<le> length (listing v (li_prefix i)) \<longrightarrow>
          (\<exists>out. r = RList (Inr out) \<and> page_from v (listing v (li_prefix i)) start out))"
| "s3_step v (UploadObject c u) r v' \<longleftrightarrow> upload_step v u r v'"
| "s3_step v (CtxErr c) r v' \<longleftrightarrow> r = RErr None \<and> v' = v"
| "s3_step v Fresh r v' \<longleftrightarrow> is_RFresh r \<and> v' = v"
| "s3_step v (Cancel i) r v' \<longleftrightarrow> r = RDone \<and> v' = v"
| "s3_step v (RandRead n) r v' \<longleftrightarrow>
     r = RRand (Some (so_draw v 0)) \<and> v' = v\<lparr>so_draw := \<lambda>j. so_draw v (Suc j)\<rparr>"
| "s3_step v (Acquire c) r v' \<longleftrightarrow> r = RErr None \<and> v' = v\<lparr>so_free := so_free v - 1\<rparr>"
| "s3_step v Release r v' \<longleftrightarrow> r = RDone \<and> v' = v\<lparr>so_free := so_free v + 1\<rparr>"

text \<open>
  The commands the contract speaks of: requests to the bucket for named keys, creating requests
  only for keys that must not exist yet, an uploaded key that does not and whose body keeps its
  accounts, a listing that is not longer than an \<open>int\<close> can count, and a slot that is free.
\<close>

primrec admissible :: "service \<Rightarrow> cmd \<Rightarrow> bool" where
  "admissible v (HeadObject c i) \<longleftrightarrow> oi_bucket i = so_bucket v \<and> oi_key i \<noteq> []"
| "admissible v (GetObject c g) \<longleftrightarrow> gi_bucket g = so_bucket v \<and> gi_key g \<noteq> []"
| "admissible v (PutObject c i) \<longleftrightarrow>
     pi_bucket i = so_bucket v \<and> pi_key i \<noteq> [] \<and> pi_if_none_match i = Some ''*''"
| "admissible v (DeleteObject c i) \<longleftrightarrow> oi_bucket i = so_bucket v \<and> oi_key i \<noteq> []"
| "admissible v (ListObjectsV2 c i) \<longleftrightarrow> li_bucket i = so_bucket v \<and> li_token i \<noteq> Some []
     \<and> int (length (listing v (li_prefix i))) \<le> max_int64"
| "admissible v (UploadObject c u) \<longleftrightarrow>
     ui_bucket u = so_bucket v \<and> ui_key u \<noteq> [] \<and> so_objects v (ui_key u) = None
     \<and> ui_if_none_match u = Some ''*'' \<and> accounted_ok (ui_body u)"
| "admissible v (CtxErr c) \<longleftrightarrow> True"
| "admissible v Fresh \<longleftrightarrow> True"
| "admissible v (Cancel i) \<longleftrightarrow> True"
| "admissible v (RandRead n) \<longleftrightarrow> n = 16"
| "admissible v (Acquire c) \<longleftrightarrow> 0 < so_free v"
| "admissible v Release \<longleftrightarrow> True"

section \<open>Programs against a service\<close>

text \<open>\<open>ensures p v Q\<close>: from the state \<open>v\<close>, \<open>p\<close> only issues commands the contract speaks of, and
  \<open>Q\<close> holds of the final state and the result, whatever the answers are.\<close>

primrec ensures :: "'a prog \<Rightarrow> service \<Rightarrow> (service \<Rightarrow> 'a \<Rightarrow> bool) \<Rightarrow> bool" where
  "ensures (Ret x) v Q \<longleftrightarrow> Q v x"
| "ensures (Do c k) v Q \<longleftrightarrow>
     admissible v c \<and> (\<forall>r v'. s3_step v c r v' \<longrightarrow> ensures (k r) v' Q)"

lemma ensures_bind [simp]:
  "ensures (pbind p f) v Q \<longleftrightarrow> ensures p v (\<lambda>v' x. ensures (f x) v' Q)"
  by (induction p arbitrary: v) simp_all

lemma ensures_call [simp]:
  "ensures (call c f) v Q \<longleftrightarrow> admissible v c \<and> (\<forall>r v'. s3_step v c r v' \<longrightarrow> Q v' (f r))"
  by (simp add: call_def)

lemma ensures_mono:
  "ensures p v Q \<Longrightarrow> (\<And>v x. Q v x \<Longrightarrow> R v x) \<Longrightarrow> ensures p v R"
proof (induction p arbitrary: v)
  case (Do c k)
  show ?case using Do.prems(1) by (auto intro!: Do.IH [OF rangeI _ Do.prems(2)])
qed simp

section \<open>The contract\<close>

text \<open>\<open>view\<close> gives the service a world is, while it is one: nothing armed against it.\<close>

locale object_store =
  fixes world :: "'w world"
    and view :: "'w \<Rightarrow> service option"
  assumes answers_well: "view w = Some v \<Longrightarrow> admissible v c \<Longrightarrow> world c w = (r, w') \<Longrightarrow>
    \<exists>v'. view w' = Some v' \<and> s3_step v c r v'"
begin

lemma run_ensures:
  "ensures p v Q \<Longrightarrow> view w = Some v \<Longrightarrow> run world p w = (x, w') \<Longrightarrow>
   \<exists>v'. view w' = Some v' \<and> Q v' x"
proof (induction p arbitrary: v w)
  case (Do c k)
  obtain r w1 where step: "world c w = (r, w1)" by (metis surj_pair)
  from Do.prems(1) have "admissible v c" by simp
  from answers_well [OF Do.prems(2) this step] obtain v1
    where "view w1 = Some v1" "s3_step v c r v1" by blast
  with Do.prems step show ?case by (intro Do.IH [OF rangeI, of r v1 w1]) simp_all
qed simp

end

end
