(* ===== verification/BlobStore.thy ===== *)
theory BlobStore
  imports ObjectStore BlobRequests
begin

text \<open>
  The blobs an object store holds: an abstraction from its objects to a map from logical keys to
  contents, the invariant under which it is one, and how adding and removing a blob's two objects
  changes it. Both layouts of a manifest's key count.
\<close>

section \<open>The abstraction\<close>

text \<open>The object keys a logical key's manifest can have, the current layout first.\<close>

definition layout_keys :: "name_validator \<Rightarrow> string \<Rightarrow> string \<Rightarrow> string list" where
  "layout_keys vn p k = (case manifestCandidates vn p k of Inl e \<Rightarrow> [] | Inr ks \<Rightarrow> ks)"

definition held_at :: "name_validator \<Rightarrow> string \<Rightarrow> (string \<Rightarrow> bytes option) \<Rightarrow> string \<Rightarrow> string option" where
  "held_at vn p ob k = List.find (\<lambda>mk. ob mk \<noteq> None) (layout_keys vn p k)"

definition blobs :: "name_validator \<Rightarrow> string \<Rightarrow> (string \<Rightarrow> bytes option) \<Rightarrow> string \<Rightarrow> bytes option" where
  "blobs vn p ob k =
     (case held_at vn p ob k of
        None \<Rightarrow> None
      | Some mk \<Rightarrow>
          (case parse_manifest vn (the (ob mk)) of Inl e \<Rightarrow> None | Inr m \<Rightarrow> ob (PayloadKey m)))"

text \<open>The manifest \<open>enc\<close> of \<open>k\<close> reads as \<open>m\<close> and its payload \<open>b\<close> is in place.\<close>

definition complete ::
    "name_validator \<Rightarrow> string \<Rightarrow> (string \<Rightarrow> bytes option) \<Rightarrow> string \<Rightarrow> bytes \<Rightarrow> blob_manifest \<Rightarrow> bytes \<Rightarrow> bool"
  where
  "complete vn p ob k enc m b \<longleftrightarrow>
     length enc \<le> maxManifestBytes \<and> parse_manifest vn enc = Inr m \<and> LogicalKey m = k
     \<and> payloadObjectKeyMatches p k (PayloadKey m) \<and> ob (PayloadKey m) = Some b
     \<and> Size m = int (length b) \<and> Digest m = sum256 b"

definition blobs_ok :: "name_validator \<Rightarrow> string \<Rightarrow> (string \<Rightarrow> bytes option) \<Rightarrow> bool" where
  "blobs_ok vn p ob \<longleftrightarrow>
     finite (dom ob)
     \<and> (\<forall>mk enc. ob mk = Some enc \<and> has_prefix mk (namespaceRoot p manifestNamespace) \<longrightarrow>
          (\<exists>k m b. mk \<in> set (layout_keys vn p k) \<and> complete vn p ob k enc m b))
     \<and> (\<forall>k. \<forall>mk \<in> set (layout_keys vn p k). \<forall>mk' \<in> set (layout_keys vn p k).
          ob mk \<noteq> None \<and> ob mk' \<noteq> None \<longrightarrow> mk = mk')
     \<and> (\<forall>mk mk' enc enc' m m'. ob mk = Some enc \<and> ob mk' = Some enc'
          \<and> has_prefix mk (namespaceRoot p manifestNamespace)
          \<and> has_prefix mk' (namespaceRoot p manifestNamespace)
          \<and> parse_manifest vn enc = Inr m \<and> parse_manifest vn enc' = Inr m'
          \<and> PayloadKey m = PayloadKey m' \<longrightarrow> mk = mk')"

section \<open>Layouts\<close>

lemma layout_root: "mk \<in> set (layout_keys vn p k) \<Longrightarrow> has_prefix mk (namespaceRoot p manifestNamespace)"
  using candidates_keys [of vn p k]
  by (cases "manifestCandidates vn p k") (auto simp: layout_keys_def)

lemma root_not_Nil: "has_prefix mk (namespaceRoot p manifestNamespace) \<Longrightarrow> mk \<noteq> []"
  by (auto simp: has_prefix_iff namespaceRoot_def)

lemma layout_shape:
  "mk \<in> set (layout_keys vn p k) \<Longrightarrow>
   vn k = None \<and> (mk = manifestDigestRoot p k @ segmentEncoding (b64_encode (bytes_of k))
      \<or> mk = manifestDigestRoot p k @ b64_encode (bytes_of k))"
  by (auto simp: layout_keys_def manifestCandidates_def ebind_def manifestObjectKey_Inr
      legacyManifestObjectKey_def Let_def split: sum.splits option.splits if_splits)

lemma layout_decodes:
  assumes "mk \<in> set (layout_keys vn p k)"
  shows "logicalKeyFromManifestObject vn p mk = Some k"
proof -
  let ?h = "hex_encode (sum256 (bytes_of k))"
  have "map lower_hex ?h = ?h" using hex_decode_iff [of ?h "sum256 (bytes_of k)"] by simp
  moreover obtain tail where "mk = namespaceRoot p manifestNamespace @ ?h @ ''/'' @ tail"
    "tail = segmentEncoding (b64_encode (bytes_of k)) \<or> tail = b64_encode (bytes_of k)"
    using layout_shape [OF assms] by (auto simp: manifestDigestRoot_def)
  ultimately show ?thesis
    using layout_shape [OF assms] unfolding decoded_row_shape by blast
qed

lemma layout_unique:
  "mk \<in> set (layout_keys vn p k) \<Longrightarrow> mk \<in> set (layout_keys vn p k') \<Longrightarrow> k = k'"
  by (metis layout_decodes option.inject)

lemma payload_not_root:
  "payloadObjectKeyMatches p k pk \<Longrightarrow> \<not> has_prefix pk (namespaceRoot p manifestNamespace)"
  by (auto simp: payload_key_shape payloadRoot_def namespaceRoot_def payloadNamespace_def
      manifestNamespace_def has_prefix_iff)

lemma held_at_Some:
  "held_at vn p ob k = Some mk \<Longrightarrow> mk \<in> set (layout_keys vn p k) \<and> (\<exists>enc. ob mk = Some enc)"
  by (auto simp: held_at_def find_Some_iff)

lemma held_at_None: "held_at vn p ob k = None \<longleftrightarrow> (\<forall>mk \<in> set (layout_keys vn p k). ob mk = None)"
  by (auto simp: held_at_def find_None_iff)

section \<open>The invariant in use\<close>

lemma blobs_okD:
  assumes "blobs_ok vn p ob"
  shows "finite (dom ob)"
    "ob mk = Some enc \<Longrightarrow> has_prefix mk (namespaceRoot p manifestNamespace) \<Longrightarrow>
       \<exists>k m b. mk \<in> set (layout_keys vn p k) \<and> complete vn p ob k enc m b"
    "mk \<in> set (layout_keys vn p k) \<Longrightarrow> mk' \<in> set (layout_keys vn p k) \<Longrightarrow>
       ob mk \<noteq> None \<Longrightarrow> ob mk' \<noteq> None \<Longrightarrow> mk = mk'"
    "ob mk = Some enc \<Longrightarrow> ob mk' = Some enc' \<Longrightarrow> has_prefix mk (namespaceRoot p manifestNamespace) \<Longrightarrow>
       has_prefix mk' (namespaceRoot p manifestNamespace) \<Longrightarrow> parse_manifest vn enc = Inr m \<Longrightarrow>
       parse_manifest vn enc' = Inr m' \<Longrightarrow> PayloadKey m = PayloadKey m' \<Longrightarrow> mk = mk'"
  using assms unfolding blobs_ok_def by blast+

lemma held_complete:
  assumes "blobs_ok vn p ob" "held_at vn p ob k = Some mk"
  obtains enc m b where "ob mk = Some enc" "complete vn p ob k enc m b" "blobs vn p ob k = Some b"
proof -
  from held_at_Some [OF assms(2)] obtain enc where mk: "mk \<in> set (layout_keys vn p k)"
    and enc: "ob mk = Some enc" by blast
  from blobs_okD(2) [OF assms(1) enc layout_root [OF mk]] obtain k' m b where
    "mk \<in> set (layout_keys vn p k')" "complete vn p ob k' enc m b" by blast
  with layout_unique [OF mk] enc assms(2) that show ?thesis
    by (auto simp: complete_def blobs_def)
qed

lemma blobs_None: "blobs_ok vn p ob \<Longrightarrow> blobs vn p ob k = None \<longleftrightarrow> held_at vn p ob k = None"
  by (cases "held_at vn p ob k") (auto simp: blobs_def elim!: held_complete)

text \<open>The rows of a listing and the blobs.\<close>

lemma blobs_listed:
  assumes "blobs_ok vn p ob"
  shows "blobs vn p ob k \<noteq> None \<longleftrightarrow>
    (\<exists>row \<in> dom ob. has_prefix row (namespaceRoot p manifestNamespace)
       \<and> logicalKeyFromManifestObject vn p row = Some k)"
proof
  assume "blobs vn p ob k \<noteq> None"
  then obtain mk where "held_at vn p ob k = Some mk" by (auto simp: blobs_def split: option.splits)
  with held_at_Some [OF this] layout_decodes layout_root show
    "\<exists>row \<in> dom ob. has_prefix row (namespaceRoot p manifestNamespace)
       \<and> logicalKeyFromManifestObject vn p row = Some k"
    by (intro bexI [of _ mk]) auto
next
  assume "\<exists>row \<in> dom ob. has_prefix row (namespaceRoot p manifestNamespace)
       \<and> logicalKeyFromManifestObject vn p row = Some k"
  then obtain row enc where row: "ob row = Some enc"
    "has_prefix row (namespaceRoot p manifestNamespace)"
    "logicalKeyFromManifestObject vn p row = Some k" by blast
  from blobs_okD(2) [OF assms row(1,2)] obtain k' where k': "row \<in> set (layout_keys vn p k')"
    by blast
  from layout_decodes [OF this] row(3) have "k' = k" by simp
  with k' row(1) have "held_at vn p ob k \<noteq> None" by (auto simp: held_at_None)
  with blobs_None [OF assms] show "blobs vn p ob k \<noteq> None" by simp
qed

section \<open>Manifests in place\<close>

text \<open>Under the manifest root there is an object at \<open>mk\<close> that reads as \<open>m\<close>.\<close>

definition manifest_at ::
    "name_validator \<Rightarrow> string \<Rightarrow> (string \<Rightarrow> bytes option) \<Rightarrow> string \<Rightarrow> blob_manifest \<Rightarrow> bool" where
  "manifest_at vn p ob mk m \<longleftrightarrow> has_prefix mk (namespaceRoot p manifestNamespace)
     \<and> (\<exists>enc. ob mk = Some enc \<and> parse_manifest vn enc = Inr m)"

definition names_payload ::
    "name_validator \<Rightarrow> string \<Rightarrow> (string \<Rightarrow> bytes option) \<Rightarrow> string \<Rightarrow> bool" where
  "names_payload vn p ob pk \<longleftrightarrow> (\<exists>mk m. manifest_at vn p ob mk m \<and> PayloadKey m = pk)"

lemma manifest_at_unique: "manifest_at vn p ob mk m \<Longrightarrow> manifest_at vn p ob mk m' \<Longrightarrow> m = m'"
  by (auto simp: manifest_at_def)

lemma manifest_at_only:
  "blobs_ok vn p ob \<Longrightarrow> manifest_at vn p ob mk m \<Longrightarrow> manifest_at vn p ob mk' m' \<Longrightarrow>
   PayloadKey m = PayloadKey m' \<Longrightarrow> mk = mk'"
  using blobs_okD(4) unfolding manifest_at_def by blast

lemma manifest_at_complete:
  assumes "blobs_ok vn p ob" "manifest_at vn p ob mk m"
  obtains k enc b where "mk \<in> set (layout_keys vn p k)" "ob mk = Some enc" "complete vn p ob k enc m b"
proof -
  from assms(2) obtain enc where enc: "ob mk = Some enc" "parse_manifest vn enc = Inr m"
    and root: "has_prefix mk (namespaceRoot p manifestNamespace)" by (auto simp: manifest_at_def)
  from blobs_okD(2) [OF assms(1) enc(1) root] enc that show thesis by (auto simp: complete_def)
qed

lemma named_in_place:
  assumes "blobs_ok vn p ob" "names_payload vn p ob pk"
  shows "ob pk \<noteq> None" "\<not> has_prefix pk (namespaceRoot p manifestNamespace)"
proof -
  from assms obtain k enc m b where "complete vn p ob k enc m b" "PayloadKey m = pk"
    unfolding names_payload_def by (metis manifest_at_complete)
  then show "ob pk \<noteq> None" "\<not> has_prefix pk (namespaceRoot p manifestNamespace)"
    by (auto simp: complete_def dest: payload_not_root)
qed

text \<open>The map of blobs, read off the manifests.\<close>

lemma blobs_iff:
  assumes "blobs_ok vn p ob"
  shows "blobs vn p ob k = Some b \<longleftrightarrow>
    (\<exists>mk enc m. mk \<in> set (layout_keys vn p k) \<and> ob mk = Some enc \<and> complete vn p ob k enc m b)"
proof
  assume "blobs vn p ob k = Some b"
  moreover from this obtain mk where held: "held_at vn p ob k = Some mk"
    by (auto simp: blobs_def split: option.splits)
  ultimately show "\<exists>mk enc m. mk \<in> set (layout_keys vn p k) \<and> ob mk = Some enc \<and> complete vn p ob k enc m b"
    using held_at_Some [OF held] by (metis held_complete [OF assms held] option.inject)
next
  assume "\<exists>mk enc m. mk \<in> set (layout_keys vn p k) \<and> ob mk = Some enc \<and> complete vn p ob k enc m b"
  then obtain mk enc m where mk: "mk \<in> set (layout_keys vn p k)" "ob mk = Some enc"
    and c: "complete vn p ob k enc m b" by blast
  then obtain mk' where held: "held_at vn p ob k = Some mk'"
    by (cases "held_at vn p ob k") (auto simp: held_at_None)
  with held_at_Some [OF held] blobs_okD(3) [OF assms mk(1), of mk'] mk(2) have "mk' = mk" by auto
  with mk(2) c held show "blobs vn p ob k = Some b" by (simp add: blobs_def complete_def)
qed

lemma blobs_cong:
  assumes "blobs_ok vn p ob" "blobs_ok vn p ob'"
    and "\<And>mk enc m b. mk \<in> set (layout_keys vn p k) \<Longrightarrow>
      ob' mk = Some enc \<and> complete vn p ob' k enc m b \<longleftrightarrow> ob mk = Some enc \<and> complete vn p ob k enc m b"
  shows "blobs vn p ob' k = blobs vn p ob k"
proof -
  have "blobs vn p ob' k = Some b \<longleftrightarrow> blobs vn p ob k = Some b" for b
    unfolding blobs_iff [OF assms(1)] blobs_iff [OF assms(2)] using assms(3) by blast
  then show ?thesis by (metis not_None_eq)
qed

section \<open>Adding and removing a blob\<close>

text \<open>Objects outside what a blob is made of do not matter.\<close>

lemma complete_cong:
  "complete vn p ob k enc m b \<Longrightarrow> ob' (PayloadKey m) = ob (PayloadKey m) \<Longrightarrow> complete vn p ob' k enc m b"
  by (simp add: complete_def)

lemma complete_manifest:
  "complete vn p ob k enc m b \<Longrightarrow> ob mk = Some enc \<Longrightarrow> mk \<in> set (layout_keys vn p k') \<Longrightarrow>
   manifest_at vn p ob mk m"
  using layout_root by (auto simp: manifest_at_def complete_def)

text \<open>An object outside the manifest root that no manifest names may change.\<close>

lemma spare_changed:
  assumes ok: "blobs_ok vn p ob" and root: "\<not> has_prefix x (namespaceRoot p manifestNamespace)"
    and spare: "\<not> names_payload vn p ob x"
  shows "blobs_ok vn p (ob(x := y))" "blobs vn p (ob(x := y)) = blobs vn p ob"
    "manifest_at vn p (ob(x := y)) = manifest_at vn p ob"
proof -
  let ?ob = "ob(x := y)"
  have at: "?ob r = ob r" if "has_prefix r (namespaceRoot p manifestNamespace)" for r using that root by auto
  then show same: "manifest_at vn p ?ob = manifest_at vn p ob"
    by (simp add: fun_eq_iff manifest_at_def conj_commute cong: conj_cong)
  have keep: "complete vn p ?ob k enc m b \<longleftrightarrow> complete vn p ob k enc m b"
    if "ob r = Some enc" "has_prefix r (namespaceRoot p manifestNamespace)" for r k enc m b
  proof -
    have "PayloadKey m \<noteq> x" if "parse_manifest vn enc = Inr m"
      using spare that \<open>ob r = Some enc\<close> \<open>has_prefix r _\<close> by (auto simp: names_payload_def manifest_at_def)
    then show ?thesis by (auto simp: complete_def)
  qed
  show ok': "blobs_ok vn p ?ob"
    unfolding blobs_ok_def
  proof (intro conjI allI impI ballI; (elim conjE)?)
    show "finite (dom ?ob)" using blobs_okD(1) [OF ok] by simp
  next
    fix r enc assume "?ob r = Some enc" "has_prefix r (namespaceRoot p manifestNamespace)"
    with at keep blobs_okD(2) [OF ok]
    show "\<exists>k m b. r \<in> set (layout_keys vn p k) \<and> complete vn p ?ob k enc m b" by metis
  next
    fix k r r' assume "r \<in> set (layout_keys vn p k)" "r' \<in> set (layout_keys vn p k)"
      "?ob r \<noteq> None" "?ob r' \<noteq> None"
    with at layout_root blobs_okD(3) [OF ok] show "r = r'" by metis
  qed (use at blobs_okD(4) [OF ok] in metis)
  show "blobs vn p ?ob = blobs vn p ob"
  proof
    show "blobs vn p ?ob k = blobs vn p ob k" for k
      by (rule blobs_cong [OF ok ok']) (metis at keep layout_root)
  qed
qed

text \<open>A manifest appears at a key of a free layout, its payload, unnamed so far, being in place.\<close>

lemma manifest_at_added:
  assumes "mk \<in> set (layout_keys vn p k)" "complete vn p ob k enc m b"
  shows "manifest_at vn p (ob(mk \<mapsto> enc)) r m' \<longleftrightarrow> (if r = mk then m' = m else manifest_at vn p ob r m')"
  using layout_root [OF assms(1)] assms(2) by (auto simp: manifest_at_def complete_def)

lemma complete_added:
  assumes "mk \<in> set (layout_keys vn p k)"
  shows "complete vn p (ob(mk \<mapsto> enc)) k' enc' m' b' \<longleftrightarrow> complete vn p ob k' enc' m' b'"
  using layout_root [OF assms] by (auto simp: complete_def dest: payload_not_root)

lemma blobs_ok_added:
  assumes ok: "blobs_ok vn p ob" and free: "\<forall>mk \<in> set (layout_keys vn p k). ob mk = None"
    and mk: "mk \<in> set (layout_keys vn p k)" and spare: "\<not> names_payload vn p ob (PayloadKey m)"
    and new: "complete vn p ob k enc m b"
  shows "blobs_ok vn p (ob(mk \<mapsto> enc))"
  unfolding blobs_ok_def complete_added [OF mk]
proof (intro conjI allI impI ballI; (elim conjE)?)
  let ?ob = "ob(mk \<mapsto> enc)"
  show "finite (dom ?ob)" using blobs_okD(1) [OF ok] by simp
  show "\<exists>k m b. r \<in> set (layout_keys vn p k) \<and> complete vn p ob k enc' m b"
    if "?ob r = Some enc'" "has_prefix r (namespaceRoot p manifestNamespace)" for r enc'
    using that mk new blobs_okD(2) [OF ok] by (cases "r = mk") auto
  show "r = r'" if r: "r \<in> set (layout_keys vn p k')" "r' \<in> set (layout_keys vn p k')"
      "?ob r \<noteq> None" "?ob r' \<noteq> None" for k' r r'
  proof (cases "k' = k")
    case True
    with r free show ?thesis by (metis fun_upd_other)
  next
    case False
    with r mk layout_unique blobs_okD(3) [OF ok] show ?thesis by (metis fun_upd_other)
  qed
  fix r r' enc1 enc2 m1 m2
  assume "?ob r = Some enc1" "?ob r' = Some enc2" "has_prefix r (namespaceRoot p manifestNamespace)"
    "has_prefix r' (namespaceRoot p manifestNamespace)" "parse_manifest vn enc1 = Inr m1"
    "parse_manifest vn enc2 = Inr m2" and same: "PayloadKey m1 = PayloadKey m2"
  then have "manifest_at vn p ?ob r m1" "manifest_at vn p ?ob r' m2" by (auto simp: manifest_at_def)
  with same spare manifest_at_only [OF ok] show "r = r'"
    unfolding manifest_at_added [OF mk new] names_payload_def by (metis (full_types))
qed

lemma manifest_added:
  assumes ok: "blobs_ok vn p ob" and free: "\<forall>mk \<in> set (layout_keys vn p k). ob mk = None"
    and mk: "mk \<in> set (layout_keys vn p k)" and spare: "\<not> names_payload vn p ob (PayloadKey m)"
    and new: "complete vn p ob k enc m b"
  shows "blobs_ok vn p (ob(mk \<mapsto> enc))" "blobs vn p (ob(mk \<mapsto> enc)) = (blobs vn p ob)(k \<mapsto> b)"
    "manifest_at vn p (ob(mk \<mapsto> enc)) r m' \<longleftrightarrow> (if r = mk then m' = m else manifest_at vn p ob r m')"
proof -
  let ?ob = "ob(mk \<mapsto> enc)"
  show ok': "blobs_ok vn p ?ob" by (rule blobs_ok_added [OF assms])
  show "manifest_at vn p ?ob r m' \<longleftrightarrow> (if r = mk then m' = m else manifest_at vn p ob r m')"
    by (rule manifest_at_added [OF mk new])
  show "blobs vn p ?ob = (blobs vn p ob)(k \<mapsto> b)"
  proof
    fix k'
    show "blobs vn p ?ob k' = ((blobs vn p ob)(k \<mapsto> b)) k'"
    proof (cases "k' = k")
      case True
      with mk new ok' show ?thesis by (auto simp: blobs_iff complete_added [OF mk])
    next
      case False
      with mk layout_unique have "r \<noteq> mk" if "r \<in> set (layout_keys vn p k')" for r using that by metis
      with False show ?thesis by (simp add: blobs_cong [OF ok ok'] complete_added [OF mk])
    qed
  qed
qed

text \<open>A manifest disappears: its blob is gone and its payload unnamed.\<close>

lemma manifest_removed:
  assumes ok: "blobs_ok vn p ob" and mk: "mk \<in> set (layout_keys vn p k)"
  shows "blobs_ok vn p (ob(mk := None))"
    "ob mk \<noteq> None \<Longrightarrow> blobs vn p (ob(mk := None)) = (blobs vn p ob)(k := None)"
    "manifest_at vn p (ob(mk := None)) r m \<longleftrightarrow> r \<noteq> mk \<and> manifest_at vn p ob r m"
proof -
  let ?ob = "ob(mk := None)"
  have root: "has_prefix mk (namespaceRoot p manifestNamespace)" using mk by (rule layout_root)
  show "manifest_at vn p ?ob r m \<longleftrightarrow> r \<noteq> mk \<and> manifest_at vn p ob r m"
    by (auto simp: manifest_at_def)
  have keep: "complete vn p ?ob k' enc' m' b' \<longleftrightarrow> complete vn p ob k' enc' m' b'" for k' enc' m' b'
    using root by (auto simp: complete_def dest: payload_not_root)
  show ok': "blobs_ok vn p ?ob"
    unfolding blobs_ok_def keep
  proof (intro conjI allI impI ballI; (elim conjE)?)
    show "finite (dom ?ob)" using blobs_okD(1) [OF ok] by simp
  qed (use blobs_okD(2-4) [OF ok] in \<open>auto split: if_splits\<close>)
  assume held: "ob mk \<noteq> None"
  show "blobs vn p ?ob = (blobs vn p ob)(k := None)"
  proof
    fix k'
    show "blobs vn p ?ob k' = ((blobs vn p ob)(k := None)) k'"
    proof (cases "k' = k")
      case True
      have "?ob r = None" if "r \<in> set (layout_keys vn p k)" for r
        using blobs_okD(3) [OF ok mk that held] by (cases "ob r") auto
      with True ok' show ?thesis by (simp add: blobs_None held_at_None)
    next
      case False
      with mk layout_unique have "r \<noteq> mk" if "r \<in> set (layout_keys vn p k')" for r using that by metis
      with False show ?thesis by (simp add: blobs_cong [OF ok ok'] keep)
    qed
  qed
qed

text \<open>Both at once, as a whole \<open>Put\<close> or \<open>Delete\<close> does it.\<close>

lemma add_blob:
  assumes ok: "blobs_ok vn p ob" and free: "\<forall>mk \<in> set (layout_keys vn p k). ob mk = None"
    and mk: "mk \<in> set (layout_keys vn p k)" and pk: "ob (PayloadKey m) = None"
    and new: "complete vn p (ob(PayloadKey m \<mapsto> b)) k enc m b"
  shows "blobs_ok vn p (ob(PayloadKey m \<mapsto> b, mk \<mapsto> enc))"
    "blobs vn p (ob(PayloadKey m \<mapsto> b, mk \<mapsto> enc)) = (blobs vn p ob)(k \<mapsto> b)"
proof -
  let ?ob = "ob(PayloadKey m \<mapsto> b)"
  have root: "\<not> has_prefix (PayloadKey m) (namespaceRoot p manifestNamespace)"
    using new by (auto simp: complete_def dest: payload_not_root)
  have spare: "\<not> names_payload vn p ob (PayloadKey m)" using named_in_place(1) [OF ok] pk by blast
  note changed = spare_changed [OF ok root spare, of "Some b"]
  have "\<forall>r \<in> set (layout_keys vn p k). ?ob r = None" using free root layout_root by auto
  moreover have "\<not> names_payload vn p ?ob (PayloadKey m)" using spare changed(3) by (simp add: names_payload_def)
  ultimately show "blobs_ok vn p (ob(PayloadKey m \<mapsto> b, mk \<mapsto> enc))"
    "blobs vn p (ob(PayloadKey m \<mapsto> b, mk \<mapsto> enc)) = (blobs vn p ob)(k \<mapsto> b)"
    using manifest_added [OF changed(1) _ mk _ new] changed(2) by simp_all
qed

lemma remove_blob:
  assumes ok: "blobs_ok vn p ob" and held: "held_at vn p ob k = Some mk"
    and enc: "ob mk = Some enc" and old: "complete vn p ob k enc m b"
  shows "blobs_ok vn p (ob(mk := None, PayloadKey m := None))"
    "blobs vn p (ob(mk := None, PayloadKey m := None)) = (blobs vn p ob)(k := None)"
    "held_at vn p (ob(mk := None, PayloadKey m := None)) k = None"
proof -
  let ?ob = "ob(mk := None)"
  have mk: "mk \<in> set (layout_keys vn p k)" using held_at_Some [OF held] by blast
  note gone = manifest_removed [OF ok mk]
  have root: "\<not> has_prefix (PayloadKey m) (namespaceRoot p manifestNamespace)"
    using old by (auto simp: complete_def dest: payload_not_root)
  have "manifest_at vn p ob mk m" using old enc mk by (rule complete_manifest)
  with manifest_at_only [OF ok] have spare: "\<not> names_payload vn p ?ob (PayloadKey m)"
    unfolding names_payload_def gone(3) by blast
  note changed = spare_changed [OF gone(1) root spare, of None]
  then show "blobs_ok vn p (ob(mk := None, PayloadKey m := None))"
    "blobs vn p (ob(mk := None, PayloadKey m := None)) = (blobs vn p ob)(k := None)"
    using gone(2) enc by simp_all
  with blobs_None [OF this(1), of k] show "held_at vn p (ob(mk := None, PayloadKey m := None)) k = None"
    by simp
qed

end
