(* ===== verification/BlobServed.thy ===== *)
theory BlobServed
  imports BlobStore BlobReads
begin

text \<open>
  \<open>Put\<close>, \<open>Get\<close>, \<open>Delete\<close> and \<open>List\<close> against a service that keeps the contract: each does to the
  map of blobs what its abstract operation does.
\<close>

section \<open>Setting\<close>

definition fits :: "name_validator \<Rightarrow> store \<Rightarrow> service \<Rightarrow> bool" where
  "fits vn s v \<longleftrightarrow> canonical_names vn \<and> vn (st_prefix s) = None \<and> length (st_prefix s) \<le> 256
     \<and> ro_bucket (st_options s) = so_bucket v \<and> st_slots s \<noteq> None
     \<and> 0 \<le> ro_maxAccountedObjectSize (st_options s)
     \<and> ro_maxAccountedObjectSize (st_options s) \<le> max_int64
     \<and> blobs_ok vn (st_prefix s) (so_objects v)"

abbreviation held_blobs :: "name_validator \<Rightarrow> store \<Rightarrow> service \<Rightarrow> string \<Rightarrow> bytes option" where
  "held_blobs vn s v \<equiv> blobs vn (st_prefix s) (so_objects v)"

lemma ensures_ctx_or [simp]: "ensures (ctx_or c e) v Q \<longleftrightarrow> Q v e"
  by (simp add: ctx_or_def ctx_Err_def)

lemma ensures_ctx_Err [simp]: "ensures (ctx_Err c) v Q \<longleftrightarrow> Q v None"
  by (simp add: ctx_Err_def)

lemma ensures_cancel [simp]: "ensures (cancel i) v Q \<longleftrightarrow> Q v ()"
  by (simp add: cancel_def split: option.split)

lemma ensures_release [simp]: "ensures releaseTransfer v Q \<longleftrightarrow> Q (v\<lparr>so_free := so_free v + 1\<rparr>) ()"
  by (simp add: releaseTransfer_def)

text \<open>The context an operation runs under has a deadline, whatever the caller's was.\<close>

lemma ensures_bound:
  "(\<And>b i. ctx_deadline b \<noteq> NoDeadline \<Longrightarrow> Q v (Inr (b, i))) \<Longrightarrow>
   ensures (guard_bound (Some c) operation timeout) v Q"
  by (auto simp: guard_bound_def Bound_def min_def split: option.split)

lemma ensures_acquire:
  "ctx_deadline c \<noteq> NoDeadline \<Longrightarrow> st_slots s \<noteq> None \<Longrightarrow> 0 < so_free v \<Longrightarrow>
   Q (v\<lparr>so_free := so_free v - 1\<rparr>) None \<Longrightarrow> ensures (acquireTransfer s c operation) v Q"
  by (auto simp: acquireTransfer_def RequireDeadline_def)

section \<open>Reading a manifest\<close>

lemma deliversE:
  assumes "delivers b r"
  obtains bd :: body where "as_get r = Inr \<lparr>go_body = Some bd, go_length = Some (int (length b))\<rparr>"
    "proper (bd_script bd)" "script_bytes (bd_script bd) = b" "bd_close bd = None"
  using assms by (auto simp: delivers_def)

lemma ensures_range:
  assumes "so_objects v key = Some b" "gi_key g = key" "gi_bucket g = so_bucket v" "key \<noteq> []"
    and "gi_if_match g \<in> {None, so_etag v b}" "gi_range g = Some (byte_range lo hi)"
    and "0 \<le> lo" "lo \<le> hi" "hi < int (length b)" "hi < 2 ^ 63"
    and "\<And>bd. proper (bd_script bd) \<Longrightarrow> bd_close bd = None \<Longrightarrow>
      script_bytes (bd_script bd) = slice_of b lo hi \<Longrightarrow>
      Q v (Inr \<lparr>go_body = Some bd, go_length = Some (int (length (slice_of b lo hi)))\<rparr>)"
  shows "ensures (call (GetObject c g) as_get) v Q"
proof -
  have "Q v (as_get r)" if "delivers (slice_of b lo hi) r" for r
    using that assms(11) by (elim deliversE) simp
  with assms(1-10) show ?thesis by simp
qed

lemma ensures_get:
  assumes "so_objects v key = Some b" "gi_key g = key" "gi_bucket g = so_bucket v" "key \<noteq> []"
    and "gi_if_match g = None" "gi_range g = None"
    and "\<And>bd. proper (bd_script bd) \<Longrightarrow> bd_close bd = None \<Longrightarrow> script_bytes (bd_script bd) = b \<Longrightarrow>
      Q v (Inr \<lparr>go_body = Some bd, go_length = Some (int (length b))\<rparr>)"
  shows "ensures (call (GetObject c g) as_get) v Q"
proof -
  have "Q v (as_get r)" if "delivers b r" for r
    using that assms(7) by (elim deliversE) simp
  with assms(1-6) show ?thesis by simp
qed

lemma complete_encoding:
  assumes "complete vn p ob k enc m b"
  shows "encodeManifest vn m = Inr enc" "digest_ok m" "Size m \<le> max_int64"
    "manifestHeaderBytes \<le> length enc" "length enc \<le> maxManifestBytes"
proof -
  from assms have "parse_manifest vn enc = Inr m" and len: "length enc \<le> maxManifestBytes"
    by (simp_all add: complete_def)
  from encode_parse [OF this] show enc: "encodeManifest vn m = Inr enc" "digest_ok m"
    "Size m \<le> max_int64" by simp_all
  show "manifestHeaderBytes \<le> length enc" using encodeManifest_length [OF enc(1,2)] by simp
  show "length enc \<le> maxManifestBytes" using len .
qed

lemma accept_delivered:
  assumes "complete vn (st_prefix s) ob k enc m b" "proper (bd_script bd)"
    "script_bytes (bd_script bd) = enc" "bd_close bd = None"
  shows "accept_manifest vn s k (int (length enc))
    \<lparr>go_body = Some bd, go_length = Some (int (length enc))\<rparr> = Inr m"
proof -
  have "decodeManifest vn (bd_script bd) (int (length enc)) = Inr m"
    using decode_encoded [OF assms(2), of vn m] complete_encoding [OF assms(1)] assms(3) by simp
  with assms show ?thesis by (simp add: accept_manifest_def complete_def)
qed

lemma read_held:
  assumes "complete vn (st_prefix s) (so_objects v) k enc m b" "so_objects v mk = Some enc"
    and "ro_bucket (st_options s) = so_bucket v" "mk \<noteq> []" "Q v (Inr m)"
  shows "ensures (readManifestAt vn s c mk k legacy) v Q"
proof -
  note e = complete_encoding [OF assms(1)]
  have sz: "0 < length enc" "int (length enc) < 2 ^ 63" using e(4,5) by (auto simp: limits)
  have whole: "slice_of enc 0 (int (length enc) - 1) = enc" by (simp add: slice_of_def)
  let ?head = "\<lparr>ho_length = Some (int (length enc)), ho_etag = so_etag v enc\<rparr>"
  have "ensures (get_manifest vn s c mk k (int (length enc)) ?head) v Q"
    unfolding get_manifest_def ensures_bind
  proof (rule ensures_range [of v mk enc])
    show "gi_range (manifest_range s mk (int (length enc)) ?head)
        = Some (byte_range 0 (int (length enc) - 1))" by (simp add: manifest_range_def)
    fix bd :: body
    assume "proper (bd_script bd)" "bd_close bd = None"
      "script_bytes (bd_script bd) = slice_of enc 0 (int (length enc) - 1)"
    with whole accept_delivered [OF assms(1), of bd] assms(5)
    show "ensures (case Inr \<lparr>go_body = Some bd,
        go_length = Some (int (length (slice_of enc 0 (int (length enc) - 1))))\<rparr> of
        Inl e \<Rightarrow> if isHTTPStatus e 404 then Ret (Inl (integrityError ''manifest vanished after head''))
          else pbind (ctx_or c (BackendError ''manifest get'')) (\<lambda>x. Ret (Inl x))
      | Inr response \<Rightarrow> Ret (accept_manifest vn s k (int (length enc)) response)) v Q" by simp
  qed (use assms(2-4) sz in \<open>simp_all add: manifest_range_def\<close>)
  then show ?thesis
    using assms(2-4) e(4,5) by (simp add: readManifestAt_def object_at_def)
qed

lemma read_absent:
  assumes "so_objects v mk = None" "ro_bucket (st_options s) = so_bucket v" "mk \<noteq> []"
    and "Q v (Inl (BlobNotFoundError k))"
  shows "ensures (readManifestAt vn s c mk k legacy) v Q"
  using assms by (auto simp: readManifestAt_def object_at_def)

lemma not_found_is [simp]: "is_not_found (BlobNotFoundError k)"
  by (simp add: is_not_found_def)

lemma locate_in_served:
  assumes "ro_bucket (st_options s) = so_bucket v" "[] \<notin> set keys"
    and "case List.find (\<lambda>mk. so_objects v mk \<noteq> None) keys of
        None \<Rightarrow> Q v (Inl (BlobNotFoundError k))
      | Some mk \<Rightarrow> (\<exists>enc m b. so_objects v mk = Some enc
          \<and> complete vn (st_prefix s) (so_objects v) k enc m b \<and> Q v (Inr (mk, m)))"
  shows "ensures (locate_in vn s c k legacy (BlobNotFoundError k) keys) v Q"
  using assms(2,3)
proof (induction keys arbitrary: legacy)
  case (Cons mk keys)
  show ?case
  proof (cases "so_objects v mk")
    case None
    with Cons assms(1) show ?thesis
      unfolding locate_in.simps ensures_bind by (intro read_absent) auto
  next
    case (Some enc)
    with Cons.prems obtain m b where
      "complete vn (st_prefix s) (so_objects v) k enc m b" "Q v (Inr (mk, m))" by auto
    with Some Cons.prems assms(1) show ?thesis
      unfolding locate_in.simps ensures_bind by (intro read_held) auto
  qed
qed simp

lemma layout_candidates:
  assumes "canonical_names vn" "vn p = None" "vn k = None" "length p \<le> 256"
  shows "manifestCandidates vn p k = Inr (layout_keys vn p k)"
    "manifestObjectKey vn p k = Inr (hd (layout_keys vn p k))"
    "layout_keys vn p k = hd (layout_keys vn p k) #
       (case legacyManifestObjectKey p k of None \<Rightarrow> [] | Some legacy \<Rightarrow> [legacy])"
    "hd (layout_keys vn p k) \<in> set (layout_keys vn p k)"
proof -
  have "length (manifestDigestRoot p k @ segmentEncoding (b64_encode (bytes_of k))) \<le> 1016"
    using assms(4) canonical_length [OF assms(1,3)] by (rule manifest_key_length)
  then obtain mk where mk: "manifestObjectKey vn p k = Inr mk"
    using assms(2,3) by (simp add: inr_iff limits)
  then show "manifestCandidates vn p k = Inr (layout_keys vn p k)"
    "manifestObjectKey vn p k = Inr (hd (layout_keys vn p k))"
    "layout_keys vn p k = hd (layout_keys vn p k) #
       (case legacyManifestObjectKey p k of None \<Rightarrow> [] | Some legacy \<Rightarrow> [legacy])"
    "hd (layout_keys vn p k) \<in> set (layout_keys vn p k)"
    by (simp_all add: layout_keys_def manifestCandidates_def split: option.split)
qed

lemma layout_not_Nil: "[] \<notin> set (layout_keys vn p k)"
  using layout_root root_not_Nil by blast

lemma locate_served:
  assumes "fits vn s v" "vn k = None"
    and "held_at vn (st_prefix s) (so_objects v) k = None \<Longrightarrow> Q v (Inl (BlobNotFoundError k))"
    and "\<And>mk enc m b. held_at vn (st_prefix s) (so_objects v) k = Some mk \<Longrightarrow>
      so_objects v mk = Some enc \<Longrightarrow> complete vn (st_prefix s) (so_objects v) k enc m b \<Longrightarrow>
      held_blobs vn s v k = Some b \<Longrightarrow> Q v (Inr (mk, m))"
  shows "ensures (locateManifest vn s c k) v Q"
proof -
  have ok: "blobs_ok vn (st_prefix s) (so_objects v)" using assms(1) by (simp add: fits_def)
  have "case held_at vn (st_prefix s) (so_objects v) k of
        None \<Rightarrow> Q v (Inl (BlobNotFoundError k))
      | Some mk \<Rightarrow> (\<exists>enc m b. so_objects v mk = Some enc
          \<and> complete vn (st_prefix s) (so_objects v) k enc m b \<and> Q v (Inr (mk, m)))"
  proof (cases "held_at vn (st_prefix s) (so_objects v) k")
    case (Some mk)
    from held_complete [OF ok Some] obtain enc m b where
      "so_objects v mk = Some enc" "complete vn (st_prefix s) (so_objects v) k enc m b"
      "held_blobs vn s v k = Some b" .
    with assms(4) [OF Some] Some show ?thesis by auto
  qed (simp add: assms(3))
  then have "ensures (locate_in vn s c k False (BlobNotFoundError k)
      (layout_keys vn (st_prefix s) k)) v Q"
    using assms(1) layout_not_Nil by (intro locate_in_served) (auto simp: held_at_def fits_def)
  moreover have "manifestCandidates vn (st_prefix s) k = Inr (layout_keys vn (st_prefix s) k)"
    using assms(1,2) by (intro layout_candidates) (simp_all add: fits_def)
  ultimately show ?thesis by (simp add: locateManifest_def)
qed

section \<open>Verifying a payload\<close>

lemma copy_delivered:
  assumes "proper (bd_script bd)" "script_bytes (bd_script bd) = b" "bd_close bd = None"
  shows "copy_range \<lparr>go_body = Some bd, go_length = Some (int (length b))\<rparr> (int (length b)) = Inr b"
proof -
  have "clean (bd_script bd)" using assms(1) by (simp add: proper_def)
  from copy_n_clean [OF this, of "length b"] assms(2) obtain t where
    t: "copy_n (bd_script bd) (length b) = ((b, None), t)" "clean t" "script_bytes t = []" by auto
  obtain x e t' where r: "script_read t 1 = ((x, e), t')" by (metis surj_pair)
  from script_read_bytes [OF r] script_read_clean [OF t(2) r] t(3)
  have "x = []" "e = None \<or> e = Some EOF" by auto
  with t(1) r assms(3) show ?thesis by (auto simp: copy_range_def)
qed

lemma next_slice:
  assumes "0 \<le> offset" "0 < n"
  shows "take (nat offset) b @ slice_of b offset (min (offset + n - 1) (int (length b) - 1))
    = take (nat (offset + n)) b"
proof (cases "offset + n - 1 \<le> int (length b) - 1")
  case True
  then have "nat (offset + n) = nat offset + nat n" using assms by simp
  with True show ?thesis by (simp add: slice_of_def take_add)
next
  case False
  then have "length b \<le> nat (offset + n)" "length (drop (nat offset) b) \<le> nat (int (length b) - offset)"
    using assms by auto
  with False show ?thesis by (simp add: slice_of_def)
qed

lemma verify_ranges_served:
  assumes "so_objects v pk = Some b" "ro_bucket (st_options s) = so_bucket v" "pk \<noteq> []"
    and "int (length b) \<le> max_int64" "Q v None"
  shows "0 \<le> offset \<Longrightarrow> hashed = take (nat offset) b \<Longrightarrow>
    ensures (verify_ranges s c pk (int (length b)) (sum256 b) (so_etag v b) offset hashed) v Q"
proof (induction "nat (int (length b) - offset)" arbitrary: offset hashed rule: less_induct)
  case less
  show ?case
  proof (cases "offset < int (length b)")
    case False
    with less.prems assms(5) show ?thesis by (subst verify_ranges.simps) simp
  next
    case True
    define stop where "stop = min (offset + verificationRangeBytes - 1) (int (length b) - 1)"
    let ?part = "slice_of b offset stop"
    have stop: "offset \<le> stop" "stop < int (length b)" "stop < 2 ^ 63"
      using True assms(4) by (auto simp: stop_def verificationRangeBytes_def max_int64_def)
    have len: "int (length ?part) = stop - offset + 1"
      using stop less.prems(1) by (simp add: slice_of_def)
    have next_part: "hashed @ ?part = take (nat (offset + verificationRangeBytes)) b"
      unfolding less.prems(2) stop_def
      by (rule next_slice) (use less.prems(1) in \<open>simp_all add: verificationRangeBytes_def\<close>)
    have rest: "ensures (verify_ranges s c pk (int (length b)) (sum256 b) (so_etag v b)
        (offset + verificationRangeBytes) (hashed @ ?part)) v Q"
      using True less.prems(1) next_part
      by (intro less.hyps) (simp_all add: verificationRangeBytes_def)
    show ?thesis
      unfolding verify_ranges.simps [of s c pk "int (length b)" _ _ offset] Let_def
        stop_def [symmetric]
      unfolding if_P [OF True] ensures_bind
    proof (rule ensures_range [of v pk b _ offset stop])
      fix bd :: body
      assume bd: "proper (bd_script bd)" "bd_close bd = None" "script_bytes (bd_script bd) = ?part"
      from copy_delivered [OF bd(1,3,2)] rest len
      show "ensures (case Inr \<lparr>go_body = Some bd, go_length = Some (int (length ?part))\<rparr> of
          Inl e \<Rightarrow> pbind (ctx_or c (BackendError ''payload verification range'')) (\<lambda>x. Ret (Some x))
        | Inr response \<Rightarrow>
            (case copy_range response (stop - offset + 1) of
               Inl e \<Rightarrow> Ret (Some e)
             | Inr written \<Rightarrow> verify_ranges s c pk (int (length b)) (sum256 b) (so_etag v b)
                 (offset + verificationRangeBytes) (hashed @ written))) v Q" by simp
    qed (use assms stop less.prems(1) in \<open>simp_all add: payload_range_def\<close>)
  qed
qed

lemma verifyPayload_served:
  assumes "so_objects v pk = Some b" "ro_bucket (st_options s) = so_bucket v" "pk \<noteq> []"
    and "int (length b) \<le> max_int64" "Q v None"
  shows "ensures (verifyPayload s c pk (int (length b)) (sum256 b)) v Q"
proof -
  have "ensures (verify_ranges s c pk (int (length b)) (sum256 b) (so_etag v b) 0 []) v Q"
    by (rule verify_ranges_served) (use assms in simp_all)
  with assms(1-3) show ?thesis by (simp add: verifyPayload_def object_at_def)
qed

section \<open>Get\<close>

lemma fits_free [simp]: "fits vn s (v\<lparr>so_free := n\<rparr>) = fits vn s v"
  by (simp add: fits_def)

lemma free_back [simp]: "0 < so_free v \<Longrightarrow> v\<lparr>so_free := Suc (so_free v - Suc 0)\<rparr> = v"
  by simp

text \<open>A stream over a body that delivers exactly \<open>b\<close>, bound to \<open>b\<close>'s length and digest, whose release
  returns the slot.\<close>

definition streams :: "bytes \<Rightarrow> get_stream \<Rightarrow> bool" where
  "streams b st \<longleftrightarrow>
     (\<exists>body. proper body \<and> script_bytes body = b
        \<and> gs_reader st = newBlobReader (newVerifyingBlobReader body (int (length b)) (sum256 b)))
     \<and> (\<exists>i cb. gs_abort st = pbind (cancel (Some i)) (\<lambda>_. cancel cb)
        \<and> gs_release st = pbind releaseTransfer (\<lambda>_. cancel cb))"

lemma get_payload_served:
  assumes "complete vn (st_prefix s) (so_objects v) k enc m b" "ro_bucket (st_options s) = so_bucket v"
    and "\<And>st. streams b st \<Longrightarrow> Q v (Inr st)"
  shows "ensures (get_payload s c cb m i) v Q"
  unfolding get_payload_def ensures_bind
proof (rule ensures_get [of v "PayloadKey m" b])
  show "so_objects v (PayloadKey m) = Some b" using assms(1) by (simp add: complete_def)
  show "PayloadKey m \<noteq> []" using assms(1) by (auto simp: complete_def payload_key_shape payloadRoot_def
      namespaceRoot_def)
  have m: "Size m = int (length b)" "Digest m = sum256 b" using assms(1) by (simp_all add: complete_def)
  fix bd :: body
  assume bd: "proper (bd_script bd)" "bd_close bd = None" "script_bytes (bd_script bd) = b"
  let ?reader = "newBlobReader (newVerifyingBlobReader (bd_script bd) (Size m) (Digest m))"
  have "checked_stream m \<lparr>go_body = Some bd, go_length = Some (int (length b))\<rparr> = Some ?reader"
    by (simp add: checked_stream_def m)
  moreover have "streams b \<lparr>gs_reader = ?reader, gs_abort = pbind (cancel (Some i)) (\<lambda>_. cancel cb),
      gs_release = pbind releaseTransfer (\<lambda>_. cancel cb)\<rparr>"
    using bd m by (auto simp: streams_def)
  ultimately show "ensures (case Inr \<lparr>go_body = Some bd, go_length = Some (int (length b))\<rparr> of
      Inl e \<Rightarrow> pbind (cancel (Some i)) (\<lambda>_. if isHTTPStatus e 404
        then Ret (Inl (integrityError ''payload lookup''))
        else pbind (ctx_or c (BackendError ''payload get'')) (\<lambda>x. Ret (Inl x)))
    | Inr response \<Rightarrow>
        (case checked_stream m response of
           None \<Rightarrow> pbind (cancel (Some i)) (\<lambda>_. Ret (Inl (integrityError ''payload head'')))
         | Some reader \<Rightarrow>
             Ret (Inr \<lparr>gs_reader = reader,
               gs_abort = pbind (cancel (Some i)) (\<lambda>_. cancel cb),
               gs_release = pbind releaseTransfer (\<lambda>_. cancel cb)\<rparr>))) v Q"
    using assms(3) by simp
qed (use assms(2) in simp_all)

lemma get_holding_served:
  assumes "fits vn s v" "vn k = None"
  shows "ensures (get_holding vn s c cb k) v (\<lambda>v' g.
    case held_blobs vn s v k of
      None \<Rightarrow> g = Inl (BlobNotFoundError k) \<and> v' = v
    | Some b \<Rightarrow> (\<exists>st. g = Inr st \<and> streams b st) \<and> v' = v)"
    (is "ensures _ _ ?Q")
  unfolding get_holding_def ensures_bind
proof (rule locate_served [OF assms])
  assume "held_at vn (st_prefix s) (so_objects v) k = None"
  then show "ensures (case Inl (BlobNotFoundError k) of Inl e \<Rightarrow> Ret (Inl e)
      | Inr (manifestKey, m) \<Rightarrow> pbind (call Fresh (\<lambda>r. snd (as_fresh r))) (get_payload s c cb m)) v ?Q"
    by (simp add: blobs_def)
next
  fix mk enc m x
  assume "complete vn (st_prefix s) (so_objects v) k enc m x" "held_blobs vn s v k = Some x"
  moreover have "ro_bucket (st_options s) = so_bucket v" using assms(1) by (simp add: fits_def)
  ultimately show "ensures (case Inr (mk, m) of Inl e \<Rightarrow> Ret (Inl e)
      | Inr (manifestKey, m) \<Rightarrow> pbind (call Fresh (\<lambda>r. snd (as_fresh r))) (get_payload s c cb m)) v ?Q"
    by (auto intro: get_payload_served)
qed

lemma Get_served:
  assumes "fits vn s v" "vn k = None" "0 < so_free v"
  shows "ensures (Get vn s (Some c) k) v (\<lambda>v' g.
    case held_blobs vn s v k of
      None \<Rightarrow> g = Inl (BlobNotFoundError k) \<and> v' = v
    | Some b \<Rightarrow> (\<exists>st. g = Inr st \<and> streams b st) \<and> v' = v\<lparr>so_free := so_free v - 1\<rparr>)"
    (is "ensures _ _ ?Q")
proof -
  define v1 where "v1 = v\<lparr>so_free := so_free v - 1\<rparr>"
  have v1: "fits vn s v1" "so_objects v1 = so_objects v" using assms(1) by (simp_all add: v1_def)
  have slots: "st_slots s \<noteq> None" using assms(1) by (simp add: fits_def)
  have bounded: "ensures (get_bounded vn s b cb k) v ?Q" if "ctx_deadline b \<noteq> NoDeadline" for b cb
  proof -
    have "ensures (get_holding vn s b cb k) v1 (\<lambda>v' g. ensures
        (case g of Inl e \<Rightarrow> pbind releaseTransfer (\<lambda>_. Ret (Inl e)) | Inr st \<Rightarrow> Ret (Inr st)) v' ?Q)"
      by (rule ensures_mono [OF get_holding_served [OF v1(1) assms(2)]], unfold v1(2))
        (use assms(3) in \<open>auto simp: v1_def split: option.splits\<close>)
    then show ?thesis
      using assms(2) that slots assms(3)
      by (auto simp: get_bounded_def validateBlobKey_def v1_def intro!: ensures_acquire
          elim!: ensures_mono split: sum.splits)
  qed
  have "ensures (case g of Inl e \<Rightarrow> pbind (cancel cb) (\<lambda>_. Ret (Inl e)) | Inr st \<Rightarrow> Ret (Inr st)) v' ?Q"
    if "?Q v' g" for v' g cb
    using that by (auto split: sum.split)
  then show ?thesis
    unfolding Get_def ensures_bind
    by (intro ensures_bound) (auto intro!: ensures_mono [OF bounded])
qed

section \<open>List\<close>

text \<open>The keys some rows name, and those of all rows under the manifest root.\<close>

definition keys_of :: "name_validator \<Rightarrow> store \<Rightarrow> string \<Rightarrow> string list \<Rightarrow> string set" where
  "keys_of vn s prefix rows =
     {k. has_prefix k prefix \<and> (\<exists>row \<in> set rows. logicalKeyFromManifestObject vn (st_prefix s) row = Some k)}"

abbreviation manifest_rows :: "store \<Rightarrow> service \<Rightarrow> string list" where
  "manifest_rows s v \<equiv> listing v (namespaceRoot (st_prefix s) manifestNamespace)"

lemma set_listing: "finite (dom (so_objects v)) \<Longrightarrow>
    set (listing v prefix) = {k \<in> dom (so_objects v). has_prefix k prefix}"
  by (simp add: listing_def)

lemma listed_keys:
  assumes "blobs_ok vn (st_prefix s) (so_objects v)"
  shows "keys_of vn s prefix (manifest_rows s v) =
    {k \<in> dom (held_blobs vn s v). has_prefix k prefix}"
  using blobs_listed [OF assms] set_listing [OF blobs_okD(1) [OF assms]]
  by (fastforce simp: keys_of_def)

lemma fold_page:
  "fold (list_row vn s prefix) (map Some rows) seen = seen \<union> keys_of vn s prefix rows"
  by (auto simp: fold_rows keys_of_def)

lemma keys_of_append: "keys_of vn s prefix (xs @ ys) = keys_of vn s prefix xs \<union> keys_of vn s prefix ys"
  by (auto simp: keys_of_def)

text \<open>A page is the last one, or its token leads on.\<close>

lemma page_followed:
  assumes "page_from v ks start out" "resume_at v cont = Some start"
  obtains (final) "lo_rows out = map Some (drop start ks)" "next_page out cont = None"
  | (more) l t where "lo_rows out = map Some (take l (drop start ks))" "next_page out cont = Some (Inr t)"
      "0 < l" "start + l < length ks" "t \<noteq> []" "so_resume v t = Some (start + l)"
proof -
  from assms(1) obtain l where rows: "lo_rows out = map Some (take l (drop start ks))"
    and page: "if start + l < length ks
      then 0 < l \<and> lo_truncated out = Some True
        \<and> (\<exists>t. lo_next out = Some t \<and> t \<noteq> [] \<and> so_resume v t = Some (start + l))
      else lo_truncated out \<noteq> Some True"
    unfolding page_from_def by blast
  show thesis
  proof (cases "start + l < length ks")
    case False
    with page rows that(1) show thesis by (simp add: next_page_def)
  next
    case True
    with page obtain t where t: "lo_next out = Some t" "t \<noteq> []" "so_resume v t = Some (start + l)"
      and l: "0 < l" "lo_truncated out = Some True" by auto
    moreover have "cont \<noteq> Some t" using assms(2) t(3) l(1) by (auto simp: resume_at_def)
    ultimately show thesis using rows True that(2) [of l t] by (simp add: next_page_def)
  qed
qed

lemma list_pages_served:
  assumes "ro_bucket (st_options s) = so_bucket v" "int (length (manifest_rows s v)) \<le> max_int64"
  shows "\<lbrakk>resume_at v cont = Some start; start \<le> length (manifest_rows s v); cont \<noteq> Some [];
      length (manifest_rows s v) - start < fuel;
      seen = keys_of vn s prefix (take start (manifest_rows s v))\<rbrakk> \<Longrightarrow>
    ensures (list_pages vn s c prefix fuel cont seen) v
      (\<lambda>v' r. v' = v \<and> r = Some (Inr (keys_of vn s prefix (manifest_rows s v))))"
proof (induction fuel arbitrary: cont start seen)
  case (Suc fuel)
  let ?ks = "manifest_rows s v"
  have page: "ensures (case next_page out cont of
        None \<Rightarrow> Ret (Some (Inr (fold (list_row vn s prefix) (lo_rows out) seen)))
      | Some (Inl e) \<Rightarrow> Ret (Some (Inl e))
      | Some (Inr t) \<Rightarrow> list_pages vn s c prefix fuel (Some t)
          (fold (list_row vn s prefix) (lo_rows out) seen)) v
      (\<lambda>v' r. v' = v \<and> r = Some (Inr (keys_of vn s prefix ?ks)))"
    if "page_from v ?ks start out" for out
    using that Suc.prems(1)
  proof (cases rule: page_followed)
    case final
    then show ?thesis by (simp add: fold_page Suc.prems(5) keys_of_append [symmetric])
  next
    case (more l t)
    have "ensures (list_pages vn s c prefix fuel (Some t) (keys_of vn s prefix (take (start + l) ?ks))) v
        (\<lambda>v' r. v' = v \<and> r = Some (Inr (keys_of vn s prefix ?ks)))"
      by (rule Suc.IH [of _ "start + l"]) (use more Suc.prems(4) in \<open>simp_all add: resume_at_def\<close>)
    with more show ?thesis by (simp add: fold_page Suc.prems(5) take_add keys_of_append)
  qed
  have answer: "\<exists>out. as_list r = Inr out \<and> page_from v ?ks start out"
    if "\<forall>n. resume_at v cont = Some n \<and> n \<le> length ?ks \<longrightarrow>
      (\<exists>out. r = RList (Inr out) \<and> page_from v ?ks n out)" for r
    using that Suc.prems(1,2) by force
  show ?case
    using assms Suc.prems(3) page by (auto simp: Let_def dest!: answer)
qed simp

lemma List_served:
  assumes "fits vn s v" "validateListPrefix vn prefix = None" "0 < so_free v"
    and "length (manifest_rows s v) < fuel" "int (length (manifest_rows s v)) \<le> max_int64"
  shows "ensures (List_keys vn s (Some c) prefix fuel) v (\<lambda>v' r. v' = v
    \<and> r = Some (Inr (sorted_list_of_set {k \<in> dom (held_blobs vn s v). has_prefix k prefix})))"
    (is "ensures _ _ ?Q")
proof -
  define v1 where "v1 = v\<lparr>so_free := so_free v - 1\<rparr>"
  have v1: "listing v1 = listing v" by (simp add: v1_def listing_def fun_eq_iff)
  have ok: "blobs_ok vn (st_prefix s) (so_objects v)" and slots: "st_slots s \<noteq> None"
    and bucket: "ro_bucket (st_options s) = so_bucket v1" using assms(1) by (auto simp: fits_def v1_def)
  have pages: "ensures (list_pages vn s b prefix fuel None {}) v1
      (\<lambda>v' r. v' = v1 \<and> r = Some (Inr (keys_of vn s prefix (manifest_rows s v1))))" for b
    by (rule list_pages_served [OF bucket, of _ 0])
      (use assms(4,5) v1 in \<open>simp_all add: resume_at_def keys_of_def\<close>)
  have "ensures (list_bounded vn s b prefix fuel) v ?Q" if "ctx_deadline b \<noteq> NoDeadline" for b
  proof -
    have "ensures (list_pages vn s b prefix fuel None {}) v1
        (\<lambda>v' r. ?Q (v'\<lparr>so_free := so_free v' + 1\<rparr>) (map_option sorted_keys r))"
      by (rule ensures_mono [OF pages])
        (use assms(3) listed_keys [OF ok] v1 in \<open>auto simp: sorted_keys_def v1_def\<close>)
    then show ?thesis
      using that assms(2,3) slots
      by (auto simp: list_bounded_def v1_def intro!: ensures_acquire)
  qed
  then show ?thesis
    unfolding List_keys_def ensures_bind
    by (intro ensures_bound) (auto intro: ensures_mono)
qed

end
