(* ===== verification/BlobServedWrites.thy ===== *)
theory BlobServedWrites
  imports BlobServed
begin

text \<open>
  \<open>Delete\<close> and \<open>Put\<close> against a service that keeps the contract. \<open>Delete\<close> removes the key from the
  map of blobs; \<open>Put\<close> adds it unless it is there, and then reports whether the contents agree.
\<close>

section \<open>Delete\<close>

lemma delete_absent:
  assumes "ro_bucket (st_options s) = so_bucket v" "[] \<notin> set keys"
    and "\<forall>mk \<in> set keys. so_objects v mk = None" "Q v None"
  shows "ensures (delete_in vn s c k legacy keys) v Q"
  using assms(2,3)
proof (induction keys arbitrary: legacy)
  case Nil
  then show ?case using assms(4) by simp
next
  case (Cons mk keys)
  then show ?case
    using assms(1) unfolding delete_in.simps ensures_bind by (intro read_absent) auto
qed

lemma delete_held:
  assumes "ro_bucket (st_options s) = so_bucket v" "[] \<notin> set keys"
    and "complete vn (st_prefix s) (so_objects v) k enc m b" "so_objects v mk = Some enc"
    and "\<forall>mk' \<in> set keys. mk' = mk \<or> so_objects v mk' = None" "mk \<in> set keys"
    and "Q (v\<lparr>so_objects := (so_objects v)(mk := None, PayloadKey m := None)\<rparr>) None"
  shows "ensures (delete_in vn s c k legacy keys) v Q"
  using assms(2,5,6)
proof (induction keys arbitrary: legacy)
  case (Cons r keys)
  show ?case
  proof (cases "r = mk")
    case False
    with Cons assms(1) show ?thesis
      unfolding delete_in.simps ensures_bind by (intro read_absent) auto
  next
    case True
    let ?v = "v\<lparr>so_objects := (so_objects v)(mk := None, PayloadKey m := None)\<rparr>"
    have "ensures (delete_in vn s c k True keys) ?v Q"
      using assms(1,7) Cons.prems by (intro delete_absent) auto
    moreover have "PayloadKey m \<noteq> []"
      using assms(3) by (auto simp: complete_def payload_key_shape payloadRoot_def namespaceRoot_def)
    ultimately show ?thesis
      using True Cons.prems assms(1,3,4) unfolding delete_in.simps ensures_bind
      by (intro read_held) (auto simp: object_at_def deletePayloadBestEffort_def)
  qed
qed simp

text \<open>The state after deleting \<open>k\<close>.\<close>

definition without :: "name_validator \<Rightarrow> store \<Rightarrow> string \<Rightarrow> service \<Rightarrow> service \<Rightarrow> bool" where
  "without vn s k v v' \<longleftrightarrow> fits vn s v' \<and> held_blobs vn s v' = (held_blobs vn s v)(k := None)
     \<and> so_free v' = so_free v \<and> so_draw v' = so_draw v \<and> so_objects v' \<subseteq>\<^sub>m so_objects v"

lemma fits_objects:
  "fits vn s v \<Longrightarrow> blobs_ok vn (st_prefix s) ob \<Longrightarrow> fits vn s (v\<lparr>so_objects := ob\<rparr>)"
  by (simp add: fits_def)

lemma delete_candidates:
  assumes "fits vn s v" "vn k = None"
  shows "ensures (delete_in vn s c k legacy (layout_keys vn (st_prefix s) k)) v
    (\<lambda>v' e. e = None \<and> without vn s k v v')"
proof -
  let ?p = "st_prefix s"
  have ok: "blobs_ok vn ?p (so_objects v)" and bucket: "ro_bucket (st_options s) = so_bucket v"
    using assms(1) by (simp_all add: fits_def)
  show ?thesis
  proof (cases "held_at vn ?p (so_objects v) k")
    case None
    then have "(held_blobs vn s v)(k := None) = held_blobs vn s v" by (auto simp: blobs_def)
    with None assms(1) bucket layout_not_Nil show ?thesis
      by (intro delete_absent) (auto simp: held_at_None without_def)
  next
    case (Some mk)
    from held_complete [OF ok Some] obtain enc m b where
      c: "so_objects v mk = Some enc" "complete vn ?p (so_objects v) k enc m b" .
    note rest = remove_blob [OF ok Some c]
    have "mk \<in> set (layout_keys vn ?p k)" using held_at_Some [OF Some] by blast
    with blobs_okD(3) [OF ok] c(1) have
      "\<forall>mk' \<in> set (layout_keys vn ?p k). mk' = mk \<or> so_objects v mk' = None" by (metis option.distinct(1))
    with \<open>mk \<in> _\<close> c bucket layout_not_Nil rest fits_objects [OF assms(1) rest(1)] show ?thesis
      by (intro delete_held) (auto simp: without_def map_le_def)
  qed
qed

lemma Delete_served:
  assumes "fits vn s v" "vn k = None" "0 < so_free v"
  shows "ensures (Delete vn s (Some c) k) v (\<lambda>v' e. e = None \<and> without vn s k v v')"
    (is "ensures _ _ ?Q")
proof -
  define v1 where "v1 = v\<lparr>so_free := so_free v - 1\<rparr>"
  have fits: "fits vn s v1" "st_slots s \<noteq> None" using assms(1) by (simp_all add: v1_def) (simp add: fits_def)
  have cands: "manifestCandidates vn (st_prefix s) k = Inr (layout_keys vn (st_prefix s) k)"
    using assms(1,2) by (intro layout_candidates) (simp_all add: fits_def)
  have "ensures (delete_bounded vn s b k) v ?Q" if "ctx_deadline b \<noteq> NoDeadline" for b
  proof -
    have "ensures (delete_in vn s b k False (layout_keys vn (st_prefix s) k)) v1
        (\<lambda>v' e. ?Q (v'\<lparr>so_free := so_free v' + 1\<rparr>) e)"
      by (rule ensures_mono [OF delete_candidates [OF fits(1) assms(2)]])
        (use assms(3) in \<open>auto simp: without_def v1_def\<close>)
    then show ?thesis
      using that assms(2,3) fits(2)
      by (auto simp: delete_bounded_def validateBlobKey_def cands v1_def intro!: ensures_acquire)
  qed
  then show ?thesis
    unfolding Delete_def ensures_bind
    by (intro ensures_bound) (auto intro: ensures_mono)
qed

section \<open>Uploading\<close>

lemma accounted_step_clean:
  assumes "clean (acc_source r)" "accounted_ok r" "accounted_read script_read r n = ((b, x), t)"
  shows "case x of
      None \<Rightarrow> clean (acc_source t) \<and> b @ script_bytes (acc_source t) = script_bytes (acc_source r)
    | Some e \<Rightarrow> (e = EOF \<and> b = [] \<and> script_bytes (acc_source r) = [])
        \<or> (e = ObjectTooLargeError (acc_maximum r)
           \<and> acc_maximum r < int (length (acc_hash r @ script_bytes (acc_source r))))"
proof (cases "n = 0")
  case True
  with assms show ?thesis by (auto simp: accounted_read_def)
next
  case False
  define m where "m = (if acc_size r = acc_maximum r then 1 else clip n (acc_maximum r - acc_size r))"
  obtain c e s where rd: "script_read (acc_source r) m = ((c, e), s)" by (metis surj_pair)
  note bytes = script_read_bytes [OF rd, symmetric]
  from script_read_clean [OF assms(1) rd]
  have cl: "clean s" "e = None \<or> acc_source r = [] \<and> e = Some EOF" by auto
  have empty: "c = []" if "acc_source r = []" using rd that by simp
  have size: "acc_size r = int (length (acc_hash r))" using assms(2) by (simp add: accounted_ok_def)
  show ?thesis
  proof (cases "acc_size r = acc_maximum r")
    case True
    with False rd assms(3) have "b = []" "acc_source t = s"
      "x = (if c \<noteq> [] then Some (ObjectTooLargeError (acc_maximum r)) else e)"
      by (auto simp: accounted_read_def m_def)
    with cl bytes size True empty show ?thesis by (cases c) (auto split: option.split)
  next
    case other: False
    with False rd assms(3) have "b = c" "x = e" "acc_source t = s"
      by (auto simp: accounted_read_def m_def Let_def split: if_splits)
    with cl bytes empty show ?thesis by (auto split: option.split)
  qed
qed

lemma accounted_seq_clean:
  assumes "clean (acc_source r)" "accounted_ok r" "set es \<subseteq> {None}"
    and "read_seq (accounted_read script_read) r ns = ((bs, es @ [Some e]), r')"
  shows "if int (length (acc_hash r @ script_bytes (acc_source r))) \<le> acc_maximum r
    then e = EOF \<and> bs = script_bytes (acc_source r) else e = ObjectTooLargeError (acc_maximum r)"
  using assms
proof (induction ns arbitrary: r bs es)
  case (Cons n ns)
  obtain b x t where rd: "accounted_read script_read r n = ((b, x), t)" by (metis surj_pair)
  obtain bs' es' where seq: "read_seq (accounted_read script_read) t ns = ((bs', es'), r')"
    and bs: "bs = b @ bs'" and es: "es @ [Some e] = x # es'"
    using Cons.prems(4) rd by (auto split: prod.splits)
  note step = accounted_step_clean [OF Cons.prems(1,2) rd]
  note t = script.accounted_readD [OF Cons.prems(2) rd]
  show ?case
  proof (cases es)
    case Nil
    then have "x = Some e" "ns = []" using es seq by (cases ns; auto split: prod.splits)+
    with seq bs step t(1) Cons.prems(2) show ?thesis by (auto simp: accounted_ok_def)
  next
    case (Cons y es2)
    with es Cons.prems(3) have "x = None" "es' = es2 @ [Some e]" "set es2 \<subseteq> {None}" by auto
    with step Cons.IH [of t es2 bs'] seq t bs show ?thesis by auto
  qed
qed simp

section \<open>Put\<close>

text \<open>What a second \<open>Put\<close> of a key says: contents are compared by length and SHA-256.\<close>

definition same_content :: "bytes \<Rightarrow> bytes \<Rightarrow> bool" where
  "same_content a b \<longleftrightarrow> length a = length b \<and> sum256 a = sum256 b"

definition put_result :: "bytes option \<Rightarrow> string \<Rightarrow> bytes \<Rightarrow> err option" where
  "put_result held k content =
     (case held of
        None \<Rightarrow> None
      | Some old \<Rightarrow> if same_content old content then None else Some (BlobConflictError k))"

definition manifest_of :: "string \<Rightarrow> string \<Rightarrow> bytes \<Rightarrow> blob_manifest" where
  "manifest_of k pk content =
     \<lparr>LogicalKey = k, PayloadKey = pk, Size = int (length content), Digest = sum256 content\<rparr>"

lemma manifests_match:
  "complete vn p ob k enc m b \<Longrightarrow> manifestsMatch m (manifest_of k pk content) \<longleftrightarrow> same_content b content"
  by (auto simp: complete_def manifestsMatch_def manifest_of_def same_content_def)

text \<open>A state between the upload of \<open>content\<close> under \<open>pk\<close> and publication: \<open>v\<close> with that object.\<close>

definition staging :: "name_validator \<Rightarrow> store \<Rightarrow> string \<Rightarrow> string \<Rightarrow> bytes \<Rightarrow> service \<Rightarrow> bool" where
  "staging vn s k pk content v \<longleftrightarrow> fits vn s v \<and> vn k = None \<and> so_objects v pk = None
     \<and> payloadObjectKeyMatches (st_prefix s) k pk
     \<and> int (length content) \<le> ro_maxAccountedObjectSize (st_options s)
     \<and> (\<exists>enc. encodeManifest vn (manifest_of k pk content) = Inr enc)"

definition with_payload :: "string \<Rightarrow> bytes \<Rightarrow> service \<Rightarrow> service" where
  "with_payload pk content v = v\<lparr>so_objects := (so_objects v)(pk \<mapsto> content)\<rparr>"

lemma with_payload_simps [simp]:
  "so_bucket (with_payload pk content v) = so_bucket v"
  "so_etag (with_payload pk content v) = so_etag v"
  "so_free (with_payload pk content v) = so_free v"
  "so_objects (with_payload pk content v) = (so_objects v)(pk \<mapsto> content)"
  by (simp_all add: with_payload_def)

lemma staging_complete:
  assumes "staging vn s k pk content v" "complete vn (st_prefix s) (so_objects v) k' enc m b"
  shows "complete vn (st_prefix s) (so_objects (with_payload pk content v)) k' enc m b"
    "PayloadKey m \<noteq> pk"
proof -
  show "PayloadKey m \<noteq> pk" using assms by (auto simp: staging_def complete_def)
  with assms(2) show "complete vn (st_prefix s) (so_objects (with_payload pk content v)) k' enc m b"
    by (auto intro: complete_cong)
qed

lemma staging_layout:
  assumes "staging vn s k pk content v" "mk \<in> set (layout_keys vn (st_prefix s) k)"
  shows "so_objects (with_payload pk content v) mk = so_objects v mk" "mk \<noteq> pk" "mk \<noteq> []"
  using assms layout_root [OF assms(2)] root_not_Nil payload_not_root
  by (auto simp: staging_def)

text \<open>A manifest of the key in \<open>v\<close> is read back as it is, next to the staged payload.\<close>

lemma staging_read:
  assumes "staging vn s k pk content v" "mk \<in> set (layout_keys vn (st_prefix s) k)"
    and "so_objects v mk = None \<Longrightarrow> Q (with_payload pk content v) (Inl (BlobNotFoundError k))"
    and "\<And>m b. held_blobs vn s v k = Some b \<Longrightarrow> PayloadKey m \<noteq> pk \<Longrightarrow>
      manifestsMatch m (manifest_of k pk content) = same_content b content \<Longrightarrow>
      Q (with_payload pk content v) (Inr m)"
  shows "ensures (readManifestAt vn s c mk k legacy) (with_payload pk content v) Q"
proof -
  have ok: "blobs_ok vn (st_prefix s) (so_objects v)" and bucket: "ro_bucket (st_options s) = so_bucket v"
    using assms(1) by (simp_all add: staging_def fits_def)
  note mk = staging_layout [OF assms(1,2)]
  show ?thesis
  proof (cases "so_objects v mk")
    case None
    with mk bucket assms(3) show ?thesis by (intro read_absent) auto
  next
    case (Some enc)
    then have "held_at vn (st_prefix s) (so_objects v) k \<noteq> None" using assms(2) by (auto simp: held_at_None)
    then obtain r where r: "held_at vn (st_prefix s) (so_objects v) k = Some r" by blast
    with held_at_Some [OF r] blobs_okD(3) [OF ok assms(2)] Some have "r = mk" by fastforce
    from held_complete [OF ok r] obtain enc' m b where "so_objects v r = Some enc'"
      "complete vn (st_prefix s) (so_objects v) k enc' m b" and b: "held_blobs vn s v k = Some b" .
    with Some \<open>r = mk\<close> have c: "complete vn (st_prefix s) (so_objects v) k enc m b" by simp
    note c' = staging_complete [OF assms(1) c]
    from assms(4) [OF b c'(2)] manifests_match [OF c] have "Q (with_payload pk content v) (Inr m)"
      by blast
    with c' mk bucket Some show ?thesis by (intro read_held) auto
  qed
qed

text \<open>What a \<open>Put\<close> of \<open>k\<close> with the payload key \<open>pk\<close> never touches.\<close>

definition apart :: "name_validator \<Rightarrow> store \<Rightarrow> string \<Rightarrow> string \<Rightarrow> service \<Rightarrow> service \<Rightarrow> bool" where
  "apart vn s k pk v v' \<longleftrightarrow> so_draw v' = so_draw v
     \<and> (\<forall>x. x \<noteq> pk \<and> x \<noteq> hd (layout_keys vn (st_prefix s) k) \<longrightarrow> so_objects v' x = so_objects v x)"

text \<open>How the part of \<open>Put\<close> from the committed upload on ends: the error, whether the staged
  payload may go, and the state.\<close>

definition settled ::
    "name_validator \<Rightarrow> store \<Rightarrow> string \<Rightarrow> string \<Rightarrow> bytes \<Rightarrow> service \<Rightarrow> service
      \<Rightarrow> err option \<times> bool \<Rightarrow> bool" where
  "settled vn s k pk content v v' r \<longleftrightarrow>
     fst r = put_result (held_blobs vn s v k) k content
     \<and> (case held_blobs vn s v k of
          Some old \<Rightarrow> snd r \<and> v' = with_payload pk content v
        | None \<Rightarrow> \<not> snd r \<and> fits vn s v' \<and> so_free v' = so_free v \<and> apart vn s k pk v v'
            \<and> held_blobs vn s v' = (held_blobs vn s v)(k \<mapsto> content))"

lemma settle_served:
  assumes "staging vn s k pk content v"
    and "\<And>b. held_blobs vn s v k = Some b \<Longrightarrow>
      Q (with_payload pk content v) (True, put_result (Some b) k content)"
    and "\<forall>mk \<in> set (tl (layout_keys vn (st_prefix s) k)). so_objects v mk = None \<Longrightarrow>
      Q (with_payload pk content v) (False, None)"
  shows "ensures (settleAgainstLegacyManifest vn s c k (manifest_of k pk content))
    (with_payload pk content v) Q"
proof -
  have names: "canonical_names vn" "vn (st_prefix s) = None" "vn k = None" "length (st_prefix s) \<le> 256"
    using assms(1) by (simp_all add: staging_def fits_def)
  note lay = layout_candidates(3) [OF names]
  show ?thesis
  proof (cases "legacyManifestObjectKey (st_prefix s) k")
    case None
    with lay assms(3) show ?thesis by (simp add: settleAgainstLegacyManifest_def) (metis list.sel(3) empty_iff list.set(1))
  next
    case (Some legacy)
    have tl: "tl (layout_keys vn (st_prefix s) k) = [legacy]" using Some by (subst lay) simp
    then have mem: "legacy \<in> set (layout_keys vn (st_prefix s) k)"
      by (metis list.set_intros(1) list.set_sel(2) tl_Nil not_Cons_self2)
    have "ensures (readManifestAt vn s c legacy k True) (with_payload pk content v)
      (\<lambda>v' r. ensures (case r of
          Inl e \<Rightarrow> Ret (if is_not_found e then (False, None) else (True, Some e))
        | Inr existing \<Rightarrow> Ret (True, if manifestsMatch existing (manifest_of k pk content) then None
            else Some (BlobConflictError k))) v' Q)"
      using assms(2,3) tl by (intro staging_read [OF assms(1) mem]) (auto simp: put_result_def)
    with Some show ?thesis by (simp add: settleAgainstLegacyManifest_def readLegacyManifest_def)
  qed
qed

text \<open>The manifest is put where none is.\<close>

lemma settled_first:
  assumes "staging vn s k pk content v" "encodeManifest vn (manifest_of k pk content) = Inr enc"
    and free: "\<forall>r \<in> set (layout_keys vn (st_prefix s) k). so_objects v r = None"
    and mk: "mk \<in> set (layout_keys vn (st_prefix s) k)" "mk = hd (layout_keys vn (st_prefix s) k)"
  shows "settled vn s k pk content v ((with_payload pk content v)
    \<lparr>so_objects := (so_objects (with_payload pk content v))(mk \<mapsto> enc)\<rparr>) (None, False)"
proof -
  let ?p = "st_prefix s" and ?ob = "so_objects v" and ?m = "manifest_of k pk content"
  have ok: "blobs_ok vn ?p ?ob" and fits: "fits vn s v"
    using assms(1) by (simp_all add: staging_def fits_def)
  have "digest_ok ?m" "Size ?m \<le> max_int64"
    using assms(1) by (simp_all add: digest_ok_def manifest_of_def staging_def fits_def)
  from parse_encode [OF assms(2) this] encodeManifest_length [OF assms(2) this(1)] assms(1,2)
  have new: "complete vn ?p (?ob(PayloadKey ?m \<mapsto> content)) k enc ?m content"
    by (auto simp: complete_def manifest_of_def staging_def inr_iff)
  have "?ob (PayloadKey ?m) = None" using assms(1) by (simp add: staging_def manifest_of_def)
  note grown = add_blob [OF ok free mk(1) this new]
  have "held_blobs vn s v k = None" using free by (simp add: blobs_None [OF ok] held_at_None)
  with grown fits mk(2) show ?thesis
    by (simp add: settled_def put_result_def fits_def manifest_of_def apart_def with_payload_def)
qed

lemma put_publish_served:
  assumes "staging vn s k pk content v" "encodeManifest vn (manifest_of k pk content) = Inr enc"
    and "\<forall>mk \<in> set (tl (layout_keys vn (st_prefix s) k)). so_objects v mk = None"
    and mk: "mk = hd (layout_keys vn (st_prefix s) k)"
  shows "ensures (put_publish vn s c k mk pk (manifest_of k pk content) enc)
    (with_payload pk content v) (settled vn s k pk content v)"
proof -
  let ?p = "st_prefix s" and ?ob = "so_objects v" and ?v1 = "with_payload pk content v"
    and ?m = "manifest_of k pk content"
  have names: "canonical_names vn" "vn ?p = None" "vn k = None" "length ?p \<le> 256"
    and bucket: "ro_bucket (st_options s) = so_bucket v"
    using assms(1) by (simp_all add: staging_def fits_def)
  have mem: "mk \<in> set (layout_keys vn ?p k)" using layout_candidates(4) [OF names] mk by simp
  note at = staging_layout [OF assms(1) mem]
  define i where "i = applyEncryption s \<lparr>pi_bucket = ro_bucket (st_options s), pi_key = mk,
    pi_body = enc, pi_length = int (length enc), pi_if_none_match = Some ''*'', pi_sse = None,
    pi_kms = None\<rparr>"
  have i: "pi_bucket i = so_bucket v" "pi_key i = mk" "pi_body i = enc" "pi_if_none_match i = Some ''*''"
    by (simp_all add: i_def applyEncryption_def bucket)
  have put: "publishManifest s c mk enc = call (PutObject c i) (\<lambda>r. (as_err r = None, as_err r))"
    by (simp add: publishManifest_def i_def)
  show ?thesis
  proof (cases "?ob mk")
    case None
    have "\<forall>r \<in> set (layout_keys vn ?p k). ?ob r = None"
      using assms(3) None mk by (metis layout_candidates(3) [OF names] list.sel(3) set_ConsD)
    from settled_first [OF assms(1,2) this mem mk] show ?thesis
      using i at None by (simp add: put_publish_def put)
  next
    case (Some old_enc)
    have "settled vn s k pk content v ?v1
        (if manifestsMatch m ?m then None else Some (BlobConflictError k), PayloadKey m \<noteq> pk)"
      if "held_blobs vn s v k = Some b" "PayloadKey m \<noteq> pk"
        "manifestsMatch m ?m = same_content b content" for m b
      using that by (simp add: settled_def put_result_def)
    then have "ensures (resolve_publish vn s c k mk pk ?m op) ?v1 (settled vn s k pk content v)" for op
      using Some unfolding resolve_publish_def readManifest_def ensures_bind
      by (intro staging_read [OF assms(1) mem]) auto
    then show ?thesis
      using i at Some by (auto simp: put_publish_def put)
  qed
qed

lemma put_uploaded_served:
  assumes "staging vn s k pk content v" "mk = hd (layout_keys vn (st_prefix s) k)"
  shows "ensures (put_uploaded vn s c k mk pk (Some (int (length content))) (int (length content))
      (sum256 content)) (with_payload pk content v) (settled vn s k pk content v)"
proof -
  let ?v1 = "with_payload pk content v" and ?m = "manifest_of k pk content"
  obtain enc where enc: "encodeManifest vn ?m = Inr enc" using assms(1) by (auto simp: staging_def)
  have "ensures (settleAgainstLegacyManifest vn s c k ?m) ?v1
    (\<lambda>v' r. ensures (case r of (found, e) \<Rightarrow> if found \<or> e \<noteq> None then Ret (e, True)
        else put_publish vn s c k mk pk ?m enc) v' (settled vn s k pk content v))"
    using put_publish_served [OF assms(1) enc _ assms(2)]
    by (intro settle_served [OF assms(1)]) (simp_all add: settled_def)
  then have "ensures (verifyPayload s c pk (int (length content)) (sum256 content)) ?v1
    (\<lambda>v' r. ensures (case r of Some e \<Rightarrow> Ret (Some e, True) | None \<Rightarrow>
        pbind (settleAgainstLegacyManifest vn s c k ?m) (\<lambda>(found, e).
          if found \<or> e \<noteq> None then Ret (e, True) else put_publish vn s c k mk pk ?m enc))
      v' (settled vn s k pk content v))"
    using assms(1)
    by (intro verifyPayload_served)
      (auto simp: staging_def fits_def payload_key_shape payloadRoot_def namespaceRoot_def)
  then show ?thesis
    unfolding put_uploaded_def manifest_of_def [symmetric] Let_def ensures_bind enc by (simp del: not_None_eq)
qed

text \<open>The end of \<open>Put\<close>: its error and the map of blobs.\<close>

definition put_done ::
    "name_validator \<Rightarrow> store \<Rightarrow> string \<Rightarrow> string \<Rightarrow> bytes \<Rightarrow> service \<Rightarrow> service \<Rightarrow> err option \<Rightarrow> bool"
  where
  "put_done vn s k pk content v v' e \<longleftrightarrow>
     fits vn s v' \<and> so_free v' = so_free v \<and> apart vn s k pk v v'
     \<and> (if int (length content) \<le> ro_maxAccountedObjectSize (st_options s)
        then e = put_result (held_blobs vn s v k) k content
          \<and> held_blobs vn s v' = (if held_blobs vn s v k = None
               then (held_blobs vn s v)(k \<mapsto> content) else held_blobs vn s v)
        else e = Some (ObjectTooLargeError (ro_maxAccountedObjectSize (st_options s)))
          \<and> held_blobs vn s v' = held_blobs vn s v)"

lemma cleanup_served:
  assumes "staging vn s k pk content v" "settled vn s k pk content v v' (e, safe)"
    and "\<And>v''. put_done vn s k pk content v v'' e \<Longrightarrow> Q v'' ()"
  shows "ensures (put_cleanup s c pk safe) v' Q"
proof (cases "held_blobs vn s v k")
  case None
  with assms show ?thesis
    by (auto simp: put_cleanup_def settled_def put_done_def staging_def)
next
  case (Some old)
  with assms(2) have v': "safe" "v' = with_payload pk content v"
    and e: "e = put_result (Some old) k content" by (auto simp: settled_def)
  have "(so_objects v')(pk := None) = so_objects v"
    using assms(1) v'(2) by (auto simp: staging_def fun_eq_iff)
  then have "v'\<lparr>so_objects := (so_objects v')(pk := None)\<rparr> = v" by (simp add: v'(2) with_payload_def)
  moreover have "put_done vn s k pk content v v e"
    using assms(1) Some e by (auto simp: put_done_def staging_def apart_def)
  moreover have "pk \<noteq> []" "ro_bucket (st_options s) = so_bucket v'"
    using assms(1) v'(2)
    by (auto simp: staging_def fits_def payload_key_shape payloadRoot_def namespaceRoot_def)
  ultimately show ?thesis
    using assms(3) v'(1) by (simp add: put_cleanup_def deletePayloadBestEffort_def object_at_def)
qed

text \<open>An upload takes the whole source, or refuses it for its size.\<close>

lemma upload_served:
  assumes "upload_step v (upload_of s pk src) r v'" "0 \<le> ro_maxAccountedObjectSize (st_options s)" "clean src"
  obtains ns where "int (length (script_bytes src)) \<le> ro_maxAccountedObjectSize (st_options s)"
      "r = RUpload (Inr (Some (int (length (script_bytes src))))) ns" "v' = with_payload pk (script_bytes src) v"
      "acc_size (read_by_upload (upload_of s pk src) ns) = int (length (script_bytes src))"
      "fst (accounted_digest (read_by_upload (upload_of s pk src) ns)) = sum256 (script_bytes src)"
  | ns e where "ro_maxAccountedObjectSize (st_options s) < int (length (script_bytes src))"
      "r = RUpload (Inl e) ns" "v' = v"
      "errors_as as_too_large e = Some (ro_maxAccountedObjectSize (st_options s))"
proof -
  let ?u = "upload_of s pk src" and ?max = "ro_maxAccountedObjectSize (st_options s)" and ?content = "script_bytes src"
  have body: "acc_source (ui_body ?u) = src" "acc_hash (ui_body ?u) = []" "acc_maximum (ui_body ?u) = ?max"
    "accounted_ok (ui_body ?u)" "ui_key ?u = pk"
    using accounted_ok_new [OF assms(2), of src]
    by (simp_all add: newAccountedHashReader_def upload_of_def applyTransferEncryption_def)
  from assms(1) obtain up ns bs es e rest where r: "r = RUpload up ns"
    and seq: "read_seq (accounted_read script_read) (ui_body ?u) ns = ((bs, es @ [Some e]), rest)"
    and es: "set es \<subseteq> {None}"
    and up: "if e = EOF then up = Inr (Some (int (length bs))) \<and> v' = with_payload pk bs v
      else v' = v \<and> (\<exists>e'. up = Inl e' \<and> errors_as as_too_large e' = errors_as as_too_large e)"
    unfolding upload_step_def with_payload_def body(5) by blast
  from accounted_seq_clean [OF _ body(4) es seq] assms(3) body
  have result: "if int (length ?content) \<le> ?max then e = EOF \<and> bs = ?content
    else e = ObjectTooLargeError ?max" by simp
  show thesis
  proof (cases "int (length ?content) \<le> ?max")
    case True
    with result up r seq upload_content(1,2) [OF assms(2), of ?content pk src ns] that(1) show ?thesis by auto
  next
    case False
    with result up r that(2) show ?thesis by auto
  qed
qed

lemma put_staged_served:
  assumes fits: "fits vn s v" "vn k = None" "so_objects v pk = None"
    and pk: "newPayloadObjectKey vn (Some rnd) (st_prefix s) k = Inr pk" "length rnd = 16"
    and src: "clean src" "content = script_bytes src"
    and mk: "mk = hd (layout_keys vn (st_prefix s) k)"
    and Q: "\<And>v' e safe. staging vn s k pk content v \<Longrightarrow> settled vn s k pk content v v' (e, safe) \<Longrightarrow>
        Q v' (e, safe)"
      "ro_maxAccountedObjectSize (st_options s) < int (length content) \<Longrightarrow>
        Q v (Some (ObjectTooLargeError (ro_maxAccountedObjectSize (st_options s))), False)"
  shows "ensures (put_staged vn s c k mk pk src) v Q"
proof -
  let ?u = "upload_of s pk src"
  have max: "0 \<le> ro_maxAccountedObjectSize (st_options s)" using fits(1) by (simp add: fits_def)
  have "pk \<noteq> []" using pk(1) by (auto simp: inr_iff payloadRoot_def namespaceRoot_def)
  then have adm: "admissible v (UploadObject c ?u)"
    using fits accounted_ok_new [OF max, of src] by (simp add: upload_of_def applyTransferEncryption_def fits_def)
  have "ensures (case as_upload r of (up, ns) \<Rightarrow>
        (case up of
           Inl e \<Rightarrow>
             (case errors_as as_too_large e of
                Some m \<Rightarrow> Ret (Some (ObjectTooLargeError m), False)
              | None \<Rightarrow> pbind (ctx_or c (BackendError ''payload upload'')) (\<lambda>x. Ret (Some x, False)))
         | Inr len \<Rightarrow> put_uploaded vn s c k mk pk len (acc_size (read_by_upload ?u ns))
             (fst (accounted_digest (read_by_upload ?u ns))))) v' Q"
    if "upload_step v ?u r v'" for r v'
    using that max src(1)
  proof (cases rule: upload_served)
    case (1 ns)
    then have "staging vn s k pk content v"
      using fits pk src(2) own_payload_key_matches [OF pk] own_payload_key_valid [OF _ _ pk(2,1)]
      by (auto simp: staging_def fits_def encodeManifest_Inr manifest_of_def limits)
    then have "ensures (put_uploaded vn s c k mk pk (Some (int (length content)))
        (int (length content)) (sum256 content)) (with_payload pk content v) Q"
      by (intro ensures_mono [OF put_uploaded_served [OF _ mk]]) (auto intro: Q(1))
    with 1 src(2) show ?thesis by simp
  next
    case (2 ns e)
    with Q(2) src(2) show ?thesis by simp
  qed
  then show ?thesis
    unfolding put_staged_def Let_def ensures_bind ensures_call s3_step.simps using adm by blast
qed

lemma Put_served:
  assumes fits: "fits vn s v" "vn k = None" "0 < so_free v"
    and draw: "length (so_draw v 0) = 16"
      "so_objects v (payloadRoot (st_prefix s) k @ hex_encode (so_draw v 0)) = None"
    and src: "clean src"
  shows "ensures (Put vn s (Some c) k (Some src)) v
    (put_done vn s k (payloadRoot (st_prefix s) k @ hex_encode (so_draw v 0)) (script_bytes src)
      (v\<lparr>so_draw := \<lambda>j. so_draw v (Suc j)\<rparr>))"
proof -
  let ?content = "script_bytes src" and ?p = "st_prefix s"
  define pk where "pk = payloadRoot ?p k @ hex_encode (so_draw v 0)"
  define v1 where "v1 = v\<lparr>so_free := so_free v - 1\<rparr>"
  define v2 where "v2 = v1\<lparr>so_draw := \<lambda>j. so_draw v1 (Suc j)\<rparr>"
  have names: "canonical_names vn" "vn ?p = None" "vn k = None" "length ?p \<le> 256"
    using fits by (simp_all add: fits_def)
  have key: "newPayloadObjectKey vn (Some (so_draw v 0)) ?p k = Inr pk"
    using names draw(1) by (simp add: inr_iff pk_def limits)
  have v2: "fits vn s v2" "so_objects v2 = so_objects v" "so_objects v2 pk = None"
    using fits(1) draw(2) by (simp_all add: v2_def v1_def fits_def pk_def)
  define v0 where "v0 = v\<lparr>so_draw := \<lambda>j. so_draw v (Suc j)\<rparr>"
  have finish: "put_done vn s k pk ?content v0 (v'\<lparr>so_free := so_free v' + 1\<rparr>) e"
    if "put_done vn s k pk ?content v2 v' e" for v' e
    using that v2 fits(3) by (simp add: put_done_def apart_def v2_def v1_def v0_def)
  have "ensures (put_staged vn s b k (hd (layout_keys vn ?p k)) pk src) v2
      (\<lambda>v' r. ensures (case r of (e, safe) \<Rightarrow> pbind (put_cleanup s b pk safe) (\<lambda>_. Ret e)) v'
        (put_done vn s k pk ?content v2))" for b
  proof (rule put_staged_served [OF v2(1) fits(2) v2(3) key draw(1) src refl refl])
    fix v' e safe
    assume "staging vn s k pk ?content v2" "settled vn s k pk ?content v2 v' (e, safe)"
    then show "ensures (case (e, safe) of (e, safe) \<Rightarrow> pbind (put_cleanup s b pk safe) (\<lambda>_. Ret e)) v'
        (put_done vn s k pk ?content v2)" by (auto intro: cleanup_served)
  qed (use v2(1) in \<open>simp add: put_cleanup_def put_done_def apart_def\<close>)
  then have "ensures (put_holding vn s b k src) v1 (put_done vn s k pk ?content v2)" for b
    using layout_candidates(2) [OF names] names key
    by (simp add: put_holding_def draw_payload_key_def v2_def v1_def)
  then have holding: "ensures (put_holding vn s b k src) v1
      (\<lambda>v' e. put_done vn s k pk ?content v0 (v'\<lparr>so_free := so_free v' + 1\<rparr>) e)" for b
    by (rule ensures_mono) (rule finish)
  have "st_slots s \<noteq> None" using fits(1) by (simp add: fits_def)
  with holding fits have "ensures (put_bounded vn s b k (Some src)) v (put_done vn s k pk ?content v0)"
    if "ctx_deadline b \<noteq> NoDeadline" for b
    using that by (auto simp: put_bounded_def validateBlobKey_def v1_def intro!: ensures_acquire)
  then show ?thesis
    unfolding Put_def ensures_bind v0_def pk_def
    by (intro ensures_bound) (auto intro: ensures_mono)
qed

end
