(* ===== verification/SharedBucket.thy ===== *)
theory SharedBucket
  imports BlobServedWrites
begin

text \<open>
  A bucket that several calls share and whose requests may fail: every request can end in an error,
  done or not, every read can break off, and between two requests of one call the others run. A
  state is the whole history of the bucket, so that a call's result can be explained by one of the
  moments of the call. \<open>under\<close> is a rely-guarantee calculus for one call among others.
\<close>

type_synonym objs = "string \<Rightarrow> bytes option"

text \<open>The bucket after each request so far, newest first; never empty.\<close>

type_synonym hist = "objs list"

section \<open>Errors that claim nothing\<close>

text \<open>An error that reports neither a conflict nor that a blob is absent.\<close>

definition bland :: "err \<Rightarrow> bool" where
  "bland e \<longleftrightarrow> (\<forall>k. e \<noteq> BlobConflictError k) \<and> \<not> is_not_found e"

lemma bland_simps [simp]:
  "bland (BackendError t)" "bland (integrityError t)" "bland CtxCanceled" "bland CtxDeadlineExceeded"
  "bland (ObjectTooLargeError n)" "bland (BlobIntegrityError t)" "bland (DeadlineRequiredError t)"
  "bland (UnconstructedStoreError t)" "bland (OptionsError t u)" "\<not> bland (BlobConflictError k)"
  "\<not> bland (BlobNotFoundError k)" "bland EOF" "bland UnexpectedEOF" "bland BlobReaderClosedError"
  by (simp_all add: bland_def is_not_found_def integrityError_def)

text \<open>The reads of a body fail with errors of the transport.\<close>

definition bland_script :: "script \<Rightarrow> bool" where
  "bland_script bs \<longleftrightarrow> list_all (\<lambda>(_, e). \<forall>x. e = Some x \<longrightarrow> bland x) bs"

section \<open>One request\<close>

text \<open>What a reader has of \<open>b\<close>: some of its bytes from the start on, then anything.\<close>

definition part_of :: "body \<Rightarrow> bytes \<Rightarrow> bool" where
  "part_of bd b \<longleftrightarrow> (\<exists>rest. script_bytes (bd_script bd) @ rest = b)"

definition get_answer :: "objs \<Rightarrow> get_input \<Rightarrow> get_output \<Rightarrow> bool" where
  "get_answer ob g out \<longleftrightarrow>
     (\<exists>b. ob (gi_key g) = Some b
        \<and> (\<forall>bd. go_body out = Some bd \<longrightarrow> bland_script (bd_script bd))
        \<and> (\<forall>bd lo hi. go_body out = Some bd \<and> gi_range g = Some (byte_range lo hi)
             \<and> 0 \<le> lo \<and> lo \<le> hi \<and> hi < 2 ^ 63 \<longrightarrow> part_of bd (slice_of b lo hi)))"

text \<open>An upload that is acknowledged read its body to the end; one that is not may be committed.\<close>

definition upload_answer :: "objs \<Rightarrow> upload_input \<Rightarrow> resp \<Rightarrow> objs \<Rightarrow> bool" where
  "upload_answer ob u r ob' \<longleftrightarrow>
     (\<exists>up ns. r = RUpload up ns
        \<and> (case up of
             Inr len \<Rightarrow> ob (ui_key u) = None
               \<and> (\<exists>bs es rest. read_seq (accounted_read script_read) (ui_body u) ns
                     = ((bs, es @ [Some EOF]), rest)
                   \<and> set es \<subseteq> {None} \<and> ob' = ob(ui_key u \<mapsto> bs))
           | Inl e \<Rightarrow> ob' = ob \<or> (ob (ui_key u) = None \<and> (\<exists>b. ob' = ob(ui_key u \<mapsto> b)))))"

text \<open>
  \<open>d\<close> is the random block of the call. A HEAD that reports 404, or 400 for a key the service does
  not take, is right about the key being absent, and the rows of a listing are of objects that are
  there.
\<close>

primrec shaky_step :: "bytes \<Rightarrow> objs \<Rightarrow> cmd \<Rightarrow> resp \<Rightarrow> objs \<Rightarrow> bool" where
  "shaky_step d ob (HeadObject c i) r ob' \<longleftrightarrow> ob' = ob
     \<and> ((\<exists>e. r = RHead (Inl e)
           \<and> (isHTTPStatus e 404 \<or> isHTTPStatus e 400 \<longrightarrow> ob (oi_key i) = None))
        \<or> (\<exists>h b. r = RHead (Inr h) \<and> ob (oi_key i) = Some b
             \<and> ho_length h \<in> {None, Some (int (length b))}))"
| "shaky_step d ob (GetObject c g) r ob' \<longleftrightarrow> ob' = ob
     \<and> ((\<exists>e. r = RGet (Inl e)) \<or> (\<exists>out. r = RGet (Inr out) \<and> get_answer ob g out))"
| "shaky_step d ob (PutObject c i) r ob' \<longleftrightarrow>
     (r = RErr None \<and> ob (pi_key i) = None \<and> ob' = ob(pi_key i \<mapsto> pi_body i))
     \<or> (\<exists>e. r = RErr (Some e)
          \<and> (ob' = ob \<or> (ob (pi_key i) = None \<and> ob' = ob(pi_key i \<mapsto> pi_body i))))"
| "shaky_step d ob (DeleteObject c i) r ob' \<longleftrightarrow>
     (r = RErr None \<and> ob' = ob(oi_key i := None))
     \<or> (\<exists>e. r = RErr (Some e) \<and> (ob' = ob \<or> ob' = ob(oi_key i := None)))"
| "shaky_step d ob (ListObjectsV2 c i) r ob' \<longleftrightarrow> ob' = ob
     \<and> ((\<exists>e. r = RList (Inl e))
        \<or> (\<exists>out. r = RList (Inr out)
             \<and> (\<forall>x. Some x \<in> set (lo_rows out) \<longrightarrow> has_prefix x (li_prefix i) \<and> ob x \<noteq> None)))"
| "shaky_step d ob (UploadObject c u) r ob' \<longleftrightarrow> upload_answer ob u r ob'"
| "shaky_step d ob (CtxErr c) r ob' \<longleftrightarrow> ob' = ob \<and> ctx_answer r"
| "shaky_step d ob Fresh r ob' \<longleftrightarrow> ob' = ob \<and> is_RFresh r"
| "shaky_step d ob (Cancel i) r ob' \<longleftrightarrow> ob' = ob \<and> r = RDone"
| "shaky_step d ob (RandRead n) r ob' \<longleftrightarrow> ob' = ob \<and> (r = RRand None \<or> r = RRand (Some d))"
| "shaky_step d ob (Acquire c) r ob' \<longleftrightarrow> ob' = ob \<and> ctx_answer r"
| "shaky_step d ob Release r ob' \<longleftrightarrow> ob' = ob \<and> r = RDone"

text \<open>The commands these answers are about: to the one bucket, creating ones conditional.\<close>

primrec confined :: "string \<Rightarrow> cmd \<Rightarrow> bool" where
  "confined bucket (HeadObject c i) \<longleftrightarrow> oi_bucket i = bucket"
| "confined bucket (GetObject c g) \<longleftrightarrow> gi_bucket g = bucket"
| "confined bucket (PutObject c i) \<longleftrightarrow> pi_bucket i = bucket \<and> pi_if_none_match i = Some ''*''"
| "confined bucket (DeleteObject c i) \<longleftrightarrow> oi_bucket i = bucket"
| "confined bucket (ListObjectsV2 c i) \<longleftrightarrow> li_bucket i = bucket"
| "confined bucket (UploadObject c u) \<longleftrightarrow> ui_bucket u = bucket \<and> ui_if_none_match u = Some ''*''"
| "confined bucket (CtxErr c) \<longleftrightarrow> True"
| "confined bucket Fresh \<longleftrightarrow> True"
| "confined bucket (Cancel i) \<longleftrightarrow> True"
| "confined bucket (RandRead n) \<longleftrightarrow> n = 16"
| "confined bucket (Acquire c) \<longleftrightarrow> True"
| "confined bucket Release \<longleftrightarrow> True"

section \<open>Histories\<close>

abbreviation manifest_root :: "string \<Rightarrow> string" where
  "manifest_root p \<equiv> namespaceRoot p manifestNamespace"

text \<open>The payload keys of the call with block \<open>d\<close>, and where \<open>Put\<close> publishes a manifest.\<close>

definition pkey :: "string \<Rightarrow> bytes \<Rightarrow> string \<Rightarrow> string" where
  "pkey p d k = payloadRoot p k @ hex_encode d"

definition mkey :: "name_validator \<Rightarrow> string \<Rightarrow> string \<Rightarrow> string" where
  "mkey vn p k = hd (layout_keys vn p k)"

abbreviation old_layout :: "name_validator \<Rightarrow> string \<Rightarrow> string \<Rightarrow> string set" where
  "old_layout vn p k \<equiv> set (tl (layout_keys vn p k))"

definition named :: "name_validator \<Rightarrow> string \<Rightarrow> hist \<Rightarrow> string \<Rightarrow> bool" where
  "named vn p hs pk \<longleftrightarrow> (\<exists>ob \<in> set hs. names_payload vn p ob pk)"

text \<open>
  What every request keeps: manifests are complete, one object changes at most, none appears at a
  legacy key, and a new manifest names a payload that none has named before.
\<close>

definition follows :: "name_validator \<Rightarrow> string \<Rightarrow> hist \<Rightarrow> objs \<Rightarrow> bool" where
  "follows vn p hs ob' \<longleftrightarrow> blobs_ok vn p ob'
     \<and> (\<exists>x y. ob' = (hd hs)(x := y))
     \<and> (\<forall>k. \<forall>mk \<in> old_layout vn p k. hd hs mk = None \<longrightarrow> ob' mk = None)
     \<and> (\<forall>mk m. manifest_at vn p ob' mk m \<longrightarrow>
          manifest_at vn p (hd hs) mk m \<or> \<not> named vn p hs (PayloadKey m))"

primrec sound :: "name_validator \<Rightarrow> string \<Rightarrow> hist \<Rightarrow> bool" where
  "sound vn p [] \<longleftrightarrow> False"
| "sound vn p (ob # hs) \<longleftrightarrow>
     (if hs = [] then blobs_ok vn p ob else follows vn p hs ob \<and> sound vn p hs)"

lemma named_simps [simp]:
  "\<not> named vn p [] pk" "named vn p (ob # hs) pk \<longleftrightarrow> names_payload vn p ob pk \<or> named vn p hs pk"
  by (simp_all add: named_def)

lemma named_append: "named vn p hs pk \<Longrightarrow> named vn p (xs @ hs) pk"
  by (auto simp: named_def)

lemma sound_not_Nil [simp]: "sound vn p hs \<Longrightarrow> hs \<noteq> []"
  by auto

lemma sound_blobs_ok: "sound vn p hs \<Longrightarrow> ob \<in> set hs \<Longrightarrow> blobs_ok vn p ob"
  by (induction hs) (auto simp: follows_def split: if_splits)

lemma sound_now: "sound vn p hs \<Longrightarrow> blobs_ok vn p (hd hs)"
  by (simp add: sound_blobs_ok)

lemma follows_same: "sound vn p hs \<Longrightarrow> follows vn p hs (hd hs)"
proof -
  assume "sound vn p hs"
  moreover have "\<exists>x y. hd hs = (hd hs)(x := y)" by (metis fun_upd_triv)
  ultimately show ?thesis unfolding follows_def using sound_now by blast
qed

lemma sound_same: "sound vn p hs \<Longrightarrow> sound vn p (hd hs # hs)"
  by (simp add: follows_same)

text \<open>What is lost is lost for good: a legacy manifest, and the manifest of a payload.\<close>

lemma sound_legacy:
  "sound vn p (xs @ hs) \<Longrightarrow> mk \<in> old_layout vn p k \<Longrightarrow> hs \<noteq> [] \<Longrightarrow> hd hs mk = None \<Longrightarrow>
   hd (xs @ hs) mk = None"
  by (induction xs) (auto simp: follows_def split: if_splits)

lemma sound_manifest_at:
  "sound vn p (xs @ hs) \<Longrightarrow> named vn p hs (PayloadKey m) \<Longrightarrow> hs \<noteq> [] \<Longrightarrow>
   manifest_at vn p (hd (xs @ hs)) mk m \<Longrightarrow> manifest_at vn p (hd hs) mk m"
proof (induction xs)
  case (Cons ob xs)
  then have "manifest_at vn p (hd (xs @ hs)) mk m \<or> \<not> named vn p (xs @ hs) (PayloadKey m)"
    by (auto simp: follows_def split: if_splits)
  with Cons named_append [of vn p hs _ xs] show ?case by (auto split: if_splits)
qed simp

section \<open>What the others may do\<close>

text \<open>
  The rely of the call with block \<open>d\<close>: the history grows and stays sound, and a payload key with
  \<open>d\<close> that no manifest has named so far is neither touched nor named.
\<close>

definition disturbs :: "name_validator \<Rightarrow> string \<Rightarrow> bytes \<Rightarrow> hist \<Rightarrow> hist \<Rightarrow> bool" where
  "disturbs vn p d hs hs' \<longleftrightarrow> (\<exists>xs. hs' = xs @ hs)
     \<and> (sound vn p hs \<longrightarrow> sound vn p hs')
     \<and> (\<forall>k. \<not> named vn p hs (pkey p d k) \<longrightarrow>
          \<not> named vn p hs' (pkey p d k) \<and> hd hs' (pkey p d k) = hd hs (pkey p d k))"

lemma disturbs_refl [simp]: "disturbs vn p d hs hs"
  by (simp add: disturbs_def)

lemma disturbs_trans:
  "disturbs vn p d hs hs1 \<Longrightarrow> disturbs vn p d hs1 hs2 \<Longrightarrow> disturbs vn p d hs hs2"
  unfolding disturbs_def by (elim conjE exE) (intro conjI allI impI; force)

lemma disturbs_quiet: "sound vn p hs \<Longrightarrow> disturbs vn p d hs (hd hs # hs)"
  unfolding disturbs_def using sound_same [of vn p hs]
  by (auto simp: named_def simp del: sound.simps intro: exI [of _ "[hd hs]"] dest: sound_not_Nil)

text \<open>
  The guarantee of a call whose effect on the blobs is \<open>E\<close>: besides the manifests it touches only
  its own payload keys and such as some manifest has named, and a new manifest names its own.
\<close>

definition grants ::
    "name_validator \<Rightarrow> string \<Rightarrow> bytes \<Rightarrow> (objs \<Rightarrow> objs \<Rightarrow> bool) \<Rightarrow> hist \<Rightarrow> hist \<Rightarrow> bool" where
  "grants vn p d E hs hs' \<longleftrightarrow> (sound vn p hs \<longrightarrow> (\<exists>ob'. hs' = ob' # hs \<and> follows vn p hs ob'
     \<and> (\<forall>x. ob' x \<noteq> hd hs x \<longrightarrow>
          has_prefix x (manifest_root p) \<or> named vn p hs x \<or> (\<exists>k. x = pkey p d k))
     \<and> (\<forall>mk m. manifest_at vn p ob' mk m \<longrightarrow>
          manifest_at vn p (hd hs) mk m \<or> (\<exists>k. PayloadKey m = pkey p d k))
     \<and> (blobs vn p ob' = blobs vn p (hd hs) \<or> E (blobs vn p (hd hs)) (blobs vn p ob'))))"

lemma grants_quiet: "grants vn p d E hs (hd hs # hs)"
  by (auto simp: grants_def follows_same)

section \<open>The calculus\<close>

text \<open>
  \<open>R\<close> survives what the others do to a sound history; \<open>P\<close> is besides about sound histories only.
\<close>

definition kept :: "name_validator \<Rightarrow> string \<Rightarrow> bytes \<Rightarrow> (hist \<Rightarrow> bool) \<Rightarrow> bool" where
  "kept vn p d R \<longleftrightarrow> (\<forall>hs hs'. R hs \<and> sound vn p hs \<and> disturbs vn p d hs hs' \<longrightarrow> R hs')"

definition stable :: "name_validator \<Rightarrow> string \<Rightarrow> bytes \<Rightarrow> (hist \<Rightarrow> bool) \<Rightarrow> bool" where
  "stable vn p d P \<longleftrightarrow> (\<forall>hs. P hs \<longrightarrow> sound vn p hs) \<and> kept vn p d P"

lemma kept_const [simp]: "kept vn p d (\<lambda>_. A)"
  by (simp add: kept_def)

lemma kept_conj: "kept vn p d P \<Longrightarrow> kept vn p d R \<Longrightarrow> kept vn p d (\<lambda>hs. P hs \<and> R hs)"
  by (auto simp: kept_def)

lemma kept_disj: "kept vn p d P \<Longrightarrow> kept vn p d R \<Longrightarrow> kept vn p d (\<lambda>hs. P hs \<or> R hs)"
  by (auto simp: kept_def)

lemma kept_all: "(\<And>x. kept vn p d (R x)) \<Longrightarrow> kept vn p d (\<lambda>hs. \<forall>x. R x hs)"
  by (auto simp: kept_def)

lemma kept_ex: "(\<And>x. kept vn p d (R x)) \<Longrightarrow> kept vn p d (\<lambda>hs. \<exists>x. R x hs)"
  unfolding kept_def by blast

lemma kept_imp: "(A \<Longrightarrow> kept vn p d R) \<Longrightarrow> kept vn p d (\<lambda>hs. A \<longrightarrow> R hs)"
  by (auto simp: kept_def)

lemma kept_case_sum:
  "(\<And>e. kept vn p d (P e)) \<Longrightarrow> (\<And>x. kept vn p d (R x)) \<Longrightarrow>
   kept vn p d (\<lambda>hs. case r of Inl e \<Rightarrow> P e hs | Inr x \<Rightarrow> R x hs)"
  by (cases r) simp_all

lemma kept_case_prod:
  "(\<And>x y. kept vn p d (R x y)) \<Longrightarrow> kept vn p d (\<lambda>hs. case r of (x, y) \<Rightarrow> R x y hs)"
  by (cases r) simp

lemmas kept_rules = kept_case_sum kept_case_prod kept_disj kept_all kept_ex kept_imp kept_conj kept_const

lemma stableD:
  assumes "stable vn p d P"
  shows "P hs \<Longrightarrow> sound vn p hs" "kept vn p d P"
  using assms unfolding stable_def by blast+

lemma stable_later: "stable vn p d P \<Longrightarrow> P hs \<Longrightarrow> disturbs vn p d hs hs' \<Longrightarrow> P hs'"
  unfolding stable_def kept_def by blast

lemma stable_and: "stable vn p d P \<Longrightarrow> kept vn p d R \<Longrightarrow> stable vn p d (\<lambda>hs. P hs \<and> R hs)"
  unfolding stable_def kept_def by blast

lemma kept_quiet: "kept vn p d R \<Longrightarrow> R hs \<Longrightarrow> sound vn p hs \<Longrightarrow> R (hd hs # hs)"
  unfolding kept_def by (metis disturbs_quiet)

text \<open>
  \<open>under vn s d E q hs Q\<close>: started after \<open>hs\<close> and disturbed before each of its requests and at its
  end, \<open>q\<close> issues confined requests only, keeps to the guarantee of a call with block \<open>d\<close> and
  effect \<open>E\<close>, and \<open>Q\<close> holds at its end.
\<close>

primrec under ::
    "name_validator \<Rightarrow> store \<Rightarrow> bytes \<Rightarrow> (objs \<Rightarrow> objs \<Rightarrow> bool) \<Rightarrow> 'a prog \<Rightarrow> hist
      \<Rightarrow> (hist \<Rightarrow> 'a \<Rightarrow> bool) \<Rightarrow> bool" where
  "under vn s d E (Ret x) hs Q \<longleftrightarrow> (\<forall>hs1. disturbs vn (st_prefix s) d hs hs1 \<longrightarrow> Q hs1 x)"
| "under vn s d E (Do c f) hs Q \<longleftrightarrow>
     (\<forall>hs1. disturbs vn (st_prefix s) d hs hs1 \<longrightarrow> confined (ro_bucket (st_options s)) c
        \<and> (\<forall>r ob. shaky_step d (hd hs1) c r ob \<longrightarrow>
             grants vn (st_prefix s) d E hs1 (ob # hs1) \<and> under vn s d E (f r) (ob # hs1) Q))"

lemma under_later:
  "under vn s d E q hs Q \<Longrightarrow> disturbs vn (st_prefix s) d hs hs1 \<Longrightarrow> under vn s d E q hs1 Q"
  by (cases q) (auto dest: disturbs_trans)

lemma under_now:
  "(\<And>hs1. disturbs vn (st_prefix s) d hs hs1 \<Longrightarrow> under vn s d E q hs1 Q) \<Longrightarrow> under vn s d E q hs Q"
  by (cases q) (simp, metis disturbs_refl)+

lemma under_mono:
  "under vn s d E q hs Q \<Longrightarrow> (\<And>hs x. Q hs x \<Longrightarrow> R hs x) \<Longrightarrow> under vn s d E q hs R"
proof (induction q arbitrary: hs)
  case (Do c f)
  show ?case
    using Do.prems(1) by (auto intro!: Do.IH [OF rangeI _ Do.prems(2)])
qed simp

lemma under_bind:
  "under vn s d E q hs (\<lambda>hs1 x. under vn s d E (f x) hs1 Q) \<Longrightarrow> under vn s d E (pbind q f) hs Q"
proof (induction q arbitrary: hs)
  case (Ret x)
  then show ?case by (auto intro: under_now)
next
  case (Do c g)
  show ?case using Do.prems by (auto intro!: Do.IH [OF rangeI])
qed

text \<open>Triples: from every history with \<open>P\<close>.\<close>

definition triple ::
    "name_validator \<Rightarrow> store \<Rightarrow> bytes \<Rightarrow> (objs \<Rightarrow> objs \<Rightarrow> bool) \<Rightarrow> (hist \<Rightarrow> bool) \<Rightarrow> 'a prog
      \<Rightarrow> (hist \<Rightarrow> 'a \<Rightarrow> bool) \<Rightarrow> bool" where
  "triple vn s d E P q Q \<longleftrightarrow> (\<forall>hs. P hs \<longrightarrow> under vn s d E q hs Q)"

lemma triple_Ret:
  "stable vn (st_prefix s) d P \<Longrightarrow> (\<And>hs. P hs \<Longrightarrow> Q hs x) \<Longrightarrow> triple vn s d E P (Ret x) Q"
  using stable_later by (fastforce simp: triple_def)

lemma triple_bind:
  "triple vn s d E P q M \<Longrightarrow> (\<And>x. triple vn s d E (\<lambda>hs. M hs x) (f x) Q) \<Longrightarrow>
   triple vn s d E P (pbind q f) Q"
  unfolding triple_def by (blast intro: under_bind under_mono)

lemma triple_call:
  assumes "stable vn (st_prefix s) d P" "\<And>x. stable vn (st_prefix s) d (\<lambda>hs. Q hs x)"
    and "confined (ro_bucket (st_options s)) c"
    and "\<And>hs r ob. P hs \<Longrightarrow> shaky_step d (hd hs) c r ob \<Longrightarrow>
      grants vn (st_prefix s) d E hs (ob # hs) \<and> Q (ob # hs) (f r)"
  shows "triple vn s d E P (call c f) Q"
  using assms stable_later unfolding triple_def call_def under.simps by metis

lemma triple_conseq:
  "triple vn s d E P q Q \<Longrightarrow> (\<And>hs. P' hs \<Longrightarrow> P hs) \<Longrightarrow> (\<And>hs x. Q hs x \<Longrightarrow> Q' hs x) \<Longrightarrow>
   triple vn s d E P' q Q'"
  unfolding triple_def by (blast intro: under_mono)

lemma triple_pre: "triple vn s d E P q Q \<Longrightarrow> (\<And>hs. P' hs \<Longrightarrow> P hs) \<Longrightarrow> triple vn s d E P' q Q"
  by (auto simp: triple_def)

lemma triple_case_sum:
  "(\<And>e. r = Inl e \<Longrightarrow> triple vn s d E P (f e) Q) \<Longrightarrow> (\<And>x. r = Inr x \<Longrightarrow> triple vn s d E P (g x) Q) \<Longrightarrow>
   triple vn s d E P (case r of Inl e \<Rightarrow> f e | Inr x \<Rightarrow> g x) Q"
  by (cases r) simp_all

lemma triple_case_option:
  "(r = None \<Longrightarrow> triple vn s d E P f Q) \<Longrightarrow> (\<And>x. r = Some x \<Longrightarrow> triple vn s d E P (g x) Q) \<Longrightarrow>
   triple vn s d E P (case r of None \<Rightarrow> f | Some x \<Rightarrow> g x) Q"
  by (cases r) simp_all

lemma triple_case_prod:
  "(\<And>x y. r = (x, y) \<Longrightarrow> triple vn s d E P (f x y) Q) \<Longrightarrow> triple vn s d E P (case r of (x, y) \<Rightarrow> f x y) Q"
  by (cases r) simp

lemma triple_if:
  "(A \<Longrightarrow> triple vn s d E P f Q) \<Longrightarrow> (\<not> A \<Longrightarrow> triple vn s d E P g Q) \<Longrightarrow>
   triple vn s d E P (if A then f else g) Q"
  by simp

lemmas triple_cases = triple_case_sum triple_case_option triple_case_prod triple_if

lemma triple_never: "(\<And>hs. \<not> P hs) \<Longrightarrow> triple vn s d E P q Q"
  by (simp add: triple_def)

text \<open>
  A request that changes nothing keeps what is stable; what its answer tells of the bucket is \<open>R\<close>.
\<close>

lemma triple_ask:
  assumes "stable vn (st_prefix s) d P" "\<And>x. kept vn (st_prefix s) d (\<lambda>hs. R hs x)"
    and "confined (ro_bucket (st_options s)) c"
    and "\<And>hs r ob. P hs \<Longrightarrow> shaky_step d (hd hs) c r ob \<Longrightarrow> ob = hd hs \<and> R hs (f r)"
  shows "triple vn s d E P (call c f) (\<lambda>hs x. P hs \<and> R hs x)"
proof (rule triple_call [OF assms(1) stable_and [OF assms(1,2)] assms(3)])
  fix hs r ob assume hs: "P hs" "shaky_step d (hd hs) c r ob"
  with assms(4) have "ob = hd hs" "R hs (f r)" by blast+
  with hs(1) kept_quiet [OF stableD(2) [OF assms(1)]] kept_quiet [OF assms(2), of hs "f r"]
    stableD(1) [OF assms(1)] grants_quiet
  show "grants vn (st_prefix s) d E hs (ob # hs) \<and> P (ob # hs) \<and> R (ob # hs) (f r)" by blast
qed

lemma triple_quiet:
  assumes "stable vn (st_prefix s) d P" "confined (ro_bucket (st_options s)) c"
    and "\<And>hs r ob. P hs \<Longrightarrow> shaky_step d (hd hs) c r ob \<Longrightarrow> ob = hd hs \<and> A (f r)"
  shows "triple vn s d E P (call c f) (\<lambda>hs x. P hs \<and> A x)"
  using assms by (intro triple_ask [where R = "\<lambda>_. A"]) simp_all

end
