(* ===== verification/BlobHistory.thy ===== *)
theory BlobHistory
  imports BlobServedWrites
begin

text \<open>
  Whole histories: any sequence of operations of one store, run against a service that keeps the
  contract, gives the results and the final blobs of an abstract map.
\<close>

section \<open>The abstract store\<close>

datatype blob_op = OpPut string script | OpGet string | OpDelete string | OpList string

datatype blob_reply =
    Outcome "err option"
  | Content "bytes result"
  | Listing "string list result option"

type_synonym blob_map = "string \<Rightarrow> bytes option"

definition spec_put :: "int \<Rightarrow> string \<Rightarrow> bytes \<Rightarrow> blob_map \<Rightarrow> blob_reply \<times> blob_map" where
  "spec_put maximum k content m =
     (if maximum < int (length content) then (Outcome (Some (ObjectTooLargeError maximum)), m)
      else (Outcome (put_result (m k) k content), if m k = None then m(k \<mapsto> content) else m))"

primrec spec_step :: "int \<Rightarrow> blob_op \<Rightarrow> blob_map \<Rightarrow> blob_reply \<times> blob_map" where
  "spec_step maximum (OpPut k src) m = spec_put maximum k (script_bytes src) m"
| "spec_step maximum (OpGet k) m =
     (Content (case m k of None \<Rightarrow> Inl (BlobNotFoundError k) | Some b \<Rightarrow> Inr b), m)"
| "spec_step maximum (OpDelete k) m = (Outcome None, m(k := None))"
| "spec_step maximum (OpList prefix) m =
     (Listing (Some (Inr (sorted_list_of_set {k \<in> dom m. has_prefix k prefix}))), m)"

primrec spec_run :: "int \<Rightarrow> blob_op list \<Rightarrow> blob_map \<Rightarrow> blob_reply list \<times> blob_map" where
  "spec_run maximum [] m = ([], m)"
| "spec_run maximum (op # ops) m =
     (case spec_step maximum op m of (r, m1) \<Rightarrow>
        (case spec_run maximum ops m1 of (rs, m2) \<Rightarrow> (r # rs, m2)))"

section \<open>The operations of a client\<close>

text \<open>\<open>io.ReadAll\<close> on a stream: enough reads of any buffer, to its first error.\<close>

definition drained :: "get_stream \<Rightarrow> bytes \<times> err option" where
  "drained st =
     fst (read_all Read (Suc (script_work (ver_body (br_verifier (gs_reader st))))) 512 (gs_reader st))"

text \<open>\<open>Get\<close>, then the whole stream, which releases the slot at its end, then \<open>Close\<close>.\<close>

definition get_all :: "name_validator \<Rightarrow> store \<Rightarrow> ctx \<Rightarrow> string \<Rightarrow> bytes result prog" where
  "get_all vn s c k =
     pbind (Get vn s (Some c) k) (\<lambda>g.
       case g of
         Inl e \<Rightarrow> Ret (Inl e)
       | Inr st \<Rightarrow>
           pbind (gs_release st) (\<lambda>_. pbind (gs_abort st) (\<lambda>_.
             Ret (case drained st of (b, e) \<Rightarrow>
               if e = Some EOF then Inr b
               else Inl (case e of Some x \<Rightarrow> x | None \<Rightarrow> UnexpectedEOF)))))"

primrec perform ::
    "name_validator \<Rightarrow> store \<Rightarrow> ctx \<Rightarrow> nat \<Rightarrow> blob_op \<Rightarrow> blob_reply prog" where
  "perform vn s c fuel (OpPut k src) = pbind (Put vn s (Some c) k (Some src)) (\<lambda>e. Ret (Outcome e))"
| "perform vn s c fuel (OpGet k) = pbind (get_all vn s c k) (\<lambda>r. Ret (Content r))"
| "perform vn s c fuel (OpDelete k) = pbind (Delete vn s (Some c) k) (\<lambda>e. Ret (Outcome e))"
| "perform vn s c fuel (OpList prefix) =
     pbind (List_keys vn s (Some c) prefix fuel) (\<lambda>r. Ret (Listing r))"

primrec perform_all ::
    "name_validator \<Rightarrow> store \<Rightarrow> ctx \<Rightarrow> nat \<Rightarrow> blob_op list \<Rightarrow> blob_reply list prog" where
  "perform_all vn s c fuel [] = Ret []"
| "perform_all vn s c fuel (op # ops) =
     pbind (perform vn s c fuel op) (\<lambda>r. pbind (perform_all vn s c fuel ops) (\<lambda>rs. Ret (r # rs)))"

text \<open>Arguments the operations accept, and sources that do not fail.\<close>

primrec op_ok :: "name_validator \<Rightarrow> blob_op \<Rightarrow> bool" where
  "op_ok vn (OpPut k src) \<longleftrightarrow> vn k = None \<and> clean src"
| "op_ok vn (OpGet k) \<longleftrightarrow> vn k = None"
| "op_ok vn (OpDelete k) \<longleftrightarrow> vn k = None"
| "op_ok vn (OpList prefix) \<longleftrightarrow> validateListPrefix vn prefix = None"

section \<open>The invariant between operations\<close>

text \<open>The next \<open>n\<close> random blocks are 16 bytes, distinct, and name no payload that is there.\<close>

definition fresh_draws :: "store \<Rightarrow> nat \<Rightarrow> service \<Rightarrow> bool" where
  "fresh_draws s n v \<longleftrightarrow> (\<forall>j < n. length (so_draw v j) = 16) \<and> inj_on (so_draw v) {..<n}
     \<and> (\<forall>j < n. \<forall>k. so_objects v (payloadRoot (st_prefix s) k @ hex_encode (so_draw v j)) = None)"

text \<open>\<open>n\<close> more operations leave the bucket within \<open>bound\<close> objects.\<close>

definition ready :: "name_validator \<Rightarrow> store \<Rightarrow> nat \<Rightarrow> nat \<Rightarrow> service \<Rightarrow> bool" where
  "ready vn s bound n v \<longleftrightarrow> fits vn s v \<and> 0 < so_free v \<and> fresh_draws s n v
     \<and> card (dom (so_objects v)) + 2 * n \<le> bound"

lemma fits_finite: "fits vn s v \<Longrightarrow> finite (dom (so_objects v))"
  by (auto simp: fits_def dest: blobs_okD(1))

lemma manifest_rows_length:
  assumes "fits vn s v"
  shows "length (manifest_rows s v) \<le> card (dom (so_objects v))"
  unfolding listing_def by (simp add: card_mono [OF fits_finite [OF assms]])

lemma ready_mono: "ready vn s bound (Suc n) v \<Longrightarrow> ready vn s bound n v"
  by (auto simp: ready_def fresh_draws_def inj_on_def)

lemma read_all_Read:
  assumes "read_all (verifying_read script_read) k n (br_verifier r) = ((b, Some e), v)"
    and "\<not> br_closed r"
  shows "fst (read_all Read k n r) = (b, Some e)"
  using assms
proof (induction k arbitrary: r b)
  case (Suc k)
  obtain b1 x v1 where rd: "verifying_read script_read (br_verifier r) n = ((b1, x), v1)"
    by (metis surj_pair)
  show ?case
  proof (cases x)
    case (Some err)
    with rd Suc.prems show ?thesis by (simp add: Read_def Let_def)
  next
    case None
    obtain b2 e2 v2 where more: "read_all (verifying_read script_read) k n v1 = ((b2, e2), v2)"
      by (metis surj_pair)
    with None rd Suc.prems have "e2 = Some e" "b = b1 @ b2" by auto
    with None rd more Suc.IH [of "r\<lparr>br_verifier := v1\<rparr>" b2] Suc.prems show ?thesis
      by (auto simp: Read_def Let_def split: prod.split)
  qed
qed simp

lemma streams_drained:
  assumes "streams b st"
  shows "drained st = (b, Some EOF)"
proof -
  from assms obtain body where body: "proper body" "script_bytes body = b"
    "gs_reader st = newBlobReader (newVerifyingBlobReader body (int (length b)) (sum256 b))"
    by (auto simp: streams_def)
  let ?v = "newVerifyingBlobReader body (int (length b)) (sum256 b)"
  have "\<exists>v. read_all (verifying_read script_read) (Suc (script_work body)) 512 ?v
      = ((script_bytes (ver_body ?v), Some EOF), v)"
    by (rule verifying_read_all_clean) (use body in \<open>simp_all add: newVerifyingBlobReader_def proper_def\<close>)
  then obtain v where "read_all (verifying_read script_read) (Suc (script_work body)) 512 ?v
      = ((b, Some EOF), v)" using body(2) by (auto simp: newVerifyingBlobReader_def)
  with read_all_Read [of "Suc (script_work body)" 512 "newBlobReader ?v" b EOF v] body(3)
  show ?thesis by (simp add: drained_def newBlobReader_def newVerifyingBlobReader_def)
qed

lemma get_all_served:
  assumes "fits vn s v" "vn k = None" "0 < so_free v"
  shows "ensures (get_all vn s c k) v (\<lambda>v' r. v' = v
    \<and> r = (case held_blobs vn s v k of None \<Rightarrow> Inl (BlobNotFoundError k) | Some b \<Rightarrow> Inr b))"
  unfolding get_all_def ensures_bind
proof (rule ensures_mono [OF Get_served [OF assms]])
  fix v' g
  assume got: "case held_blobs vn s v k of
      None \<Rightarrow> g = Inl (BlobNotFoundError k) \<and> v' = v
    | Some b \<Rightarrow> (\<exists>st. g = Inr st \<and> streams b st) \<and> v' = v\<lparr>so_free := so_free v - 1\<rparr>"
  show "ensures (case g of Inl e \<Rightarrow> Ret (Inl e)
      | Inr st \<Rightarrow> pbind (gs_release st) (\<lambda>_. pbind (gs_abort st) (\<lambda>_.
          Ret (case drained st of (b, e) \<Rightarrow> if e = Some EOF then Inr b
            else Inl (case e of Some x \<Rightarrow> x | None \<Rightarrow> UnexpectedEOF))))) v'
      (\<lambda>v' r. v' = v
        \<and> r = (case held_blobs vn s v k of None \<Rightarrow> Inl (BlobNotFoundError k) | Some b \<Rightarrow> Inr b))"
  proof (cases "held_blobs vn s v k")
    case (Some b)
    with got obtain st where st: "g = Inr st" "streams b st" "v' = v\<lparr>so_free := so_free v - 1\<rparr>" by auto
    moreover from st(2) obtain i cb where "gs_abort st = pbind (cancel (Some i)) (\<lambda>_. cancel cb)"
      "gs_release st = pbind releaseTransfer (\<lambda>_. cancel cb)" by (auto simp: streams_def)
    ultimately show ?thesis using Some assms(3) streams_drained [OF st(2)] by simp
  qed (use got in simp)
qed

section \<open>One operation\<close>

lemma payload_shape: "length d = 16 \<Longrightarrow> payloadObjectKeyMatches p k (payloadRoot p k @ hex_encode d)"
proof -
  assume d: "length d = 16"
  have "map lower_hex (hex_encode d) = hex_encode d" using hex_decode_iff [of "hex_encode d" d] by simp
  with d show ?thesis unfolding payload_key_shape by (intro exI [of _ "hex_encode d"] exI [of _ d]) simp
qed

lemma put_room:
  assumes "put_done vn s k pk content v v' e" "finite (dom (so_objects v))"
  shows "card (dom (so_objects v')) \<le> card (dom (so_objects v)) + 2"
proof -
  let ?mk = "hd (layout_keys vn (st_prefix s) k)"
  have same: "so_objects v' x = so_objects v x" if "x \<noteq> pk" "x \<noteq> ?mk" for x
    using assms(1) that by (simp add: put_done_def apart_def)
  have "dom (so_objects v') \<subseteq> insert pk (insert ?mk (dom (so_objects v)))"
    using same by (auto simp: domIff)
  from card_mono [OF _ this] assms(2) show ?thesis by (simp add: card_insert_if split: if_splits)
qed

lemma put_ready:
  assumes "ready vn s bound (Suc n) v" "vn k = None"
    and "put_done vn s k (payloadRoot (st_prefix s) k @ hex_encode (so_draw v 0)) content
      (v\<lparr>so_draw := \<lambda>j. so_draw v (Suc j)\<rparr>) v' e"
  shows "ready vn s bound n v'"
proof -
  let ?p = "st_prefix s"
  from assms(1) have fits: "fits vn s v" "0 < so_free v" and fresh: "fresh_draws s (Suc n) v"
    and room: "card (dom (so_objects v)) + 2 * Suc n \<le> bound" by (simp_all add: ready_def)
  have draw: "so_draw v' j = so_draw v (Suc j)" for j
    using assms(3) by (simp add: put_done_def apart_def)
  have "so_objects v' (payloadRoot ?p k' @ hex_encode (so_draw v (Suc j))) = None" if j: "j < n" for j k'
  proof -
    let ?x = "payloadRoot ?p k' @ hex_encode (so_draw v (Suc j))"
    have len: "length (so_draw v 0) = 16" "length (so_draw v (Suc j)) = 16"
      using fresh j by (simp_all add: fresh_draws_def)
    have "so_draw v (Suc j) \<noteq> so_draw v 0"
      using fresh j by (auto simp: fresh_draws_def dest: inj_onD)
    then have "?x \<noteq> payloadRoot ?p k @ hex_encode (so_draw v 0)"
      using len by (auto dest!: append_eq_same_length_right)
    moreover have "?x \<noteq> hd (layout_keys vn ?p k)"
      using payload_not_root [OF payload_shape [OF len(2)]] layout_root layout_candidates(4) fits assms(2)
      by (metis fits_def)
    moreover have "so_objects v ?x = None" using fresh j by (simp add: fresh_draws_def)
    ultimately show ?thesis using assms(3) by (simp add: put_done_def apart_def)
  qed
  with fresh draw have "fresh_draws s n v'" by (auto simp: fresh_draws_def inj_on_def)
  moreover have "fits vn s v'" "so_free v' = so_free v" using assms(3) by (simp_all add: put_done_def)
  moreover have "card (dom (so_objects v')) \<le> card (dom (so_objects v)) + 2"
    using put_room [OF assms(3)] fits_finite [OF fits(1)] by simp
  ultimately show ?thesis using fits room by (simp add: ready_def)
qed

lemma without_ready:
  assumes "ready vn s bound n v" "without vn s k v v'"
  shows "ready vn s bound n v'"
proof -
  have sub: "so_objects v' \<subseteq>\<^sub>m so_objects v" and fin: "finite (dom (so_objects v))"
    using assms by (auto simp: without_def ready_def dest: fits_finite)
  have gone: "so_objects v' x = None" if "so_objects v x = None" for x
    using sub that by (metis domIff map_le_def)
  have "card (dom (so_objects v')) \<le> card (dom (so_objects v))"
    using map_le_implies_dom_le [OF sub] fin by (rule card_mono [rotated])
  with assms gone show ?thesis by (auto simp: ready_def without_def fresh_draws_def)
qed

abbreviation max_blob :: "store \<Rightarrow> int" where
  "max_blob s \<equiv> ro_maxAccountedObjectSize (st_options s)"

lemma perform_served:
  assumes "ready vn s bound (Suc n) v" "op_ok vn op" "bound < fuel" "int bound \<le> max_int64"
  shows "ensures (perform vn s c fuel op) v (\<lambda>v' r. ready vn s bound n v' \<and> so_free v' = so_free v
    \<and> (r, held_blobs vn s v') = spec_step (max_blob s) op (held_blobs vn s v))"
proof -
  from assms(1) have fits: "fits vn s v" "0 < so_free v" and fresh: "fresh_draws s (Suc n) v"
    and room: "card (dom (so_objects v)) < fuel" "int (card (dom (so_objects v))) \<le> max_int64"
    using assms(3,4) by (simp_all add: ready_def)
  note later = ready_mono [OF assms(1)]
  show ?thesis
  proof (cases op)
    case (OpPut k src)
    with assms(2) have op: "vn k = None" "clean src" by simp_all
    have "length (so_draw v 0) = 16"
      "so_objects v (payloadRoot (st_prefix s) k @ hex_encode (so_draw v 0)) = None"
      using fresh by (simp_all add: fresh_draws_def)
    note put = Put_served [OF fits(1) op(1) fits(2) this op(2)]
    show ?thesis
      unfolding OpPut perform.simps ensures_bind
      by (rule ensures_mono [OF put])
        (use put_ready [OF assms(1) op(1)] in
          \<open>auto simp: spec_put_def put_done_def not_le [symmetric]\<close>)
  next
    case (OpGet k)
    with get_all_served [OF fits(1) _ fits(2), of k c] assms(2) later show ?thesis
      by (auto elim!: ensures_mono)
  next
    case (OpDelete k)
    with Delete_served [OF fits(1) _ fits(2), of k c] assms(2) show ?thesis
      by (auto elim!: ensures_mono intro: without_ready [OF later] simp: without_def)
  next
    case (OpList prefix)
    have "length (manifest_rows s v) < fuel" "int (length (manifest_rows s v)) \<le> max_int64"
      using manifest_rows_length [OF fits(1)] room by simp_all
    from List_served [OF fits(1) _ fits(2) this, of prefix c] OpList assms(2) later show ?thesis
      by (auto elim!: ensures_mono)
  qed
qed

lemma perform_all_served:
  assumes "bound < fuel" "int bound \<le> max_int64"
  shows "ready vn s bound (length ops) v \<Longrightarrow> list_all (op_ok vn) ops \<Longrightarrow>
    ensures (perform_all vn s c fuel ops) v (\<lambda>v' rs. ready vn s bound 0 v' \<and> so_free v' = so_free v
      \<and> (rs, held_blobs vn s v') = spec_run (max_blob s) ops (held_blobs vn s v))"
proof (induction ops arbitrary: v)
  case (Cons op ops)
  from Cons.prems have ready: "ready vn s bound (Suc (length ops)) v" "op_ok vn op" by simp_all
  show ?case
    unfolding perform_all.simps ensures_bind
  proof (rule ensures_mono [OF perform_served [OF ready assms]])
    fix v1 r
    assume v1: "ready vn s bound (length ops) v1 \<and> so_free v1 = so_free v
      \<and> (r, held_blobs vn s v1) = spec_step (max_blob s) op (held_blobs vn s v)"
    with Cons.prems(2) have "ensures (perform_all vn s c fuel ops) v1
      (\<lambda>v' rs. ready vn s bound 0 v' \<and> so_free v' = so_free v1
        \<and> (rs, held_blobs vn s v') = spec_run (max_blob s) ops (held_blobs vn s v1))"
      by (intro Cons.IH) simp_all
    then show "ensures (perform_all vn s c fuel ops) v1 (\<lambda>v' rs. ensures (Ret (r # rs)) v'
      (\<lambda>v' rs. ready vn s bound 0 v' \<and> so_free v' = so_free v
        \<and> (rs, held_blobs vn s v') = spec_run (max_blob s) (op # ops) (held_blobs vn s v)))"
      by (rule ensures_mono) (use v1 in \<open>auto split: prod.split\<close>)
  qed
qed simp

end
