(* ===== verification/SharedReads.thy ===== *)
theory SharedReads
  imports SharedBucket BlobHistory
begin

text \<open>
  Reading in a shared bucket: what a call learns of the bucket from a manifest it read or did not
  find, the operations that change nothing (\<open>Get\<close>, \<open>List\<close>), and the parts all operations share.
  What a call reports is true at one of the moments since it began.
\<close>

section \<open>Moments\<close>

text \<open>\<open>A\<close> held at one of the moments since the bucket had seen \<open>n\<close> requests.\<close>

definition within :: "nat \<Rightarrow> hist \<Rightarrow> (objs \<Rightarrow> bool) \<Rightarrow> bool" where
  "within n hs A \<longleftrightarrow> (\<exists>ob \<in> set (take (length hs - n) hs). A ob)"

definition begun :: "name_validator \<Rightarrow> string \<Rightarrow> nat \<Rightarrow> hist \<Rightarrow> bool" where
  "begun vn p n hs \<longleftrightarrow> sound vn p hs \<and> n < length hs"

lemma within_later: "within n hs A \<Longrightarrow> within n (xs @ hs) A"
proof -
  assume "within n hs A"
  then obtain ob where ob: "ob \<in> set (take (length hs - n) hs)" "A ob" by (auto simp: within_def)
  then have "n < length hs" by (cases "n < length hs") auto
  then have "take (length (xs @ hs) - n) (xs @ hs) = xs @ take (length hs - n) hs" by simp
  with ob show ?thesis unfolding within_def by (metis Un_iff set_append)
qed

lemma within_now: "begun vn p n hs \<Longrightarrow> A (hd hs) \<Longrightarrow> within n hs A"
  by (cases hs) (auto simp: within_def begun_def Suc_diff_le simp del: sound.simps)

lemma within_mono:
  "within n hs A \<Longrightarrow> (\<And>ob. ob \<in> set hs \<Longrightarrow> A ob \<Longrightarrow> B ob) \<Longrightarrow> within n hs B"
  unfolding within_def by (meson in_set_takeD)

lemma kept_within [simp]: "kept vn p d (\<lambda>hs. within n hs A)"
  by (auto simp: kept_def disturbs_def intro: within_later)

lemma stable_begun [simp]: "stable vn p d (begun vn p n)"
  by (auto simp: stable_def kept_def begun_def disturbs_def)

lemma begunD: "begun vn p n hs \<Longrightarrow> sound vn p hs" "begun vn p n hs \<Longrightarrow> blobs_ok vn p (hd hs)"
  by (auto simp: begun_def sound_now)

lemma kept_legacy:
  assumes "mk \<in> old_layout vn p k"
  shows "kept vn p d (\<lambda>hs. hd hs mk = None)"
  using assms sound_legacy unfolding kept_def disturbs_def by (metis sound_not_Nil)

section \<open>Failed requests\<close>

lemma triple_ctx_Err:
  assumes "stable vn (st_prefix s) d P"
  shows "triple vn s d E P (ctx_Err c) (\<lambda>hs x. P hs \<and> (\<forall>e. x = Some e \<longrightarrow> bland e))"
  unfolding ctx_Err_def
  by (rule triple_quiet) (use assms in \<open>auto simp: ctx_answer_def split: resp.splits\<close>)

text \<open>How every failed request ends.\<close>

lemma triple_fail:
  assumes "stable vn (st_prefix s) d P" "bland e" "\<And>hs x. P hs \<Longrightarrow> bland x \<Longrightarrow> Q hs (f x)"
  shows "triple vn s d E P (pbind (ctx_or c e) (\<lambda>x. Ret (f x))) Q"
proof (rule triple_bind)
  show "triple vn s d E P (ctx_or c e) (\<lambda>hs x. P hs \<and> bland x)"
    unfolding ctx_or_def
    by (rule triple_bind [OF triple_ctx_Err [OF assms(1)]], rule triple_Ret)
      (use assms in \<open>auto intro: stable_and split: option.split\<close>)
  show "triple vn s d E (\<lambda>hs. P hs \<and> bland x) (Ret (f x)) Q" for x
    by (rule triple_Ret) (use assms in \<open>auto intro: stable_and\<close>)
qed

section \<open>Reading a manifest\<close>

text \<open>
  \<open>R\<close> is what the call makes of a manifest, \<open>N\<close> of its absence; any other error claims nothing.
\<close>

definition read_tells ::
    "string \<Rightarrow> (blob_manifest \<Rightarrow> hist \<Rightarrow> bool) \<Rightarrow> (hist \<Rightarrow> bool) \<Rightarrow> hist \<Rightarrow> blob_manifest result \<Rightarrow> bool" where
  "read_tells k R N hs r \<longleftrightarrow>
     (case r of
        Inr m \<Rightarrow> LogicalKey m = k \<and> R m hs
      | Inl e \<Rightarrow> bland e \<or> (e = BlobNotFoundError k \<and> N hs))"

lemma kept_read_tells:
  "(\<And>m. kept vn p d (R m)) \<Longrightarrow> kept vn p d N \<Longrightarrow> kept vn p d (\<lambda>hs. read_tells k R N hs r)"
  by (cases r) (auto simp: read_tells_def kept_def)

lemma accept_bland: "accept_manifest vn s k len out = Inl e \<Longrightarrow> bland e"
  by (auto simp: accept_manifest_def ebind_def decodeManifest_def parse_manifest_def Let_def
      split: option.splits if_splits sum.splits prod.splits)

text \<open>
  A manifest accepted from a part of an object under the manifest root is that object's, also
  when the object is not the one a HEAD had reported.
\<close>

lemma accepted_here:
  assumes "blobs_ok vn p ob" "has_prefix mk (manifest_root p)" "0 < len"
    and "get_answer ob \<lparr>gi_bucket = x, gi_key = mk, gi_range = Some (byte_range 0 (len - 1)), gi_if_match = y\<rparr> out"
    and "accept_manifest vn s k len out = Inr m"
  shows "manifest_at vn p ob mk m" "LogicalKey m = k"
proof -
  from assms(5) obtain bd where bd: "go_body out = Some bd"
    "decodeManifest vn (bd_script bd) len = Inr m" "LogicalKey m = k"
    by (auto simp: accept_manifest_def ebind_def split: option.splits if_splits sum.splits)
  from bd(2) obtain bs t where r: "read_full (bd_script bd) (nat len) = ((bs, None), t)"
    and parse: "parse_manifest vn bs = Inr m" and len: "len \<le> int maxManifestBytes"
    by (auto simp: decodeManifest_Inr)
  from len have "len - 1 < 2 ^ 63" by (simp add: limits)
  with assms(3,4) bd(1) obtain b where b: "ob mk = Some b" "part_of bd (slice_of b 0 (len - 1))"
    by (fastforce simp: get_answer_def)
  then obtain rest where "script_bytes (bd_script bd) @ rest = take (nat len) b"
    by (auto simp: part_of_def slice_of_def)
  with read_full_bytes [OF r] have "bs @ (script_bytes t @ rest @ drop (nat len) b) = b"
    by (metis append.assoc append_take_drop_id)
  moreover from blobs_okD(2) [OF assms(1) b(1) assms(2)] obtain m' where "parse_manifest vn b = Inr m'"
    by (auto simp: complete_def)
  ultimately have "parse_manifest vn b = Inr m"
    using manifest_not_extended [OF parse] parse by (metis append.right_neutral)
  with b(1) assms(2) show "manifest_at vn p ob mk m" by (simp add: manifest_at_def)
  show "LogicalKey m = k" by (rule bd(3))
qed

lemma triple_get_manifest:
  assumes P: "stable vn (st_prefix s) d P" and root: "has_prefix mk (manifest_root (st_prefix s))"
    and R: "\<And>m. kept vn (st_prefix s) d (R m)" and N: "kept vn (st_prefix s) d N"
    and len: "0 < len"
    and found: "\<And>hs m. P hs \<Longrightarrow> manifest_at vn (st_prefix s) (hd hs) mk m \<Longrightarrow> LogicalKey m = k \<Longrightarrow> R m hs"
  shows "triple vn s d E P (get_manifest vn s c mk k len head) (\<lambda>hs r. P hs \<and> read_tells k R N hs r)"
  unfolding get_manifest_def
proof (rule triple_bind [OF triple_ask [OF P]])
  let ?I = "\<lambda>hs (out :: get_output result). \<forall>res m. out = Inr res \<and> accept_manifest vn s k len res = Inr m \<longrightarrow> LogicalKey m = k \<and> R m hs"
  show I: "kept vn (st_prefix s) d (\<lambda>hs. ?I hs out)" for out
    by (intro kept_all kept_imp kept_conj) (simp_all add: R)
  show "confined (ro_bucket (st_options s)) (GetObject c (manifest_range s mk len head))"
    by (simp add: manifest_range_def)
  show "ob = hd hs \<and> ?I hs (as_get r)"
    if "P hs" "shaky_step d (hd hs) (GetObject c (manifest_range s mk len head)) r ob" for hs r ob
    using that(2) accepted_here [OF sound_now [OF stableD(1) [OF P that(1)]] root len] found [OF that(1)]
    by (auto simp: manifest_range_def)
  fix out
  have st: "stable vn (st_prefix s) d (\<lambda>hs. P hs \<and> ?I hs out)" by (rule stable_and [OF P I])
  show "triple vn s d E (\<lambda>hs. P hs \<and> ?I hs out)
      (case out of
         Inl e \<Rightarrow>
           (if isHTTPStatus e 404 then Ret (Inl (integrityError ''manifest vanished after head''))
            else pbind (ctx_or c (BackendError ''manifest get'')) (\<lambda>x. Ret (Inl x)))
       | Inr response \<Rightarrow> Ret (accept_manifest vn s k len response))
      (\<lambda>hs r. P hs \<and> read_tells k R N hs r)"
  proof (cases out)
    case (Inl e)
    have "triple vn s d E (\<lambda>hs. P hs \<and> ?I hs out) (pbind (ctx_or c e) (\<lambda>x. Ret (Inl x)))
        (\<lambda>hs r. P hs \<and> read_tells k R N hs r)" if "bland e" for e
      by (rule triple_fail [OF st that]) (simp add: read_tells_def)
    moreover have "triple vn s d E (\<lambda>hs. P hs \<and> ?I hs out) (Ret (Inl e))
        (\<lambda>hs r. P hs \<and> read_tells k R N hs r)" if "bland e" for e
      by (rule triple_Ret [OF st]) (use that in \<open>simp add: read_tells_def\<close>)
    ultimately show ?thesis using Inl by simp
  next
    case (Inr response)
    have "triple vn s d E (\<lambda>hs. P hs \<and> ?I hs out) (Ret (accept_manifest vn s k len response))
        (\<lambda>hs r. P hs \<and> read_tells k R N hs r)"
      by (rule triple_Ret [OF st])
        (use Inr accept_bland in \<open>auto simp: read_tells_def split: sum.split\<close>)
    with Inr show ?thesis by simp
  qed
qed

lemma triple_read:
  assumes P: "stable vn (st_prefix s) d P" and root: "has_prefix mk (manifest_root (st_prefix s))"
    and R: "\<And>m. kept vn (st_prefix s) d (R m)" and N: "kept vn (st_prefix s) d N"
    and found: "\<And>hs m. P hs \<Longrightarrow> manifest_at vn (st_prefix s) (hd hs) mk m \<Longrightarrow> LogicalKey m = k \<Longrightarrow> R m hs"
    and absent: "\<And>hs. P hs \<Longrightarrow> hd hs mk = None \<Longrightarrow> N hs"
  shows "triple vn s d E P (readManifestAt vn s c mk k legacy) (\<lambda>hs r. P hs \<and> read_tells k R N hs r)"
proof -
  let ?I = "\<lambda>hs (h :: head_output result). \<forall>e. h = Inl e \<and> (isHTTPStatus e 404 \<or> isHTTPStatus e 400) \<longrightarrow> N hs"
    and ?Q = "\<lambda>hs r. P hs \<and> read_tells k R N hs r"
  have I: "kept vn (st_prefix s) d (\<lambda>hs. ?I hs h)" for h by (intro kept_all kept_imp N)
  have ask: "triple vn s d E P (call (HeadObject c (object_at s mk)) as_head) (\<lambda>hs h. P hs \<and> ?I hs h)"
    by (rule triple_ask [OF P I]) (use absent in \<open>auto simp: object_at_def\<close>)
  have st: "stable vn (st_prefix s) d (\<lambda>hs. P hs \<and> ?I hs h)" for h by (rule stable_and [OF P I])
  have get: "triple vn s d E (\<lambda>hs. P hs \<and> ?I hs h) (get_manifest vn s c mk k len ho) ?Q"
    if "\<not> (len < int manifestHeaderBytes \<or> int maxManifestBytes < len)" for h len ho
    by (rule triple_pre [OF triple_get_manifest [OF P root R N _ found]])
      (use that in \<open>auto simp: limits\<close>)
  have fail: "triple vn s d E (\<lambda>hs. P hs \<and> ?I hs h) (pbind (ctx_or c e) (\<lambda>x. Ret (Inl x))) ?Q"
    if "bland e" for h e
    by (rule triple_fail [OF st that]) (simp add: read_tells_def)
  have bad: "triple vn s d E (\<lambda>hs. P hs \<and> ?I hs h) (Ret (Inl e)) ?Q" if "bland e" for h e
    by (rule triple_Ret [OF st]) (use that in \<open>simp add: read_tells_def\<close>)
  have gone: "triple vn s d E (\<lambda>hs. P hs \<and> ?I hs h) (Ret (Inl (BlobNotFoundError k))) ?Q"
    if "h = Inl e" "isHTTPStatus e 404 \<or> legacy \<and> isHTTPStatus e 400" for h e
    by (rule triple_Ret [OF st]) (use that in \<open>auto simp: read_tells_def\<close>)
  show ?thesis
    unfolding readManifestAt_def
    by (rule triple_bind [OF ask], intro triple_cases) (blast intro: gone fail bad get bland_simps)+
qed

section \<open>What all operations share\<close>

lemma triple_unnoticed:
  assumes "stable vn (st_prefix s) d P"
  shows "triple vn s d E P releaseTransfer (\<lambda>hs _. P hs)" "triple vn s d E P (cancel i) (\<lambda>hs _. P hs)"
proof -
  have quiet: "triple vn s d E P (call cmd f) (\<lambda>hs _. P hs)" if "cmd = Release \<or> cmd = Cancel j" for cmd j f
    by (rule triple_conseq [OF triple_quiet [OF assms, where A = "\<lambda>_. True"]]) (use that in auto)
  show "triple vn s d E P releaseTransfer (\<lambda>hs _. P hs)"
    unfolding releaseTransfer_def by (rule quiet) simp
  show "triple vn s d E P (cancel i) (\<lambda>hs _. P hs)"
    unfolding cancel_def by (cases i) (auto intro: quiet triple_Ret [OF assms])
qed

lemma triple_release:
  assumes "triple vn s d E P q Q" "\<And>x. stable vn (st_prefix s) d (\<lambda>hs. Q hs x)"
    and "\<And>hs x. Q hs x \<Longrightarrow> Q' hs (f x)"
  shows "triple vn s d E P (pbind q (\<lambda>x. pbind releaseTransfer (\<lambda>_. Ret (f x)))) Q'"
  by (rule triple_bind [OF assms(1)], rule triple_bind [OF triple_unnoticed(1) [OF assms(2)]],
      rule triple_Ret [OF assms(2)], rule assms(3))

lemma triple_cancel:
  assumes "triple vn s d E P q Q" "\<And>x. stable vn (st_prefix s) d (\<lambda>hs. Q hs x)"
    and "\<And>hs x. Q hs x \<Longrightarrow> Q' hs (f x)"
  shows "triple vn s d E P (pbind q (\<lambda>x. pbind (cancel i) (\<lambda>_. Ret (f x)))) Q'"
  by (rule triple_bind [OF assms(1)], rule triple_bind [OF triple_unnoticed(2) [OF assms(2)]],
      rule triple_Ret [OF assms(2)], rule assms(3))

text \<open>The guard of every operation, and the transfer slot it then takes.\<close>

lemma triple_guarded:
  assumes "stable vn (st_prefix s) d P"
    and "\<And>x i. ctx_deadline x \<noteq> NoDeadline \<Longrightarrow> triple vn s d E P (f x i) Q"
  shows "triple vn s d E P
    (pbind (guard_bound (Some c) operation timeout) (\<lambda>b. case b of Inl e \<Rightarrow> g e | Inr (x, i) \<Rightarrow> f x i)) Q"
proof (rule triple_bind)
  let ?A = "\<lambda>b :: (ctx \<times> nat option) result. \<exists>x i. b = Inr (x, i) \<and> ctx_deadline x \<noteq> NoDeadline"
  show "triple vn s d E P (guard_bound (Some c) operation timeout) (\<lambda>hs b. P hs \<and> ?A b)"
  proof (cases "ctx_deadline c = NoDeadline")
    case True
    then show ?thesis by (auto simp: guard_bound_def Bound_def min_def intro!: triple_quiet [OF assms(1)])
  next
    case False
    then show ?thesis by (auto simp: guard_bound_def Bound_def intro!: triple_Ret [OF assms(1)])
  qed
  show "triple vn s d E (\<lambda>hs. P hs \<and> ?A b) (case b of Inl e \<Rightarrow> g e | Inr (x, i) \<Rightarrow> f x i) Q" for b
  proof (cases "?A b")
    case True
    with assms(2) show ?thesis by (auto intro: triple_pre)
  qed (auto intro: triple_never)
qed

lemma triple_holding_slot:
  assumes "stable vn (st_prefix s) d P" "ctx_deadline c \<noteq> NoDeadline" "triple vn s d E P q Q"
    and "\<And>e. bland e \<Longrightarrow> triple vn s d E P (g e) Q"
  shows "triple vn s d E P
    (pbind (acquireTransfer s c operation) (\<lambda>a. case a of Some e \<Rightarrow> g e | None \<Rightarrow> q)) Q"
proof (rule triple_bind)
  let ?A = "\<lambda>a. \<forall>e. a = Some e \<longrightarrow> bland e"
  show "triple vn s d E P (acquireTransfer s c operation) (\<lambda>hs a. P hs \<and> ?A a)"
    using assms(2)
    by (auto simp: acquireTransfer_def RequireDeadline_def ctx_answer_def split: resp.splits
        intro!: triple_Ret [OF assms(1)] triple_quiet [OF assms(1)])
  show "triple vn s d E (\<lambda>hs. P hs \<and> ?A a) (case a of Some e \<Rightarrow> g e | None \<Rightarrow> q) Q" for a
  proof (cases "?A a")
    case True
    with assms(3,4) show ?thesis by (auto intro: triple_pre split: option.split)
  qed (auto intro: triple_never)
qed

section \<open>Finding a manifest\<close>

definition key_ok :: "name_validator \<Rightarrow> string \<Rightarrow> string \<Rightarrow> bool" where
  "key_ok vn p k \<longleftrightarrow> canonical_names vn \<and> vn p = None \<and> vn k = None \<and> length p \<le> 256"

lemma layouts:
  assumes "key_ok vn p k"
  shows "layout_keys vn p k = mkey vn p k # tl (layout_keys vn p k)"
    "mkey vn p k \<in> set (layout_keys vn p k)" "has_prefix (mkey vn p k) (manifest_root p)"
    "manifestObjectKey vn p k = Inr (mkey vn p k)" "manifestCandidates vn p k = Inr (layout_keys vn p k)"
    "tl (layout_keys vn p k) = (case legacyManifestObjectKey p k of None \<Rightarrow> [] | Some legacy \<Rightarrow> [legacy])"
    "mkey vn p k \<notin> old_layout vn p k"
proof -
  have names: "canonical_names vn" "vn p = None" "vn k = None" "length p \<le> 256"
    using assms by (simp_all add: key_ok_def)
  note lay = layout_candidates [OF names]
  show all: "layout_keys vn p k = mkey vn p k # tl (layout_keys vn p k)"
    unfolding mkey_def using lay(3) by (metis list.collapse list.distinct(1))
  show mem: "mkey vn p k \<in> set (layout_keys vn p k)" using lay(4) by (simp add: mkey_def)
  show "has_prefix (mkey vn p k) (manifest_root p)" by (rule layout_root [OF mem])
  show mk: "manifestObjectKey vn p k = Inr (mkey vn p k)" using lay(2) by (simp add: mkey_def)
  show "manifestCandidates vn p k = Inr (layout_keys vn p k)" by (rule lay(1))
  show old: "tl (layout_keys vn p k) = (case legacyManifestObjectKey p k of None \<Rightarrow> [] | Some legacy \<Rightarrow> [legacy])"
    by (subst lay(3)) simp
  show "mkey vn p k \<notin> old_layout vn p k"
    using legacy_key_differs [OF _ mk] unfolding old
    by (cases "legacyManifestObjectKey p k") auto
qed

lemma old_layout_root: "mk \<in> old_layout vn p k \<Longrightarrow> mk \<in> set (layout_keys vn p k)"
  by (metis list.set_sel(2) tl_Nil)

text \<open>A manifest in place and the blob it makes.\<close>

definition resembles :: "name_validator \<Rightarrow> string \<Rightarrow> string \<Rightarrow> blob_manifest \<Rightarrow> objs \<Rightarrow> bool" where
  "resembles vn p k m ob \<longleftrightarrow>
     (\<exists>b. blobs vn p ob k = Some b \<and> Size m = int (length b) \<and> Digest m = sum256 b)"

lemma manifest_resembles:
  assumes "blobs_ok vn p ob" "mk \<in> set (layout_keys vn p k)" "manifest_at vn p ob mk m"
  shows "resembles vn p k m ob"
proof -
  from manifest_at_complete [OF assms(1,3)] obtain k' enc b where
    c: "mk \<in> set (layout_keys vn p k')" "ob mk = Some enc" "complete vn p ob k' enc m b" .
  from layout_unique [OF assms(2) c(1)] c have "blobs vn p ob k = Some b"
    by (auto simp: blobs_iff [OF assms(1)])
  with c(3) show ?thesis by (auto simp: resembles_def complete_def)
qed

lemma resembles_now:
  "begun vn p n hs \<Longrightarrow> mk \<in> set (layout_keys vn p k) \<Longrightarrow> manifest_at vn p (hd hs) mk m \<Longrightarrow>
   within n hs (resembles vn p k m)"
  by (rule within_now) (auto intro: manifest_resembles begunD(2))

text \<open>
  The two layouts are looked at one after the other. If the current one was absent at one moment
  and the legacy one is now, then at some moment in between both were: the legacy manifest cannot
  come back, and while it was there the current one was not.
\<close>

lemma both_absent:
  assumes "sound vn p (xs @ ob # hs)" "ob cur = None" "hd (xs @ ob # hs) old = None"
    and "cur \<in> set (layout_keys vn p k)" "old \<in> set (layout_keys vn p k)" "cur \<noteq> old"
  shows "\<exists>ob' \<in> set (xs @ [ob]). ob' cur = None \<and> ob' old = None"
  using assms(1,3)
proof (induction xs)
  case (Cons x xs)
  let ?hs = "xs @ ob # hs"
  from Cons.prems have x: "follows vn p ?hs x" "sound vn p ?hs" "x old = None" by (auto split: if_splits)
  show ?case
  proof (cases "hd ?hs old")
    case None
    with Cons.IH x(2) show ?thesis by auto
  next
    case (Some b)
    with blobs_okD(3) [OF sound_now [OF x(2)] assms(4,5)] assms(6) have cur: "hd ?hs cur = None"
      by (cases "hd ?hs cur") auto
    from x(1) obtain y z where "x = (hd ?hs)(y := z)" by (auto simp: follows_def)
    with Some x(3) assms(6) cur have "x cur = None" by (auto split: if_splits)
    with x(3) show ?thesis by auto
  qed
qed (use assms(2) in simp)

lemma absent_within:
  assumes "begun vn p n hs" "key_ok vn p k" "within n hs (\<lambda>ob. ob (mkey vn p k) = None)"
    and "\<forall>mk \<in> old_layout vn p k. hd hs mk = None"
  shows "within n hs (\<lambda>ob. blobs vn p ob k = None)"
proof -
  have "within n hs (\<lambda>ob. \<forall>mk \<in> set (layout_keys vn p k). ob mk = None)"
  proof (cases "tl (layout_keys vn p k)")
    case Nil
    with assms(3) layouts(1) [OF assms(2)] show ?thesis by (simp only:) simp
  next
    case (Cons old rest)
    with layouts(6) [OF assms(2)] have tl: "tl (layout_keys vn p k) = [old]" by (auto split: option.splits)
    from assms(3) obtain ob where ob: "ob \<in> set (take (length hs - n) hs)" "ob (mkey vn p k) = None"
      by (auto simp: within_def)
    from split_list [OF ob(1)] obtain xs ys where "take (length hs - n) hs = xs @ ob # ys" by blast
    then have hs: "hs = xs @ ob # (ys @ drop (length hs - n) hs)"
      and since: "set (xs @ [ob]) \<subseteq> set (take (length hs - n) hs)"
      by (metis append.assoc append_Cons append_take_drop_id, auto)
    have "old \<in> set (layout_keys vn p k)" "mkey vn p k \<noteq> old"
      using tl layouts(7) [OF assms(2)] old_layout_root [of old vn p k] by auto
    moreover have "sound vn p (xs @ ob # (ys @ drop (length hs - n) hs))"
      using begunD(1) [OF assms(1)] hs by simp
    moreover have "hd (xs @ ob # (ys @ drop (length hs - n) hs)) old = None"
      using assms(4) tl hs by simp
    ultimately obtain ob' where "ob' \<in> set (xs @ [ob])" "ob' (mkey vn p k) = None" "ob' old = None"
      using both_absent [of vn p xs ob _ "mkey vn p k" old k] ob(2) layouts(2) [OF assms(2)] by blast
    moreover from this have "\<forall>mk \<in> set (layout_keys vn p k). ob' mk = None"
      by (subst layouts(1) [OF assms(2)]) (simp add: tl)
    ultimately show ?thesis using since unfolding within_def by blast
  qed
  then show ?thesis
    by (rule within_mono)
      (use sound_blobs_ok [OF begunD(1) [OF assms(1)]] in \<open>auto simp: blobs_None held_at_None\<close>)
qed

text \<open>What \<open>locateManifest\<close> finds; \<open>R\<close> is what the call makes of a manifest at its key.\<close>

definition located ::
    "name_validator \<Rightarrow> string \<Rightarrow> nat \<Rightarrow> string \<Rightarrow> (blob_manifest \<Rightarrow> hist \<Rightarrow> bool) \<Rightarrow> hist
      \<Rightarrow> (string \<times> blob_manifest) result \<Rightarrow> bool" where
  "located vn p n k R hs r \<longleftrightarrow>
     (case r of
        Inr (mk, m) \<Rightarrow> mk \<in> set (layout_keys vn p k) \<and> LogicalKey m = k \<and> R m hs
      | Inl e \<Rightarrow> bland e \<or> (e = BlobNotFoundError k \<and> within n hs (\<lambda>ob. blobs vn p ob k = None)))"

lemma triple_tells:
  assumes "stable vn (st_prefix s) d P" "\<And>m. kept vn (st_prefix s) d (R m)" "kept vn (st_prefix s) d N"
    and "\<And>hs. P hs \<Longrightarrow> read_tells k R N hs r \<Longrightarrow> Q hs x"
  shows "triple vn s d E (\<lambda>hs. P hs \<and> read_tells k R N hs r) (Ret x) Q"
  by (rule triple_Ret [OF stable_and [OF assms(1) kept_read_tells [OF assms(2,3)]]]) (blast intro: assms(4))

text \<open>The legacy layout, looked at after the current one was absent.\<close>

lemma triple_locate_old:
  assumes key: "key_ok vn (st_prefix s) k" and P: "stable vn (st_prefix s) d P"
    and begun: "\<And>hs. P hs \<Longrightarrow> begun vn (st_prefix s) n hs" and R: "\<And>m. kept vn (st_prefix s) d (R m)"
    and found: "\<And>hs mk m. P hs \<Longrightarrow> mk \<in> set (layout_keys vn (st_prefix s) k) \<Longrightarrow>
      manifest_at vn (st_prefix s) (hd hs) mk m \<Longrightarrow> R m hs"
    and e: "e = BlobNotFoundError k"
  shows "triple vn s d E
    (\<lambda>hs. P hs \<and> within n hs (\<lambda>ob. ob (mkey vn (st_prefix s) k) = None))
    (locate_in vn s c k True e (tl (layout_keys vn (st_prefix s) k)))
    (\<lambda>hs r. P hs \<and> located vn (st_prefix s) n k R hs r)"
proof -
  let ?p = "st_prefix s" and ?gone = "\<lambda>hs. within n hs (\<lambda>ob. blobs vn (st_prefix s) ob k = None)"
  let ?P = "\<lambda>hs. P hs \<and> within n hs (\<lambda>ob. ob (mkey vn ?p k) = None)"
  have P1: "stable vn ?p d ?P" by (rule stable_and [OF P kept_within])
  show ?thesis
  proof (cases "tl (layout_keys vn ?p k)")
    case Nil
    have "?gone hs" if "?P hs" for hs using absent_within [OF begun key] that Nil by simp
    then show ?thesis
      unfolding Nil locate_in.simps e by (intro triple_Ret [OF P1]) (simp add: located_def)
  next
    case (Cons old olds)
    with layouts(6) [OF key] have tl: "tl (layout_keys vn ?p k) = [old]" by (auto split: option.splits)
    then have old: "old \<in> set (layout_keys vn ?p k)" using old_layout_root [of old vn ?p k] by simp
    have read: "triple vn s d E ?P (readManifestAt vn s c old k True) (\<lambda>hs r. P hs \<and> read_tells k R ?gone hs r)"
      by (rule triple_conseq [OF triple_read [where N = ?gone, OF P1 layout_root [OF old] R kept_within]])
        (use found old absent_within [OF begun key] tl in auto)
    show ?thesis
      unfolding tl locate_in.simps
      by (rule triple_bind [OF read], intro triple_cases; rule triple_tells [OF P R kept_within])
        (use old in \<open>auto simp: read_tells_def located_def\<close>)
  qed
qed

lemma triple_locate:
  assumes key: "key_ok vn (st_prefix s) k" and P: "stable vn (st_prefix s) d P"
    and begun: "\<And>hs. P hs \<Longrightarrow> begun vn (st_prefix s) n hs" and R: "\<And>m. kept vn (st_prefix s) d (R m)"
    and found: "\<And>hs mk m. P hs \<Longrightarrow> mk \<in> set (layout_keys vn (st_prefix s) k) \<Longrightarrow>
      manifest_at vn (st_prefix s) (hd hs) mk m \<Longrightarrow> R m hs"
  shows "triple vn s d E P (locateManifest vn s c k) (\<lambda>hs r. P hs \<and> located vn (st_prefix s) n k R hs r)"
proof -
  let ?p = "st_prefix s" and ?mk = "mkey vn (st_prefix s) k"
  let ?N = "\<lambda>hs. within n hs (\<lambda>ob. ob ?mk = None)" and ?Q = "\<lambda>hs r. P hs \<and> located vn ?p n k R hs r"
  note lay = layouts [OF key]
  have read: "triple vn s d E P (readManifestAt vn s c ?mk k False) (\<lambda>hs r. P hs \<and> read_tells k R ?N hs r)"
    by (rule triple_read [OF P lay(3) R kept_within]) (use found [OF _ lay(2)] within_now [OF begun] in auto)
  have body: "locateManifest vn s c k = pbind (readManifestAt vn s c ?mk k False) (\<lambda>r.
      case r of Inl e \<Rightarrow> if \<not> is_not_found e then Ret (Inl e)
          else locate_in vn s c k True e (tl (layout_keys vn ?p k))
        | Inr m \<Rightarrow> Ret (Inr (?mk, m)))"
    unfolding locateManifest_def lay(5) sum.case by (subst lay(1)) (simp only: locate_in.simps)
  have rest: "triple vn s d E (\<lambda>hs. P hs \<and> read_tells k R ?N hs (Inl e))
      (locate_in vn s c k True e (tl (layout_keys vn ?p k))) ?Q" if "is_not_found e" for e
  proof (cases "e = BlobNotFoundError k")
    case True
    then show ?thesis
      by (intro triple_pre [OF triple_locate_old [OF key P begun R found True]]) (simp_all add: read_tells_def)
  next
    case False
    with that show ?thesis by (intro triple_never) (simp add: read_tells_def bland_def)
  qed
  have ends: "triple vn s d E (\<lambda>hs. P hs \<and> read_tells k R ?N hs r) (Ret x) ?Q"
    if "r = Inl e \<and> x = Inl e \<and> \<not> is_not_found e \<or> (\<exists>m. r = Inr m \<and> x = Inr (?mk, m))" for r x e
    by (rule triple_tells [OF P R kept_within])
      (use that lay(2) in \<open>auto simp: read_tells_def located_def bland_def is_not_found_def\<close>)
  show ?thesis
    unfolding body by (rule triple_bind [OF read], intro triple_cases) (auto intro: rest ends)
qed

section \<open>Get\<close>

text \<open>
  What \<open>Get\<close> hands out: a stream that checks its payload against a manifest which described the
  key's blob at one of the moments of the call.
\<close>

definition got ::
    "name_validator \<Rightarrow> string \<Rightarrow> nat \<Rightarrow> string \<Rightarrow> hist \<Rightarrow> get_stream result \<Rightarrow> bool" where
  "got vn p n k hs r \<longleftrightarrow>
     (case r of
        Inl e \<Rightarrow> bland e \<or> (e = BlobNotFoundError k \<and> within n hs (\<lambda>ob. blobs vn p ob k = None))
      | Inr st \<Rightarrow>
          (\<exists>m body i cb. gs_reader st = newBlobReader (newVerifyingBlobReader body (Size m) (Digest m))
             \<and> bland_script body
             \<and> gs_abort st = pbind (cancel (Some i)) (\<lambda>_. cancel cb)
             \<and> gs_release st = pbind releaseTransfer (\<lambda>_. cancel cb)
             \<and> within n hs (resembles vn p k m)))"

lemma stable_got: "stable vn p d (\<lambda>hs. begun vn p n hs \<and> got vn p n k hs r)"
  unfolding got_def by (intro stable_and stable_begun kept_rules kept_within)

lemma triple_get_payload:
  "triple vn s d E (\<lambda>hs. begun vn (st_prefix s) n hs \<and> within n hs (resembles vn (st_prefix s) k m))
     (get_payload s c cb m i) (\<lambda>hs r. begun vn (st_prefix s) n hs \<and> got vn (st_prefix s) n k hs r)"
proof -
  let ?P = "\<lambda>hs. begun vn (st_prefix s) n hs \<and> within n hs (resembles vn (st_prefix s) k m)"
    and ?Q = "\<lambda>hs r. begun vn (st_prefix s) n hs \<and> got vn (st_prefix s) n k hs r"
    and ?A = "\<lambda>out :: get_output result.
      \<forall>res bd. out = Inr res \<and> go_body res = Some bd \<longrightarrow> bland_script (bd_script bd)"
  have P: "stable vn (st_prefix s) d ?P" by (rule stable_and) simp_all
  note PA = stable_and [OF P kept_const]
  have ask: "triple vn s d E ?P (call (GetObject (with_cancel i c) \<lparr>gi_bucket = ro_bucket (st_options s),
      gi_key = PayloadKey m, gi_range = None, gi_if_match = None\<rparr>) as_get) (\<lambda>hs out. ?P hs \<and> ?A out)"
    by (rule triple_quiet [OF P]) (auto simp: get_answer_def)
  have fail: "triple vn s d E (\<lambda>hs. ?P hs \<and> ?A out) (pbind (cancel (Some i)) (\<lambda>_.
      pbind (ctx_or c e) (\<lambda>x. Ret (Inl x)))) ?Q" if "bland e" for e out
    by (rule triple_bind [OF triple_unnoticed(2) [OF PA]], rule triple_fail [OF PA that]) (simp add: got_def)
  have bad: "triple vn s d E (\<lambda>hs. ?P hs \<and> ?A out) (pbind (cancel (Some i)) (\<lambda>_. Ret (Inl e))) ?Q"
    if "bland e" for e out
    by (rule triple_bind [OF triple_unnoticed(2) [OF PA]], rule triple_Ret [OF PA]) (simp add: got_def that)
  have stream: "triple vn s d E (\<lambda>hs. ?P hs \<and> ?A out) (Ret (Inr \<lparr>gs_reader = reader,
        gs_abort = pbind (cancel (Some i)) (\<lambda>_. cancel cb),
        gs_release = pbind releaseTransfer (\<lambda>_. cancel cb)\<rparr>)) ?Q"
    if "out = Inr response" "checked_stream m response = Some reader" for reader out response
    by (rule triple_Ret [OF PA])
      (use that in \<open>auto simp: got_def checked_stream_def split: option.splits if_splits\<close>)
  show ?thesis
    unfolding get_payload_def
    by (rule triple_bind [OF ask], intro triple_case_sum triple_case_option)
      (((split if_split, intro conjI impI)?; blast intro: fail bad stream bland_simps)+)
qed

text \<open>A stream is handed over; an error gives back what was held for it.\<close>

lemma triple_handed:
  assumes "triple vn s d E (\<lambda>hs. begun vn (st_prefix s) n hs \<and> got vn (st_prefix s) n k hs g) q
      (\<lambda>hs _. begun vn (st_prefix s) n hs \<and> got vn (st_prefix s) n k hs g)"
  shows "triple vn s d E (\<lambda>hs. begun vn (st_prefix s) n hs \<and> got vn (st_prefix s) n k hs g)
      (case g of Inr stream \<Rightarrow> Ret (Inr stream) | Inl e \<Rightarrow> pbind q (\<lambda>_. Ret (Inl e)))
      (\<lambda>hs r. begun vn (st_prefix s) n hs \<and> got vn (st_prefix s) n k hs r)"
  using triple_bind [OF assms triple_Ret [OF stable_got]] triple_Ret [OF stable_got]
  by (cases g) simp_all

lemma triple_get_holding:
  assumes "key_ok vn (st_prefix s) k"
  shows "triple vn s d E (begun vn (st_prefix s) n) (get_holding vn s b cb k)
    (\<lambda>hs r. begun vn (st_prefix s) n hs \<and> got vn (st_prefix s) n k hs r)"
proof -
  let ?p = "st_prefix s" and ?Q = "\<lambda>hs r. begun vn (st_prefix s) n hs \<and> got vn (st_prefix s) n k hs r"
  let ?P = "\<lambda>hs. begun vn ?p n hs" and ?L = "located vn ?p n k (\<lambda>m hs. within n hs (resembles vn ?p k m))"
  have locate: "triple vn s d E ?P (locateManifest vn s b k) (\<lambda>hs r. ?P hs \<and> ?L hs r)"
    by (rule triple_locate [OF assms stable_begun _ kept_within]) (auto intro: resembles_now)
  have L: "stable vn ?p d (\<lambda>hs. ?P hs \<and> ?L hs l)" for l
    unfolding located_def by (intro stable_and stable_begun kept_rules kept_within)
  have fresh: "triple vn s d E (\<lambda>hs. ?P hs \<and> ?L hs l) (call Fresh (\<lambda>r. snd (as_fresh r)))
      (\<lambda>hs i. (?P hs \<and> ?L hs l) \<and> True)" for l
    by (rule triple_quiet [OF L]) auto
  have payload: "triple vn s d E (\<lambda>hs. ?P hs \<and> ?L hs (Inr (mk, m)))
      (pbind (call Fresh (\<lambda>r. snd (as_fresh r))) (\<lambda>i. get_payload s b cb m i)) ?Q" for mk m
    by (rule triple_bind [OF fresh], rule triple_pre [OF triple_get_payload]) (simp add: located_def)
  have failed: "triple vn s d E (\<lambda>hs. ?P hs \<and> ?L hs (Inl e)) (Ret (Inl e)) ?Q" for e
    by (rule triple_Ret [OF L]) (simp add: located_def got_def)
  show ?thesis
    unfolding get_holding_def
    by (rule triple_bind [OF locate], intro triple_case_sum triple_case_prod) (simp_all only: payload failed)
qed

lemma triple_Get:
  assumes "key_ok vn (st_prefix s) k"
  shows "triple vn s d E (begun vn (st_prefix s) n) (Get vn s (Some c) k)
    (\<lambda>hs r. begun vn (st_prefix s) n hs \<and> got vn (st_prefix s) n k hs r)"
proof -
  let ?p = "st_prefix s" and ?Q = "\<lambda>hs r. begun vn (st_prefix s) n hs \<and> got vn (st_prefix s) n k hs r"
  have key: "validateBlobKey vn k = None" using assms by (simp add: key_ok_def validateBlobKey_def)
  note held = triple_bind [OF triple_get_holding [OF assms] triple_handed [OF triple_unnoticed(1) [OF stable_got]]]
  have bounded: "triple vn s d E (begun vn ?p n) (get_bounded vn s b cb k) ?Q"
    if "ctx_deadline b \<noteq> NoDeadline" for b cb
    unfolding get_bounded_def key option.case
    by (rule triple_holding_slot [OF stable_begun that held], rule triple_Ret [OF stable_begun])
      (simp add: got_def)
  show ?thesis
    unfolding Get_def
    by (rule triple_guarded [OF stable_begun],
        rule triple_bind [OF bounded triple_handed [OF triple_unnoticed(2) [OF stable_got]]])
qed

text \<open>A stream read to \<open>io.EOF\<close> was the content its manifest describes.\<close>

lemma read_all_verified:
  assumes "read_all Read j n r = ((bs, Some EOF), r')" "\<not> br_closed r" "verifying_ok (br_verifier r)"
  shows "int (length (ver_hash (br_verifier r) @ bs)) = ver_expected_size (br_verifier r)
    \<and> sum256 (ver_hash (br_verifier r) @ bs) = ver_expected_digest (br_verifier r)"
  using assms
proof (induction j arbitrary: r bs r')
  case (Suc j)
  obtain b e v where rd: "verifying_read script_read (br_verifier r) n = ((b, e), v)" by (metis surj_pair)
  note v = script.verifying_readD [OF Suc.prems(3) rd]
  show ?case
  proof (cases e)
    case (Some x)
    with Suc.prems(1,2) rd have "x = EOF" "bs = b" by (simp_all add: Read_def Let_def)
    with v(1,2,4,5) v(6) [OF Some [unfolded \<open>x = EOF\<close>]] show ?thesis by (simp add: verifying_ok_def)
  next
    case None
    obtain bs2 e2 r2 where more: "read_all Read j n (r\<lparr>br_verifier := v\<rparr>) = ((bs2, e2), r2)"
      by (metis surj_pair)
    with None rd Suc.prems(1,2) have "e2 = Some EOF" "bs = b @ bs2"
      by (auto simp: Read_def [of r] Let_def)
    with Suc.IH [of "r\<lparr>br_verifier := v\<rparr>" bs2] more v(1,2,4,5) Suc.prems(2) show ?thesis by simp
  qed
qed simp

lemma drained_resembles:
  assumes "gs_reader st = newBlobReader (newVerifyingBlobReader body (Size m) (Digest m))"
    and "drained st = (b, Some EOF)" "resembles vn p k m ob"
  shows "\<exists>b'. blobs vn p ob k = Some b' \<and> same_content b' b"
proof -
  from assms(3) obtain b' where b': "blobs vn p ob k = Some b'" "Size m = int (length b')" "Digest m = sum256 b'"
    by (auto simp: resembles_def)
  let ?v = "newVerifyingBlobReader body (Size m) (Digest m)"
  from assms(2) obtain j r where "read_all Read j 512 (newBlobReader ?v) = ((b, Some EOF), r)"
    unfolding drained_def assms(1) by (metis prod.collapse)
  from read_all_verified [OF this] verifying_ok_new [of "Size m" body "Digest m"] b'(2)
  have "int (length b) = Size m" "sum256 b = Digest m"
    by (simp_all add: newBlobReader_def newVerifyingBlobReader_def)
  with b' show ?thesis by (simp add: same_content_def)
qed

text \<open>The errors of a stream are those of its body and of the checks.\<close>

lemma bland_script_read:
  "bland_script s \<Longrightarrow> script_read s n = ((b, e), s') \<Longrightarrow>
   bland_script s' \<and> (\<forall>x. e = Some x \<longrightarrow> bland x)"
  by (cases "(s, n)" rule: script_read.cases) (auto simp: bland_script_def split: if_splits)

definition bland_stream :: "script verifying \<Rightarrow> bool" where
  "bland_stream v \<longleftrightarrow> bland_script (ver_body v) \<and> (\<forall>t. ver_terminal v = Some t \<longrightarrow> bland t)"

lemma bland_verifying_read:
  assumes "bland_stream v" "verifying_read script_read v n = ((b, e), v')"
  shows "bland_stream v' \<and> (\<forall>x. e = Some x \<longrightarrow> bland x)"
proof (cases "ver_terminal v \<noteq> None \<or> n = 0")
  case True
  with assms show ?thesis by (auto simp: verifying_read_def bland_stream_def split: option.splits)
next
  case False
  define i where "i = (if ver_read v = ver_expected_size v then 1
    else clip n (ver_expected_size v - ver_read v))"
  obtain c x t where rd: "script_read (ver_body v) i = ((c, x), t)" by (metis surj_pair)
  have t: "bland_script t" "\<And>y. x = Some y \<Longrightarrow> bland y"
    using bland_script_read [OF _ rd] assms(1) by (auto simp: bland_stream_def)
  show ?thesis
  proof (cases "ver_read v = ver_expected_size v")
    case True
    with False rd assms(2) t show ?thesis
      by (auto simp: verifying_read_def bland_stream_def verifying_finish_cases i_def Let_def
          split: if_splits)
  next
    case unread: False
    with False rd assms(2) t show ?thesis
      by (auto simp: verifying_read_def bland_stream_def verifying_finish_cases i_def Let_def
          split: if_splits)
  qed
qed

lemma bland_read_all:
  "bland_stream (br_verifier r) \<Longrightarrow> read_all Read j n r = ((b, Some e), r') \<Longrightarrow> bland e"
proof (induction j arbitrary: r b r')
  case (Suc j)
  obtain c x v where rd: "verifying_read script_read (br_verifier r) n = ((c, x), v)" by (metis surj_pair)
  from bland_verifying_read [OF Suc.prems(1) this] have v: "bland_stream v" "\<And>y. x = Some y \<Longrightarrow> bland y"
    by auto
  have step: "read_all Read j n (r\<lparr>br_verifier := v\<rparr>) = ((c', Some e), r'') \<Longrightarrow> bland e" for c' r''
    by (rule Suc.IH) (simp_all add: v)
  show ?case
    using Suc.prems(2) rd v(2) step
    by (cases x) (auto simp: Read_def [of r] Let_def split: if_splits prod.splits)
qed simp

text \<open>What a client that read the whole stream knows.\<close>

definition fetched ::
    "name_validator \<Rightarrow> string \<Rightarrow> nat \<Rightarrow> string \<Rightarrow> hist \<Rightarrow> bytes result \<Rightarrow> bool" where
  "fetched vn p n k hs r \<longleftrightarrow>
     (case r of
        Inr b \<Rightarrow> within n hs (\<lambda>ob. \<exists>b'. blobs vn p ob k = Some b' \<and> same_content b' b)
      | Inl e \<Rightarrow> bland e \<or> (e = BlobNotFoundError k \<and> within n hs (\<lambda>ob. blobs vn p ob k = None)))"

lemma stream_fetched:
  assumes "got vn p n k hs (Inr st)"
  shows "fetched vn p n k hs (case drained st of (b, e) \<Rightarrow>
    if e = Some EOF then Inr b else Inl (case e of Some x \<Rightarrow> x | None \<Rightarrow> UnexpectedEOF))"
proof -
  from assms obtain m body where
    st: "gs_reader st = newBlobReader (newVerifyingBlobReader body (Size m) (Digest m))" "bland_script body"
    and m: "within n hs (resembles vn p k m)" by (auto simp: got_def)
  obtain b e where dr: "drained st = (b, e)" by (cases "drained st")
  have "bland_stream (br_verifier (gs_reader st))"
    using st by (simp add: newBlobReader_def newVerifyingBlobReader_def bland_stream_def)
  from bland_read_all [OF this] dr have "bland x" if "e = Some x" for x
    unfolding drained_def by (metis prod.collapse that)
  moreover have "within n hs (\<lambda>ob. \<exists>b'. blobs vn p ob k = Some b' \<and> same_content b' b)" if "e = Some EOF"
    by (rule within_mono [OF m]) (use drained_resembles [OF st(1)] dr that in simp)
  ultimately show ?thesis using dr by (auto simp: fetched_def split: option.split)
qed

lemma triple_get_all:
  assumes "key_ok vn (st_prefix s) k"
  shows "triple vn s d E (begun vn (st_prefix s) n) (get_all vn s c k)
    (\<lambda>hs r. begun vn (st_prefix s) n hs \<and> fetched vn (st_prefix s) n k hs r)"
proof -
  let ?p = "st_prefix s" and ?P = "\<lambda>g hs. begun vn (st_prefix s) n hs \<and> got vn (st_prefix s) n k hs g"
    and ?Q = "\<lambda>hs r. begun vn (st_prefix s) n hs \<and> fetched vn (st_prefix s) n k hs r"
  have failed: "triple vn s d E (?P (Inl e)) (Ret (Inl e)) ?Q" for e
    by (rule triple_Ret [OF stable_got]) (simp add: got_def fetched_def)
  have ends: "triple vn s d E (?P (Inr st)) q (\<lambda>hs _. ?P (Inr st) hs)"
    if "\<And>i cb. gs_abort st = pbind (cancel (Some i)) (\<lambda>_. cancel cb) \<Longrightarrow>
        gs_release st = pbind releaseTransfer (\<lambda>_. cancel cb) \<Longrightarrow>
        q = pbind (cancel (Some i)) (\<lambda>_. cancel cb) \<or> q = pbind releaseTransfer (\<lambda>_. cancel cb)"
    for st and q :: "unit prog"
  proof (cases "\<exists>i cb. q = pbind (cancel (Some i)) (\<lambda>_. cancel cb) \<or> q = pbind releaseTransfer (\<lambda>_. cancel cb)")
    case True
    then show ?thesis by (auto intro: triple_bind [OF triple_unnoticed(1) triple_unnoticed(2)]
      triple_bind [OF triple_unnoticed(2) triple_unnoticed(2)] stable_got)
  next
    case False
    with that show ?thesis by (intro triple_never) (auto simp: got_def)
  qed
  have drained: "triple vn s d E (?P (Inr st)) (Ret (case drained st of (b, e) \<Rightarrow>
      if e = Some EOF then Inr b else Inl (case e of Some x \<Rightarrow> x | None \<Rightarrow> UnexpectedEOF))) ?Q" for st
    by (rule triple_Ret [OF stable_got]) (use stream_fetched in blast)
  have "triple vn s d E (?P (Inr st)) (pbind (gs_release st) (\<lambda>_. pbind (gs_abort st) (\<lambda>_.
      Ret (case drained st of (b, e) \<Rightarrow>
        if e = Some EOF then Inr b else Inl (case e of Some x \<Rightarrow> x | None \<Rightarrow> UnexpectedEOF))))) ?Q" for st
    by (rule triple_bind [OF ends triple_bind [OF ends drained]]) blast+
  with failed show ?thesis
    unfolding get_all_def by (intro triple_bind [OF triple_Get [OF assms]] triple_case_sum) (simp_all only:)
qed

section \<open>List\<close>

text \<open>Every listed key has the prefix and was held at one of the moments of the call.\<close>

definition shown :: "name_validator \<Rightarrow> string \<Rightarrow> nat \<Rightarrow> string \<Rightarrow> string set \<Rightarrow> hist \<Rightarrow> bool" where
  "shown vn p n prefix ks hs \<longleftrightarrow>
     (\<forall>k. k \<in> ks \<longrightarrow> has_prefix k prefix \<and> within n hs (\<lambda>ob. blobs vn p ob k \<noteq> None))"

lemma kept_shown: "kept vn p d (shown vn p n prefix ks)"
  unfolding shown_def by (intro kept_rules kept_within)

lemma page_shown:
  assumes "begun vn p n hs" "logicalKeyFromManifestObject vn p x = Some k"
    and "\<forall>x. Some x \<in> set rows \<longrightarrow> has_prefix x (manifest_root p) \<and> hd hs x \<noteq> None"
    and "Some x \<in> set rows"
  shows "within n hs (\<lambda>ob. blobs vn p ob k \<noteq> None)"
  using assms blobs_listed [OF begunD(2) [OF assms(1)]] by (intro within_now) auto

lemma triple_list_pages:
  "triple vn s d E
     (\<lambda>hs. begun vn (st_prefix s) n hs \<and> shown vn (st_prefix s) n prefix seen hs)
     (list_pages vn s c prefix fuel cont seen)
     (\<lambda>hs r. begun vn (st_prefix s) n hs \<and> (\<forall>ks. r = Some (Inr ks) \<longrightarrow> shown vn (st_prefix s) n prefix ks hs))"
proof (induction fuel arbitrary: cont seen)
  case 0
  show ?case
    unfolding list_pages.simps
    by (rule triple_Ret [OF stable_and [OF stable_begun kept_shown]]) simp
next
  case (Suc fuel)
  let ?p = "st_prefix s"
  let ?P = "\<lambda>hs. begun vn ?p n hs \<and> shown vn ?p n prefix seen hs"
    and ?Q = "\<lambda>hs r. begun vn ?p n hs \<and> (\<forall>ks. r = Some (Inr ks) \<longrightarrow> shown vn ?p n prefix ks hs)"
    and ?I = "\<lambda>hs (out :: list_output result). \<forall>page x k.
      out = Inr page \<and> Some x \<in> set (lo_rows page) \<and> logicalKeyFromManifestObject vn ?p x = Some k \<longrightarrow>
        within n hs (\<lambda>ob. blobs vn ?p ob k \<noteq> None)"
    and ?seen = "\<lambda>page. fold (list_row vn s prefix) (lo_rows page) seen"
  have P: "stable vn ?p d ?P" by (rule stable_and [OF stable_begun kept_shown])
  have I: "kept vn ?p d (\<lambda>hs. ?I hs out)" for out by (intro kept_rules kept_within)
  have st: "stable vn ?p d (\<lambda>hs. ?P hs \<and> ?I hs out)" for out by (rule stable_and [OF P I])
  have ask: "triple vn s d E ?P (call (ListObjectsV2 c \<lparr>li_bucket = ro_bucket (st_options s),
      li_prefix = manifest_root ?p, li_token = cont, li_max = listPageSize\<rparr>) as_list) (\<lambda>hs out. ?P hs \<and> ?I hs out)"
    by (rule triple_ask [OF P I]) (auto simp del: not_None_eq dest: page_shown)
  have fail: "triple vn s d E (\<lambda>hs. ?P hs \<and> ?I hs out)
      (pbind (ctx_or c (BackendError ''manifest list'')) (\<lambda>x. Ret (Some (Inl x)))) ?Q" for out
    by (rule triple_fail [OF st]) simp_all
  have now: "begun vn ?p n hs \<and> shown vn ?p n prefix (?seen page) hs" if "?P hs \<and> ?I hs (Inr page)" for hs page
    using that by (auto simp: fold_rows shown_def)
  have ends: "triple vn s d E (\<lambda>hs. ?P hs \<and> ?I hs (Inr page)) (Ret (Some r)) ?Q"
    if "r = Inr (?seen page) \<or> (\<exists>e. r = Inl e)" for r page
    by (rule triple_Ret [OF st]) (use that now in blast)
  have more: "triple vn s d E (\<lambda>hs. ?P hs \<and> ?I hs (Inr page))
      (list_pages vn s c prefix fuel (Some t) (?seen page)) ?Q" for t page
    by (rule triple_pre [OF Suc.IH]) (rule now)
  show ?case
    unfolding list_pages.simps Let_def
    by (rule triple_bind [OF ask], intro triple_cases) (simp_all only: fail, (blast intro: ends more)+)
qed

lemma sorted_shown:
  assumes "map_option sorted_keys r = Some (Inr ks)" "\<And>ks. r = Some (Inr ks) \<Longrightarrow> shown vn p n prefix ks hs"
  shows "shown vn p n prefix (set ks) hs"
proof -
  from assms(1) obtain ks' where ks: "r = Some (Inr ks')" "ks = sorted_list_of_set ks'"
    by (cases r; cases "the r") (auto simp: sorted_keys_def)
  then have "set ks \<subseteq> ks'" by (cases "finite ks'") simp_all
  with assms(2) ks(1) show ?thesis by (auto simp: shown_def)
qed

lemma triple_List:
  assumes "validateListPrefix vn prefix = None"
  shows "triple vn s d E (begun vn (st_prefix s) n) (List_keys vn s (Some c) prefix fuel)
    (\<lambda>hs r. begun vn (st_prefix s) n hs
       \<and> (\<forall>ks. r = Some (Inr ks) \<longrightarrow> shown vn (st_prefix s) n prefix (set ks) hs))"
proof -
  let ?p = "st_prefix s"
  let ?Q = "\<lambda>hs r. begun vn ?p n hs \<and> (\<forall>ks. r = Some (Inr ks) \<longrightarrow> shown vn ?p n prefix (set ks) hs)"
    and ?M = "\<lambda>hs r. begun vn ?p n hs \<and> (\<forall>ks. r = Some (Inr ks) \<longrightarrow> shown vn ?p n prefix ks hs)"
  have Q: "stable vn ?p d (\<lambda>hs. ?Q hs r)" and M: "stable vn ?p d (\<lambda>hs. ?M hs r')" for r r'
    by (intro stable_and stable_begun kept_rules kept_shown)+
  have pages: "triple vn s d E (begun vn ?p n) (list_pages vn s b prefix fuel None {}) ?M" for b
    by (rule triple_pre [OF triple_list_pages]) (simp add: shown_def)
  have sorted: "?Q hs (map_option sorted_keys r)" if "?M hs r" for hs r
    using that by (auto intro: sorted_shown)
  have bounded: "triple vn s d E (begun vn ?p n) (list_bounded vn s b prefix fuel) ?Q"
    if "ctx_deadline b \<noteq> NoDeadline" for b
    unfolding list_bounded_def assms option.case
  proof (rule triple_holding_slot [OF stable_begun that])
    show "triple vn s d E (begun vn ?p n) (pbind (list_pages vn s b prefix fuel None {}) (\<lambda>r.
        pbind releaseTransfer (\<lambda>_. Ret (map_option sorted_keys r)))) ?Q"
      by (rule triple_release [OF pages M]) (rule sorted)
    show "triple vn s d E (begun vn ?p n) (Ret (Some (Inl e))) ?Q" for e
      by (rule triple_Ret [OF stable_begun]) simp
  qed
  show ?thesis
    unfolding List_keys_def
  proof (rule triple_guarded [OF stable_begun])
    fix b i assume "ctx_deadline b \<noteq> NoDeadline"
    from triple_cancel [where f = "\<lambda>r. r" and Q' = ?Q, OF bounded [OF this] Q]
    show "triple vn s d E (begun vn ?p n)
        (pbind (list_bounded vn s b prefix fuel) (\<lambda>r. pbind (cancel i) (\<lambda>_. Ret r))) ?Q" by blast
  qed
qed

end
