(* ===== verification/SharedWrites.thy ===== *)
theory SharedWrites
  imports SharedReads
begin

text \<open>
  Writing in a shared bucket: \<open>Put\<close> and \<open>Delete\<close>, stage by stage. What \<open>Put\<close> uploads stays its own
  until its manifest is out; what \<open>Delete\<close> removes was named by a manifest it has read, and by none
  since it removed that manifest.
\<close>

section \<open>The steps that change the bucket\<close>

text \<open>The effects on the map of blobs.\<close>

definition blob_added :: "string \<Rightarrow> bytes \<Rightarrow> objs \<Rightarrow> objs \<Rightarrow> bool" where
  "blob_added k content b b' \<longleftrightarrow> b k = None \<and> b' = b(k \<mapsto> content)"

definition blob_removed :: "string \<Rightarrow> objs \<Rightarrow> objs \<Rightarrow> bool" where
  "blob_removed k b b' \<longleftrightarrow> b' = b(k := None)"

definition unnamed :: "name_validator \<Rightarrow> string \<Rightarrow> string \<Rightarrow> hist \<Rightarrow> bool" where
  "unnamed vn p pk hs \<longleftrightarrow> \<not> names_payload vn p (hd hs) pk"

lemma named_now: "sound vn p hs \<Longrightarrow> names_payload vn p (hd hs) pk \<Longrightarrow> named vn p hs pk"
  by (auto simp: named_def)

lemma unnamed_named: "sound vn p hs \<Longrightarrow> \<not> named vn p hs pk \<Longrightarrow> unnamed vn p pk hs"
  using named_now by (auto simp: unnamed_def)

text \<open>A manifest of a payload that has been named is where it was.\<close>

lemma disturbed_manifest:
  assumes "disturbs vn p d hs hs'" "sound vn p hs" "named vn p hs (PayloadKey m)"
    and "manifest_at vn p (hd hs') mk m"
  shows "manifest_at vn p (hd hs) mk m"
proof -
  from assms(1,2) obtain xs where hs': "hs' = xs @ hs" "sound vn p hs'" by (auto simp: disturbs_def)
  with sound_manifest_at [of vn p xs hs m mk] assms(2-4) show ?thesis by simp
qed

lemma kept_unnamed: "kept vn p d (unnamed vn p (pkey p d k))"
  unfolding kept_def
proof (intro allI impI; elim conjE)
  fix hs hs' assume h: "unnamed vn p (pkey p d k) hs" "sound vn p hs" "disturbs vn p d hs hs'"
  show "unnamed vn p (pkey p d k) hs'"
  proof (cases "named vn p hs (pkey p d k)")
    case True
    with disturbed_manifest [OF h(3,2)] h(1) show ?thesis
      unfolding unnamed_def names_payload_def by metis
  next
    case False
    with h show ?thesis by (intro unnamed_named) (auto simp: disturbs_def)
  qed
qed

lemma kept_named_unnamed: "kept vn p d (\<lambda>hs. named vn p hs pk \<and> unnamed vn p pk hs)"
  unfolding kept_def
proof (intro allI impI; elim conjE)
  fix hs hs' assume h: "named vn p hs pk" "unnamed vn p pk hs" "sound vn p hs" "disturbs vn p d hs hs'"
  then have "named vn p hs' pk" using named_append by (auto simp: disturbs_def)
  moreover have "unnamed vn p pk hs'"
    using disturbed_manifest [OF h(4,3)] h(1,2) unfolding unnamed_def names_payload_def by metis
  ultimately show "named vn p hs' pk \<and> unnamed vn p pk hs'" by blast
qed

lemma pkey_matches: "length d = 16 \<Longrightarrow> payloadObjectKeyMatches p k (pkey p d k)"
proof -
  assume d: "length d = 16"
  have "map lower_hex (hex_encode d) = hex_encode d" using hex_decode_iff [of "hex_encode d" d] by simp
  with d show ?thesis
    unfolding payload_key_shape pkey_def by (intro exI [of _ "hex_encode d"] exI [of _ d]) simp
qed

lemma pkey_not_root: "length d = 16 \<Longrightarrow> \<not> has_prefix (pkey p d k) (manifest_root p)"
  using payload_not_root [OF pkey_matches] .

text \<open>An unnamed payload is written or removed, by the call whose it is or after it was named.\<close>

lemma payload_step:
  assumes "sound vn p hs" "unnamed vn p x hs" "\<not> has_prefix x (manifest_root p)"
    and "named vn p hs x \<or> (\<exists>k. x = pkey p d k)"
  shows "grants vn p d E hs ((hd hs)(x := y) # hs)" "unnamed vn p pk hs \<Longrightarrow> unnamed vn p pk ((hd hs)(x := y) # hs)"
    "sound vn p ((hd hs)(x := y) # hs)"
    "named vn p ((hd hs)(x := y) # hs) pk \<longleftrightarrow> named vn p hs pk"
proof -
  let ?ob = "(hd hs)(x := y)"
  have ok: "blobs_ok vn p (hd hs)" by (rule sound_now [OF assms(1)])
  from assms(2) have spare: "\<not> names_payload vn p (hd hs) x" by (simp add: unnamed_def)
  note changed = spare_changed [OF ok assms(3) spare, of y]
  have legacy: "?ob mk = hd hs mk" if "mk \<in> old_layout vn p k" for mk k
    using layout_root [OF old_layout_root [OF that]] assms(3) by auto
  then have follows: "follows vn p hs ?ob"
    using changed(1,3) unfolding follows_def by auto
  with assms(1) show "sound vn p (?ob # hs)" by auto
  show "grants vn p d E hs (?ob # hs)"
    using follows changed(2,3) assms(4) by (auto simp: grants_def)
  have names: "names_payload vn p ?ob = names_payload vn p (hd hs)"
    using changed(3) by (simp add: fun_eq_iff names_payload_def)
  then show "unnamed vn p pk (?ob # hs)" if "unnamed vn p pk hs" using that by (simp add: unnamed_def)
  show "named vn p (?ob # hs) pk \<longleftrightarrow> named vn p hs pk"
    using names named_now [OF assms(1)] by auto
qed

text \<open>A manifest is published: its layouts are free and its payload is there and never named.\<close>

lemma publish_step:
  assumes "sound vn p hs" "\<forall>mk \<in> set (layout_keys vn p k). hd hs mk = None"
    and "mk \<in> set (layout_keys vn p k)" "mk \<notin> old_layout vn p k"
    and "complete vn p (hd hs) k enc m content" "\<not> named vn p hs (PayloadKey m)" "PayloadKey m = pkey p d k"
  shows "grants vn p d (blob_added k content) hs ((hd hs)(mk \<mapsto> enc) # hs)"
    "sound vn p ((hd hs)(mk \<mapsto> enc) # hs)"
    "manifest_at vn p ((hd hs)(mk \<mapsto> enc)) r m' \<longleftrightarrow> (if r = mk then m' = m else manifest_at vn p (hd hs) r m')"
proof -
  let ?ob = "(hd hs)(mk \<mapsto> enc)"
  have ok: "blobs_ok vn p (hd hs)" by (rule sound_now [OF assms(1)])
  have spare: "\<not> names_payload vn p (hd hs) (PayloadKey m)" using named_now [OF assms(1)] assms(6) by blast
  note added = manifest_added [OF ok assms(2,3) spare assms(5)]
  show at: "manifest_at vn p ?ob r m' \<longleftrightarrow> (if r = mk then m' = m else manifest_at vn p (hd hs) r m')" for r m'
    by (rule added(3))
  have legacy: "?ob r = hd hs r" if "r \<in> old_layout vn p k'" for r k'
    using that assms(4) old_layout_root layout_unique [OF assms(3)] by (metis fun_upd_other)
  have follows: "follows vn p hs ?ob"
    unfolding follows_def
  proof (intro conjI allI impI ballI)
    show "\<exists>x y. ?ob = (hd hs)(x := y)" by blast
    show "manifest_at vn p (hd hs) r m' \<or> \<not> named vn p hs (PayloadKey m')" if "manifest_at vn p ?ob r m'" for r m'
      using that at assms(6) by (auto split: if_splits)
  qed (use added(1) legacy in auto)
  with assms(1) show "sound vn p (?ob # hs)" by auto
  have root: "has_prefix mk (manifest_root p)" by (rule layout_root [OF assms(3)])
  have "blobs vn p (hd hs) k = None" using assms(2) by (simp add: blobs_None [OF ok] held_at_None)
  then have effect: "blob_added k content (blobs vn p (hd hs)) (blobs vn p ?ob)"
    using added(2) by (simp add: blob_added_def)
  have "manifest_at vn p (hd hs) r m' \<or> (\<exists>k. PayloadKey m' = pkey p d k)" if "manifest_at vn p ?ob r m'" for r m'
    using that at assms(7) by (auto split: if_splits)
  with follows effect root show "grants vn p d (blob_added k content) hs (?ob # hs)"
    by (auto simp: grants_def)
qed

text \<open>A manifest is removed, whichever it is by now.\<close>

lemma unpublish_step:
  assumes "sound vn p hs" "mk \<in> set (layout_keys vn p k)"
  shows "grants vn p d (blob_removed k) hs ((hd hs)(mk := None) # hs)"
    "sound vn p ((hd hs)(mk := None) # hs)"
    "manifest_at vn p ((hd hs)(mk := None)) r m \<longleftrightarrow> r \<noteq> mk \<and> manifest_at vn p (hd hs) r m"
proof -
  let ?ob = "(hd hs)(mk := None)"
  have ok: "blobs_ok vn p (hd hs)" by (rule sound_now [OF assms(1)])
  note removed = manifest_removed [OF ok assms(2)]
  show at: "manifest_at vn p ?ob r m \<longleftrightarrow> r \<noteq> mk \<and> manifest_at vn p (hd hs) r m" for r m by (rule removed(3))
  have follows: "follows vn p hs ?ob" using removed(1) at by (auto simp: follows_def)
  with assms(1) show "sound vn p (?ob # hs)" by auto
  have "blobs vn p ?ob = blobs vn p (hd hs) \<or> blob_removed k (blobs vn p (hd hs)) (blobs vn p ?ob)"
  proof (cases "hd hs mk")
    case None
    then have "?ob = hd hs" by auto
    then show ?thesis by simp
  next
    case (Some enc)
    then show ?thesis using removed(2) by (simp add: blob_removed_def)
  qed
  with follows at layout_root [OF assms(2)] show "grants vn p d (blob_removed k) hs (?ob # hs)"
    by (auto simp: grants_def)
qed

section \<open>The stages of Put\<close>

text \<open>Nothing is under the call's block yet.\<close>

definition blank :: "name_validator \<Rightarrow> string \<Rightarrow> bytes \<Rightarrow> nat \<Rightarrow> hist \<Rightarrow> bool" where
  "blank vn p d n hs \<longleftrightarrow> begun vn p n hs
     \<and> (\<forall>k. \<not> named vn p hs (pkey p d k) \<and> hd hs (pkey p d k) = None)"

text \<open>The payload is staged: it is there, and no manifest has named it.\<close>

definition staged_payload :: "name_validator \<Rightarrow> string \<Rightarrow> bytes \<Rightarrow> nat \<Rightarrow> string \<Rightarrow> bytes \<Rightarrow> hist \<Rightarrow> bool" where
  "staged_payload vn p d n k b hs \<longleftrightarrow> begun vn p n hs
     \<and> \<not> named vn p hs (pkey p d k) \<and> hd hs (pkey p d k) = Some b"

text \<open>If a manifest names it, it is the one the call published.\<close>

definition tried :: "name_validator \<Rightarrow> string \<Rightarrow> bytes \<Rightarrow> nat \<Rightarrow> string \<Rightarrow> hist \<Rightarrow> bool" where
  "tried vn p d n k hs \<longleftrightarrow> begun vn p n hs
     \<and> (\<forall>mk m. manifest_at vn p (hd hs) mk m \<and> PayloadKey m = pkey p d k \<longrightarrow> mk = mkey vn p k)"

text \<open>What the error of a \<open>Put\<close> tells of one of its moments.\<close>

definition put_told :: "name_validator \<Rightarrow> string \<Rightarrow> nat \<Rightarrow> string \<Rightarrow> bytes \<Rightarrow> hist \<Rightarrow> err option \<Rightarrow> bool" where
  "put_told vn p n k content hs e \<longleftrightarrow>
     (case e of
        None \<Rightarrow> within n hs (\<lambda>ob. \<exists>b. blobs vn p ob k = Some b \<and> same_content b content)
      | Some x \<Rightarrow> bland x \<or> (x = BlobConflictError k
          \<and> within n hs (\<lambda>ob. \<exists>b. blobs vn p ob k = Some b \<and> \<not> same_content b content)))"

definition ended ::
    "name_validator \<Rightarrow> string \<Rightarrow> bytes \<Rightarrow> nat \<Rightarrow> string \<Rightarrow> bytes \<Rightarrow> hist \<Rightarrow> err option \<times> bool \<Rightarrow> bool" where
  "ended vn p d n k content hs r \<longleftrightarrow> begun vn p n hs \<and> put_told vn p n k content hs (fst r)
     \<and> (snd r \<longrightarrow> unnamed vn p (pkey p d k) hs)"

lemma kept_put_told: "kept vn p d (\<lambda>hs. put_told vn p n k content hs e)"
  unfolding put_told_def by (cases e) (simp_all, intro kept_rules kept_within)

lemma stable_ended: "stable vn p d (\<lambda>hs. ended vn p d n k content hs r)"
  unfolding ended_def by (intro stable_and stable_begun kept_rules kept_put_told kept_unnamed)

lemma stable_blank: "stable vn p d (blank vn p d n)"
  using stable_begun [of vn p d n] by (auto simp: stable_def kept_def blank_def begun_def disturbs_def)

lemma stable_staged: "stable vn p d (staged_payload vn p d n k b)"
  using stable_begun [of vn p d n]
  by (auto simp: stable_def kept_def staged_payload_def begun_def disturbs_def)

lemma staged_unnamed: "staged_payload vn p d n k b hs \<Longrightarrow> unnamed vn p (pkey p d k) hs"
  using unnamed_named by (auto simp: staged_payload_def begun_def)

lemma stable_tried: "stable vn p d (tried vn p d n k)"
proof -
  have "tried vn p d n k hs'" if t: "tried vn p d n k hs" and step: "disturbs vn p d hs hs'" for hs hs'
  proof -
    have sound: "sound vn p hs" and begun: "begun vn p n hs" using t by (auto simp: tried_def begun_def)
    have "mk = mkey vn p k" if at: "manifest_at vn p (hd hs') mk m" "PayloadKey m = pkey p d k" for mk m
    proof (cases "named vn p hs (pkey p d k)")
      case True
      with disturbed_manifest [OF step sound, of m mk] at t show ?thesis unfolding tried_def by metis
    next
      case False
      with step sound have "sound vn p hs'" "\<not> named vn p hs' (pkey p d k)" by (auto simp: disturbs_def)
      with named_now at show ?thesis unfolding names_payload_def by metis
    qed
    with stable_later [OF stable_begun begun step] show ?thesis unfolding tried_def by blast
  qed
  moreover have "sound vn p hs" if "tried vn p d n k hs" for hs
    using that unfolding tried_def begun_def by blast
  ultimately show ?thesis unfolding stable_def kept_def by blast
qed

definition setting :: "name_validator \<Rightarrow> store \<Rightarrow> bytes \<Rightarrow> string \<Rightarrow> bool" where
  "setting vn s d k \<longleftrightarrow> key_ok vn (st_prefix s) k \<and> length d = 16
     \<and> 0 \<le> ro_maxAccountedObjectSize (st_options s)
     \<and> ro_maxAccountedObjectSize (st_options s) \<le> max_int64"

lemma settingD:
  assumes "setting vn s d k"
  shows "key_ok vn (st_prefix s) k" "length d = 16"
    "newPayloadObjectKey vn (Some d) (st_prefix s) k = Inr (pkey (st_prefix s) d k)"
  using assms by (auto simp: setting_def key_ok_def inr_iff pkey_def limits)

section \<open>Publishing\<close>

lemma told_read:
  assumes "LogicalKey m = k" "within n hs (resembles vn p k m)"
  shows "put_told vn p n k content hs
    (if manifestsMatch m (manifest_of k pk content) then None else Some (BlobConflictError k))"
proof -
  let ?match = "manifestsMatch m (manifest_of k pk content)"
  have "\<exists>b. blobs vn p ob k = Some b \<and> (same_content b content \<longleftrightarrow> ?match)" if "resembles vn p k m ob" for ob
    using that assms(1) by (auto simp: resembles_def manifestsMatch_def manifest_of_def same_content_def)
  with within_mono [OF assms(2)]
  have "within n hs (\<lambda>ob. \<exists>b. blobs vn p ob k = Some b \<and> (same_content b content \<longleftrightarrow> ?match))" by simp
  then show ?thesis by (cases ?match) (simp_all add: put_told_def)
qed

lemma told_bland: "bland x \<Longrightarrow> put_told vn p n k content hs (Some x)"
  by (simp add: put_told_def)

lemma triple_settle:
  assumes "key_ok vn (st_prefix s) k" "stable vn (st_prefix s) d P" "\<And>hs. P hs \<Longrightarrow> begun vn (st_prefix s) n hs"
  shows "triple vn s d E P (settleAgainstLegacyManifest vn s c k (manifest_of k pk content))
    (\<lambda>hs r. P hs \<and> (if fst r then put_told vn (st_prefix s) n k content hs (snd r)
      else snd r = None \<and> (\<forall>mk \<in> old_layout vn (st_prefix s) k. hd hs mk = None)))"
proof (cases "legacyManifestObjectKey (st_prefix s) k")
  case None
  with layouts(6) [OF assms(1)] show ?thesis
    by (auto simp: settleAgainstLegacyManifest_def intro!: triple_Ret [OF assms(2)])
next
  case (Some legacy)
  let ?p = "st_prefix s"
  let ?Q = "\<lambda>hs r. P hs \<and> (if fst r then put_told vn ?p n k content hs (snd r)
      else snd r = None \<and> (\<forall>mk \<in> old_layout vn ?p k. hd hs mk = None))"
    and ?R = "\<lambda>m hs. within n hs (resembles vn ?p k m)" and ?N = "\<lambda>hs. hd hs legacy = None"
  have old: "old_layout vn ?p k = {legacy}" using Some layouts(6) [OF assms(1)] by simp
  then have mem: "legacy \<in> set (layout_keys vn ?p k)" using old_layout_root by blast
  have N: "kept vn ?p d ?N" by (rule kept_legacy [of _ vn ?p k]) (simp add: old)
  have read: "triple vn s d E P (readLegacyManifest vn s c legacy k) (\<lambda>hs r. P hs \<and> read_tells k ?R ?N hs r)"
    unfolding readLegacyManifest_def
    by (rule triple_read [OF assms(2) layout_root [OF mem] kept_within N])
      (use resembles_now [OF assms(3) mem] in simp_all)
  show ?thesis
    unfolding settleAgainstLegacyManifest_def Some option.case
    by (rule triple_bind [OF read], intro triple_case_sum; rule triple_tells [OF assms(2) kept_within N])
      (auto simp: read_tells_def old told_bland told_read bland_def is_not_found_def)
qed

lemma triple_resolve:
  assumes "key_ok vn (st_prefix s) k"
  shows "triple vn s d E (tried vn (st_prefix s) d n k)
    (resolve_publish vn s c k (mkey vn (st_prefix s) k) (pkey (st_prefix s) d k)
       (manifest_of k (pkey (st_prefix s) d k) content) operation)
    (ended vn (st_prefix s) d n k content)"
proof -
  let ?p = "st_prefix s" and ?mk = "mkey vn (st_prefix s) k" and ?pk = "pkey (st_prefix s) d k"
  let ?P = "tried vn ?p d n k" and ?Q = "ended vn ?p d n k content" and ?m = "manifest_of k ?pk content"
    and ?R = "\<lambda>m hs. within n hs (resembles vn ?p k m) \<and> (PayloadKey m \<noteq> ?pk \<longrightarrow> unnamed vn ?p ?pk hs)"
    and ?N = "\<lambda>hs :: hist. True"
  note lay = layouts(2,3) [OF assms]
  have R: "kept vn ?p d (?R m)" for m by (intro kept_rules kept_within kept_unnamed)
  have found: "?R m hs" if "?P hs" "manifest_at vn ?p (hd hs) ?mk m" for hs m
  proof
    have begun: "begun vn ?p n hs" using that(1) by (simp add: tried_def)
    show "within n hs (resembles vn ?p k m)"
      by (rule resembles_now [OF begun lay(1) that(2)])
    show "PayloadKey m \<noteq> ?pk \<longrightarrow> unnamed vn ?p ?pk hs"
      using that manifest_at_unique unfolding tried_def unnamed_def names_payload_def by metis
  qed
  have st: "stable vn ?p d (\<lambda>hs. ?P hs \<and> read_tells k ?R ?N hs r)" for r
    by (rule stable_and [OF stable_tried kept_read_tells [OF R kept_const]])
  have fail: "triple vn s d E (\<lambda>hs. ?P hs \<and> read_tells k ?R ?N hs g)
      (pbind (ctx_or c (BackendError operation)) (\<lambda>x. Ret (Some x, False))) ?Q" for g
    by (rule triple_fail [OF st]) (simp_all add: ended_def tried_def told_bland)
  have settled: "triple vn s d E (\<lambda>hs. ?P hs \<and> read_tells k ?R ?N hs (Inr existing))
      (Ret (if manifestsMatch existing ?m then None else Some (BlobConflictError k), PayloadKey existing \<noteq> ?pk)) ?Q"
    for existing
    by (rule triple_tells [OF stable_tried R kept_const])
      (simp only: read_tells_def sum.case ended_def tried_def told_read fst_conv snd_conv, blast)
  show ?thesis
    unfolding resolve_publish_def readManifest_def
    by (rule triple_bind [OF triple_read [where R = ?R and N = ?N, OF stable_tried lay(2) R kept_const found]])
      (assumption | rule TrueI | intro triple_case_sum; simp only: fail settled)+
qed

lemma publish_staged:
  assumes "setting vn s d k" "int (length content) \<le> max_int64" "staged_payload vn (st_prefix s) d n k content hs"
    and "\<forall>mk \<in> old_layout vn (st_prefix s) k. hd hs mk = None" "hd hs (mkey vn (st_prefix s) k) = None"
    and "encodeManifest vn (manifest_of k (pkey (st_prefix s) d k) content) = Inr enc"
  defines "hs' \<equiv> (hd hs)(mkey vn (st_prefix s) k \<mapsto> enc) # hs"
  shows "grants vn (st_prefix s) d (blob_added k content) hs hs'" "tried vn (st_prefix s) d n k hs'"
    "put_told vn (st_prefix s) n k content hs' None"
proof -
  let ?p = "st_prefix s" and ?mk = "mkey vn (st_prefix s) k" and ?m = "manifest_of k (pkey (st_prefix s) d k) content"
  note lay = layouts [OF settingD(1) [OF assms(1)]]
  have begun: "begun vn ?p n hs" and sound: "sound vn ?p hs" and unnamed: "\<not> named vn ?p hs (pkey ?p d k)"
    and at: "hd hs (pkey ?p d k) = Some content"
    using assms(3) by (auto simp: staged_payload_def begun_def)
  have m: "digest_ok ?m" "Size ?m \<le> max_int64" "PayloadKey ?m = pkey ?p d k"
    using assms(2) by (simp_all add: manifest_of_def digest_ok_def)
  from parse_encode [OF assms(6) m(1,2)] have parse: "parse_manifest vn enc = Inr ?m" by simp
  have len: "length enc \<le> maxManifestBytes"
    using encodeManifest_length [OF assms(6) m(1)] assms(6) by (auto simp: inr_iff)
  have free: "\<forall>mk \<in> set (layout_keys vn ?p k). hd hs mk = None"
    using assms(4,5) by (subst lay(1)) simp
  have new: "complete vn ?p (hd hs) k enc ?m content"
    using parse len at pkey_matches [OF settingD(2) [OF assms(1)], of ?p k]
    by (simp add: complete_def) (simp add: manifest_of_def)
  note step = publish_step [OF sound free lay(2,7) new _ m(3), unfolded m(3), OF unnamed, folded hs'_def]
  show "grants vn ?p d (blob_added k content) hs hs'" by (rule step(1))
  have begun': "begun vn ?p n hs'" using step(2) begun by (simp add: hs'_def begun_def)
  have "mk = ?mk" if "manifest_at vn ?p (hd hs') mk m'" "PayloadKey m' = pkey ?p d k" for mk m'
    using that step(3) [of mk m'] named_now [OF sound] unnamed
    by (auto simp: hs'_def names_payload_def split: if_splits)
  with begun' show "tried vn ?p d n k hs'" unfolding tried_def by blast
  have "manifest_at vn ?p (hd hs') ?mk ?m" using step(3) by (simp add: hs'_def)
  from told_read [OF _ resembles_now [OF begun' lay(2) this], of content "pkey ?p d k"]
  show "put_told vn ?p n k content hs' None" by (simp add: manifest_of_def manifestsMatch_def)
qed

lemma triple_publish_sent:
  assumes "setting vn s d k" "int (length content) \<le> max_int64"
    and "encodeManifest vn (manifest_of k (pkey (st_prefix s) d k) content) = Inr enc"
  shows "triple vn s d (blob_added k content)
    (\<lambda>hs. staged_payload vn (st_prefix s) d n k content hs \<and> (\<forall>mk \<in> old_layout vn (st_prefix s) k. hd hs mk = None))
    (publishManifest s c (mkey vn (st_prefix s) k) enc)
    (\<lambda>hs x. tried vn (st_prefix s) d n k hs \<and> fst x = (snd x = None)
      \<and> (snd x = None \<longrightarrow> put_told vn (st_prefix s) n k content hs None))"
proof -
  let ?p = "st_prefix s" and ?mk = "mkey vn (st_prefix s) k" and ?E = "blob_added k content"
    and ?P = "\<lambda>hs. staged_payload vn (st_prefix s) d n k content hs
      \<and> (\<forall>mk \<in> old_layout vn (st_prefix s) k. hd hs mk = None)"
    and ?M = "\<lambda>hs (x :: bool \<times> err option). tried vn (st_prefix s) d n k hs \<and> fst x = (snd x = None)
      \<and> (snd x = None \<longrightarrow> put_told vn (st_prefix s) n k content hs None)"
  define i where "i = applyEncryption s \<lparr>pi_bucket = ro_bucket (st_options s), pi_key = ?mk,
    pi_body = enc, pi_length = int (length enc), pi_if_none_match = Some ''*'', pi_sse = None,
    pi_kms = None\<rparr>"
  have i: "pi_bucket i = ro_bucket (st_options s)" "pi_key i = ?mk" "pi_body i = enc"
    "pi_if_none_match i = Some ''*''" by (simp_all add: i_def applyEncryption_def)
  have P: "stable vn ?p d ?P"
    unfolding Ball_def by (intro stable_and stable_staged kept_all kept_imp kept_legacy) simp
  have M: "stable vn ?p d (\<lambda>hs. ?M hs x)" for x by (intro stable_and stable_tried kept_rules kept_put_told)
  have "grants vn ?p d ?E hs (ob # hs) \<and> ?M (ob # hs) (as_err r = None, as_err r)"
    if hs: "?P hs" and step: "shaky_step d (hd hs) (PutObject c i) r ob" for hs r ob
  proof (cases "ob = hd hs")
    case True
    have staged: "staged_payload vn ?p d n k content hs" using hs by blast
    then have "tried vn ?p d n k hs"
      using staged_unnamed [OF staged] by (auto simp: staged_payload_def tried_def unnamed_def names_payload_def)
    with kept_quiet [OF stableD(2) [OF stable_tried]] have "tried vn ?p d n k (hd hs # hs)"
      by (auto simp: tried_def begun_def)
    moreover have "hd hs \<noteq> (hd hs)(?mk \<mapsto> enc)" if "hd hs ?mk = None"
      using that by (metis fun_upd_same option.distinct(1))
    ultimately show ?thesis using step i True grants_quiet by auto
  next
    case False
    with step i have free: "hd hs ?mk = None" and ob: "ob = (hd hs)(?mk \<mapsto> enc)" by auto
    from publish_staged [OF assms(1,2) conjunct1 [OF hs] conjunct2 [OF hs] free assms(3)] step i ob False
    show ?thesis by (auto simp del: fun_upd_apply)
  qed
  with i show ?thesis
    unfolding publishManifest_def Let_def i_def [symmetric] by (intro triple_call [OF P M]) simp_all
qed

lemma triple_publish:
  assumes "setting vn s d k" "int (length content) \<le> max_int64"
    and "encodeManifest vn (manifest_of k (pkey (st_prefix s) d k) content) = Inr enc"
  shows "triple vn s d (blob_added k content)
    (\<lambda>hs. staged_payload vn (st_prefix s) d n k content hs \<and> (\<forall>mk \<in> old_layout vn (st_prefix s) k. hd hs mk = None))
    (put_publish vn s c k (mkey vn (st_prefix s) k) (pkey (st_prefix s) d k)
       (manifest_of k (pkey (st_prefix s) d k) content) enc)
    (ended vn (st_prefix s) d n k content)"
proof -
  let ?p = "st_prefix s" and ?E = "blob_added k content" and ?Q = "ended vn (st_prefix s) d n k content"
    and ?M = "\<lambda>hs (x :: bool \<times> err option). tried vn (st_prefix s) d n k hs \<and> fst x = (snd x = None)
      \<and> (snd x = None \<longrightarrow> put_told vn (st_prefix s) n k content hs None)"
  have M: "stable vn ?p d (\<lambda>hs. ?M hs x)" for x by (intro stable_and stable_tried kept_rules kept_put_told)
  have resolve: "triple vn s d ?E (\<lambda>hs. ?M hs x) (resolve_publish vn s c k (mkey vn ?p k) (pkey ?p d k)
      (manifest_of k (pkey ?p d k) content) operation) ?Q" for operation x
    by (rule triple_pre [OF triple_resolve [OF settingD(1) [OF assms(1)]]]) simp
  have won: "triple vn s d ?E (\<lambda>hs. ?M hs (created, None)) (Ret (None, False)) ?Q" for created
    by (rule triple_Ret [OF M]) (simp add: ended_def tried_def)
  show ?thesis
    unfolding put_publish_def
    by (rule triple_bind [OF triple_publish_sent [OF assms]],
        intro triple_case_prod triple_case_option triple_if; simp only: resolve won)
qed

section \<open>Verifying\<close>

lemma copy_range_bland: "copy_range out n = Inl e \<Longrightarrow> bland e"
  by (auto simp: copy_range_def split: option.splits prod.splits if_splits)

lemma triple_verify_ranges:
  assumes "stable vn (st_prefix s) d P"
  shows "triple vn s d E P (verify_ranges s c key sz digest etag offset hashed)
    (\<lambda>hs v. P hs \<and> (\<forall>e. v = Some e \<longrightarrow> bland e))"
proof (induction "nat (sz - offset)" arbitrary: offset hashed rule: less_induct)
  case less
  show ?case
  proof (cases "offset < sz")
    case False
    then show ?thesis
      by (subst verify_ranges.simps) (auto intro!: triple_Ret [OF assms])
  next
    case True
    define stop where "stop = min (offset + verificationRangeBytes - 1) (sz - 1)"
    have rest: "triple vn s d E P (verify_ranges s c key sz digest etag
        (offset + verificationRangeBytes) (hashed @ written)) (\<lambda>hs v. P hs \<and> (\<forall>e. v = Some e \<longrightarrow> bland e))"
      for written
      using True by (intro less.hyps) (simp add: verificationRangeBytes_def)
    have get: "triple vn s d E P (call (GetObject c (payload_range s key offset stop etag)) as_get)
        (\<lambda>hs out. P hs \<and> True)"
      by (rule triple_quiet [OF assms]) (auto simp: payload_range_def)
    have fail: "triple vn s d E (\<lambda>hs. P hs \<and> True) (pbind (ctx_or c (BackendError t)) (\<lambda>x. Ret (Some x)))
        (\<lambda>hs v. P hs \<and> (\<forall>e. v = Some e \<longrightarrow> bland e))" for t
      by (rule triple_fail) (simp_all add: assms)
    have bad: "triple vn s d E (\<lambda>hs. P hs \<and> True) (Ret (Some e)) (\<lambda>hs v. P hs \<and> (\<forall>e. v = Some e \<longrightarrow> bland e))"
      if "copy_range out l = Inl e" for out l e
      by (rule triple_Ret) (use assms copy_range_bland [OF that] in simp_all)
    show ?thesis
      unfolding verify_ranges.simps [of s c key sz _ _ offset] Let_def stop_def [symmetric] if_P [OF True]
      by (rule triple_bind [OF get], intro triple_case_sum)
        (rule fail, erule bad, rule triple_pre [OF rest], simp)
  qed
qed

lemma triple_verifyPayload:
  assumes "stable vn (st_prefix s) d P"
  shows "triple vn s d E P (verifyPayload s c key sz digest) (\<lambda>hs v. P hs \<and> (\<forall>e. v = Some e \<longrightarrow> bland e))"
proof -
  have head: "triple vn s d E P (call (HeadObject c (object_at s key)) as_head) (\<lambda>hs h. P hs \<and> True)"
    by (rule triple_quiet [OF assms]) (auto simp: object_at_def)
  show ?thesis
    unfolding verifyPayload_def
    by (rule triple_bind [OF head], intro triple_case_sum triple_if)
      (auto intro!: triple_fail [OF assms] triple_Ret [OF assms] triple_verify_ranges [OF assms])
qed

section \<open>Uploading\<close>

lemma ended_bland:
  "begun vn p n hs \<Longrightarrow> bland x \<Longrightarrow> (safe \<Longrightarrow> unnamed vn p (pkey p d k) hs) \<Longrightarrow>
   ended vn p d n k content hs (Some x, safe)"
  by (simp add: ended_def told_bland)

lemma triple_settled:
  assumes "setting vn s d k" "int (length content) \<le> max_int64"
    and "encodeManifest vn (manifest_of k (pkey (st_prefix s) d k) content) = Inr enc"
  shows "triple vn s d (blob_added k content) (staged_payload vn (st_prefix s) d n k content)
    (pbind (settleAgainstLegacyManifest vn s c k (manifest_of k (pkey (st_prefix s) d k) content)) (\<lambda>(settled, e).
       if settled \<or> e \<noteq> None then Ret (e, True)
       else put_publish vn s c k (mkey vn (st_prefix s) k) (pkey (st_prefix s) d k)
         (manifest_of k (pkey (st_prefix s) d k) content) enc))
    (ended vn (st_prefix s) d n k content)"
proof -
  let ?p = "st_prefix s" and ?m = "manifest_of k (pkey (st_prefix s) d k) content"
    and ?Q = "ended vn (st_prefix s) d n k content"
  let ?S = "staged_payload vn ?p d n k content"
    and ?P = "\<lambda>hs x. staged_payload vn ?p d n k content hs
      \<and> (if fst x then put_told vn ?p n k content hs (snd x)
         else snd x = None \<and> (\<forall>mk \<in> old_layout vn ?p k. hd hs mk = None))"
  have settle: "triple vn s d (blob_added k content) ?S (settleAgainstLegacyManifest vn s c k ?m) ?P"
    by (rule triple_settle [OF settingD(1) [OF assms(1)] stable_staged]) (simp add: staged_payload_def)
  have P: "stable vn ?p d (\<lambda>hs. ?P hs x)" for x
  proof (rule stable_and [OF stable_staged])
    have "kept vn ?p d (\<lambda>hs. \<forall>mk \<in> old_layout vn ?p k. hd hs mk = None)"
      unfolding Ball_def by (intro kept_all kept_imp kept_legacy) simp
    then show "kept vn ?p d (\<lambda>hs. if fst x then put_told vn ?p n k content hs (snd x)
      else snd x = None \<and> (\<forall>mk \<in> old_layout vn ?p k. hd hs mk = None))"
      by (cases "fst x") (simp_all add: kept_put_told kept_conj)
  qed
  have settled: "triple vn s d (blob_added k content) (\<lambda>hs. ?P hs x) (Ret (e, True)) ?Q"
    if "x = (was, e)" "was \<or> e \<noteq> None" for x e was
    by (rule triple_Ret [OF P])
      (use that staged_unnamed in \<open>auto simp: ended_def staged_payload_def split: if_splits\<close>)
  have publish: "triple vn s d (blob_added k content) (\<lambda>hs. ?P hs x)
      (put_publish vn s c k (mkey vn ?p k) (pkey ?p d k) ?m enc) ?Q"
    if "x = (was, e)" "\<not> (was \<or> e \<noteq> None)" for x e was
    by (rule triple_pre [OF triple_publish [OF assms]]) (use that in auto)
  show ?thesis
    by (rule triple_bind [OF settle], intro triple_case_prod triple_if) (erule settled publish, assumption)+
qed

lemma triple_uploaded:
  assumes "setting vn s d k" "int (length content) \<le> ro_maxAccountedObjectSize (st_options s)"
  shows "triple vn s d (blob_added k content) (staged_payload vn (st_prefix s) d n k content)
    (put_uploaded vn s c k (mkey vn (st_prefix s) k) (pkey (st_prefix s) d k) len (int (length content)) (sum256 content))
    (ended vn (st_prefix s) d n k content)"
proof -
  let ?p = "st_prefix s" and ?m = "manifest_of k (pkey (st_prefix s) d k) content"
    and ?P = "staged_payload vn (st_prefix s) d n k content" and ?Q = "ended vn (st_prefix s) d n k content"
    and ?E = "blob_added k content"
  have size: "int (length content) \<le> max_int64" using assms by (simp add: setting_def)
  obtain enc where enc: "encodeManifest vn ?m = Inr enc"
    using assms(1) size own_payload_key_valid [OF _ _ _ settingD(3) [OF assms(1)]]
    by (auto simp: setting_def key_ok_def encodeManifest_Inr manifest_of_def limits)
  have bad: "triple vn s d ?E (\<lambda>hs. ?P hs \<and> A) (Ret (Some e, True)) ?Q" if "A \<Longrightarrow> bland e" for e A
    by (rule triple_Ret [OF stable_and [OF stable_staged kept_const]])
      (use that staged_unnamed in \<open>auto simp: staged_payload_def intro!: ended_bland\<close>)
  have verified: "triple vn s d ?E (\<lambda>hs. ?P hs \<and> (\<forall>e. v = Some e \<longrightarrow> bland e))
      (pbind (settleAgainstLegacyManifest vn s c k ?m) (\<lambda>(settled, e).
         if settled \<or> e \<noteq> None then Ret (e, True)
         else put_publish vn s c k (mkey vn ?p k) (pkey ?p d k) ?m enc)) ?Q" for v :: "err option"
    by (rule triple_pre [OF triple_settled [OF assms(1) size enc]]) simp
  have short: "triple vn s d ?E ?P (Ret (Some (integrityError ''upload length''), True)) ?Q"
    using bad [of True "integrityError ''upload length''"] by simp
  show ?thesis
    unfolding put_uploaded_def manifest_of_def [symmetric] Let_def enc sum.case
    by (intro triple_if triple_bind [OF triple_verifyPayload [OF stable_staged]] triple_case_option)
      (rule short, rule verified, rule bad, simp)
qed

text \<open>What an upload leaves: the whole source if it was acknowledged, anything or nothing otherwise.\<close>

lemma uploaded_content:
  assumes "0 \<le> ro_maxAccountedObjectSize (st_options s)" "clean src"
    and "shaky_step d ob (UploadObject c (upload_of s pk src)) r ob'"
  obtains e ns where "r = RUpload (Inl e) ns" "ob' = ob \<or> (\<exists>b. ob' = ob(pk \<mapsto> b))"
  | len ns where "r = RUpload (Inr len) ns" "ob' = ob(pk \<mapsto> script_bytes src)"
    "int (length (script_bytes src)) \<le> ro_maxAccountedObjectSize (st_options s)"
    "acc_size (read_by_upload (upload_of s pk src) ns) = int (length (script_bytes src))"
    "fst (accounted_digest (read_by_upload (upload_of s pk src) ns)) = sum256 (script_bytes src)"
proof -
  let ?u = "upload_of s pk src" and ?max = "ro_maxAccountedObjectSize (st_options s)"
  have u: "acc_source (ui_body ?u) = src" "acc_hash (ui_body ?u) = []" "acc_maximum (ui_body ?u) = ?max"
    "accounted_ok (ui_body ?u)" "ui_key ?u = pk"
    using accounted_ok_new [OF assms(1), of src]
    by (simp_all add: newAccountedHashReader_def upload_of_def applyTransferEncryption_def)
  from assms(3) obtain up ns where r: "r = RUpload up ns"
    and ans: "case up of
        Inr len \<Rightarrow> ob pk = None
          \<and> (\<exists>bs es rest. read_seq (accounted_read script_read) (ui_body ?u) ns = ((bs, es @ [Some EOF]), rest)
              \<and> set es \<subseteq> {None} \<and> ob' = ob(pk \<mapsto> bs))
      | Inl e \<Rightarrow> ob' = ob \<or> (ob pk = None \<and> (\<exists>b. ob' = ob(pk \<mapsto> b)))"
    unfolding shaky_step.simps upload_answer_def u(5) by blast
  show thesis
  proof (cases up)
    case (Inl e)
    with r ans that(1) show ?thesis by auto
  next
    case (Inr len)
    with ans obtain bs es rest where seq:
      "read_seq (accounted_read script_read) (ui_body ?u) ns = ((bs, es @ [Some EOF]), rest)"
      "set es \<subseteq> {None}" and ob': "ob' = ob(pk \<mapsto> bs)" by auto
    from accounted_seq_clean [OF _ u(4) seq(2,1)] assms(2) u
    have bs: "bs = script_bytes src" by (auto split: if_splits)
    with upload_content [OF assms(1), of bs pk src ns] seq(1) r Inr ob' that(2) show ?thesis by simp
  qed
qed

text \<open>What the call knows once its upload has an answer.\<close>

definition upload_told ::
    "name_validator \<Rightarrow> store \<Rightarrow> bytes \<Rightarrow> nat \<Rightarrow> string \<Rightarrow> script \<Rightarrow> hist \<Rightarrow> int option result \<times> nat list \<Rightarrow> bool"
  where
  "upload_told vn s d n k src hs x \<longleftrightarrow>
     (case x of (up, ns) \<Rightarrow>
        case up of
          Inl e \<Rightarrow> unnamed vn (st_prefix s) (pkey (st_prefix s) d k) hs
        | Inr len \<Rightarrow> staged_payload vn (st_prefix s) d n k (script_bytes src) hs
            \<and> int (length (script_bytes src)) \<le> ro_maxAccountedObjectSize (st_options s)
            \<and> acc_size (read_by_upload (upload_of s (pkey (st_prefix s) d k) src) ns)
                = int (length (script_bytes src))
            \<and> fst (accounted_digest (read_by_upload (upload_of s (pkey (st_prefix s) d k) src) ns))
                = sum256 (script_bytes src))"

lemma stable_upload_told:
  "stable vn (st_prefix s) d (\<lambda>hs. begun vn (st_prefix s) n hs \<and> upload_told vn s d n k src hs x)"
  unfolding upload_told_def
  by (intro stable_and stable_begun kept_rules kept_unnamed stableD(2) [OF stable_staged])

lemma triple_upload:
  assumes "setting vn s d k" "clean src"
  shows "triple vn s d E (blank vn (st_prefix s) d n)
    (call (UploadObject c (upload_of s (pkey (st_prefix s) d k) src)) as_upload)
    (\<lambda>hs x. begun vn (st_prefix s) n hs \<and> upload_told vn s d n k src hs x)"
proof (rule triple_call [OF stable_blank stable_upload_told])
  let ?p = "st_prefix s" and ?pk = "pkey (st_prefix s) d k"
  show "confined (ro_bucket (st_options s)) (UploadObject c (upload_of s ?pk src))"
    by (simp add: upload_of_def applyTransferEncryption_def)
  fix hs r ob
  assume blank: "blank vn ?p d n hs" and sent: "shaky_step d (hd hs) (UploadObject c (upload_of s ?pk src)) r ob"
  then have begun: "begun vn ?p n hs" and sound: "sound vn ?p hs" and new: "\<not> named vn ?p hs ?pk"
    by (auto simp: blank_def begun_def)
  have free: "unnamed vn ?p ?pk hs" by (rule unnamed_named [OF sound new])
  have own: "named vn ?p hs ?pk \<or> (\<exists>k'. ?pk = pkey ?p d k')" by blast
  note step = payload_step [OF sound free pkey_not_root [OF settingD(2) [OF assms(1)]] own]
  have put: "grants vn ?p d E hs ((hd hs)(?pk := y) # hs)" "unnamed vn ?p ?pk ((hd hs)(?pk := y) # hs)"
    "begun vn ?p n ((hd hs)(?pk := y) # hs)" "\<not> named vn ?p ((hd hs)(?pk := y) # hs) ?pk" for y
    using step free new begun
    by (auto simp: begun_def simp del: sound.simps named_simps)
  have max: "0 \<le> ro_maxAccountedObjectSize (st_options s)" using assms(1) by (simp add: setting_def)
  from max assms(2) sent show "grants vn ?p d E hs (ob # hs)
      \<and> begun vn ?p n (ob # hs) \<and> upload_told vn s d n k src (ob # hs) (as_upload r)"
  proof (cases rule: uploaded_content)
    case (1 e ns)
    then have "\<exists>y. ob = (hd hs)(?pk := y)" by (metis fun_upd_triv)
    with put 1(1) show ?thesis by (auto simp: upload_told_def simp del: fun_upd_apply)
  next
    case (2 len ns)
    with put show ?thesis by (simp add: upload_told_def staged_payload_def del: named_simps)
  qed
qed

lemma triple_staged:
  assumes "setting vn s d k" "clean src"
  shows "triple vn s d (blob_added k (script_bytes src)) (blank vn (st_prefix s) d n)
    (put_staged vn s c k (mkey vn (st_prefix s) k) (pkey (st_prefix s) d k) src)
    (ended vn (st_prefix s) d n k (script_bytes src))"
proof -
  let ?p = "st_prefix s" and ?pk = "pkey (st_prefix s) d k" and ?content = "script_bytes src"
  let ?u = "upload_of s ?pk src" and ?Q = "ended vn ?p d n k ?content" and ?E = "blob_added k ?content"
    and ?P = "\<lambda>hs x. begun vn ?p n hs \<and> upload_told vn s d n k src hs x"
  have fail: "triple vn s d ?E (\<lambda>hs. ?P hs (Inl e, ns))
      (pbind (ctx_or c (BackendError ''payload upload'')) (\<lambda>x. Ret (Some x, False))) ?Q" for e ns
    by (rule triple_fail [OF stable_upload_told]) (auto intro: ended_bland)
  have large: "triple vn s d ?E (\<lambda>hs. ?P hs (Inl e, ns)) (Ret (Some (ObjectTooLargeError m), False)) ?Q" for e ns m
    by (rule triple_Ret [OF stable_upload_told]) (auto intro: ended_bland)
  have acknowledged: "triple vn s d ?E (\<lambda>hs. ?P hs (Inr len, ns)) (put_uploaded vn s c k (mkey vn ?p k) ?pk len
      (acc_size (read_by_upload ?u ns)) (fst (accounted_digest (read_by_upload ?u ns)))) ?Q" for len ns
  proof (cases "int (length ?content) \<le> ro_maxAccountedObjectSize (st_options s)
      \<and> acc_size (read_by_upload ?u ns) = int (length ?content)
      \<and> fst (accounted_digest (read_by_upload ?u ns)) = sum256 ?content")
    case True
    then have at: "acc_size (read_by_upload ?u ns) = int (length ?content)"
      "fst (accounted_digest (read_by_upload ?u ns)) = sum256 ?content" by blast+
    show ?thesis
      unfolding at
      by (rule triple_pre [OF triple_uploaded [OF assms(1)]]) (use True in \<open>auto simp: upload_told_def\<close>)
  next
    case False
    then show ?thesis by (intro triple_never) (auto simp: upload_told_def)
  qed
  show ?thesis
    unfolding put_staged_def Let_def
    by (rule triple_bind [OF triple_upload [OF assms]],
        intro triple_case_prod triple_case_sum triple_case_option)
      (simp_all only: fail large acknowledged)
qed

section \<open>Put\<close>

abbreviation put_done ::
    "name_validator \<Rightarrow> store \<Rightarrow> nat \<Rightarrow> string \<Rightarrow> bytes \<Rightarrow> hist \<Rightarrow> err option \<Rightarrow> bool" where
  "put_done vn s n k content hs e \<equiv> begun vn (st_prefix s) n hs \<and> put_told vn (st_prefix s) n k content hs e"

lemma stable_put_done: "stable vn (st_prefix s) d (\<lambda>hs. put_done vn s n k content hs e)"
  by (intro stable_and stable_begun kept_put_told)

text \<open>An unnamed payload may be removed: by the call whose it is, or because it was named once.\<close>

lemma triple_discard:
  assumes "stable vn (st_prefix s) d P" "\<not> has_prefix pk (manifest_root (st_prefix s))"
    and "stable vn (st_prefix s) d R"
    and "\<And>hs. P hs \<Longrightarrow> unnamed vn (st_prefix s) pk hs
      \<and> (named vn (st_prefix s) hs pk \<or> (\<exists>k. pk = pkey (st_prefix s) d k))"
    and "\<And>hs y. P hs \<Longrightarrow> sound vn (st_prefix s) ((hd hs)(pk := y) # hs) \<Longrightarrow> R ((hd hs)(pk := y) # hs)"
  shows "triple vn s d E P (deletePayloadBestEffort s c pk) (\<lambda>hs _. R hs)"
  unfolding deletePayloadBestEffort_def
proof (rule triple_call [OF assms(1,3)])
  fix hs r ob assume P: "P hs" and sent: "shaky_step d (hd hs) (DeleteObject c (object_at s pk)) r ob"
  from sent have "\<exists>y. ob = (hd hs)(pk := y)" by (auto simp: object_at_def intro: exI [of _ "hd hs pk"])
  then obtain y where ob: "ob = (hd hs)(pk := y)" ..
  note P' = conjunct1 [OF assms(4) [OF P]] conjunct2 [OF assms(4) [OF P]]
  note step = payload_step [OF stableD(1) [OF assms(1) P] P'(1) assms(2) P'(2)]
  from step(1) assms(5) [OF P step(3)] show "grants vn (st_prefix s) d E hs (ob # hs) \<and> R (ob # hs)"
    unfolding ob by blast
qed (simp add: object_at_def)

lemma triple_cleanup:
  assumes "setting vn s d k"
  shows "triple vn s d E (\<lambda>hs. ended vn (st_prefix s) d n k content hs (e, safe))
    (put_cleanup s c (pkey (st_prefix s) d k) safe) (\<lambda>hs _. put_done vn s n k content hs e)"
proof (cases safe)
  case False
  then show ?thesis
    by (auto simp: put_cleanup_def ended_def intro!: triple_Ret [OF stable_put_done])
next
  case True
  let ?p = "st_prefix s" and ?pk = "pkey (st_prefix s) d k"
  let ?P = "\<lambda>hs. ended vn ?p d n k content hs (e, True)" and ?Q = "\<lambda>hs _. put_done vn s n k content hs e"
  have told: "put_done vn s n k content (x # hs) e" if "?P hs" "sound vn ?p (x # hs)" for x hs
    using that within_later [of n hs _ "[x]"]
    by (auto simp: ended_def put_told_def begun_def simp del: sound.simps split: option.splits)
  have discard: "triple vn s d E ?P (deletePayloadBestEffort s c ?pk) ?Q"
  proof (rule triple_discard [OF stable_ended pkey_not_root [OF settingD(2) [OF assms]] stable_put_done])
    show "put_done vn s n k content ((hd hs)(?pk := y) # hs) e"
      if "?P hs" "sound vn ?p ((hd hs)(?pk := y) # hs)" for hs y using that by (rule told)
  qed (auto simp: ended_def)
  have keep: "triple vn s d E ?P (Ret ()) ?Q"
    by (rule triple_Ret [OF stable_ended]) (simp add: ended_def)
  have "triple vn s d E (\<lambda>hs. ?P hs \<and> A)
      (if x = None then deletePayloadBestEffort s c ?pk else Ret ()) ?Q" for x :: "err option" and A
    using discard keep by (cases "x = None") (auto intro: triple_pre)
  with True show ?thesis
    unfolding put_cleanup_def
    by (simp only: if_True) (rule triple_bind [OF triple_ctx_Err [OF stable_ended]])
qed

lemma triple_holding:
  assumes "setting vn s d k" "clean src"
  shows "triple vn s d (blob_added k (script_bytes src)) (blank vn (st_prefix s) d n) (put_holding vn s c k src)
    (put_done vn s n k (script_bytes src))"
proof -
  let ?p = "st_prefix s" and ?mk = "mkey vn (st_prefix s) k" and ?pk = "pkey (st_prefix s) d k"
    and ?content = "script_bytes src"
  let ?E = "blob_added k ?content" and ?Q = "put_done vn s n k ?content" and ?P = "blank vn ?p d n"
    and ?A = "\<lambda>p :: string result. p = Inr ?pk \<or> (\<exists>e. p = Inl e \<and> bland e)"
  have names: "vn ?p = None" "vn k = None" using assms(1) by (simp_all add: setting_def key_ok_def)
  then have "newPayloadObjectKey vn None ?p k = Inl (BackendError ''payload identity'')"
    by (simp add: newPayloadObjectKey_def)
  then have draw: "triple vn s d ?E ?P (draw_payload_key vn s k) (\<lambda>hs p. ?P hs \<and> ?A p)"
    using settingD(3) [OF assms(1)] names
    by (auto simp: draw_payload_key_def intro!: triple_quiet [OF stable_blank])
  have failed: "triple vn s d ?E (\<lambda>hs. ?P hs \<and> ?A (Inl e)) (Ret (Some e)) ?Q" for e
    by (rule triple_Ret [OF stable_and [OF stable_blank kept_const]]) (auto simp: blank_def told_bland)
  have ended: "triple vn s d ?E (\<lambda>hs. ended vn ?p d n k ?content hs x)
      (case x of (e, safe) \<Rightarrow> pbind (put_cleanup s c ?pk safe) (\<lambda>_. Ret e)) ?Q" for x
    by (rule triple_case_prod, erule ssubst)
      (rule triple_bind [OF triple_cleanup [OF assms(1)]], rule triple_Ret [OF stable_put_done])
  have body: "triple vn s d ?E (\<lambda>hs. ?P hs \<and> ?A (Inr key))
      (pbind (put_staged vn s c k ?mk key src) (\<lambda>(e, safe). pbind (put_cleanup s c key safe) (\<lambda>_. Ret e))) ?Q" for key
  proof (cases "key = ?pk")
    case True
    show ?thesis
      unfolding True by (rule triple_pre [OF triple_bind [OF triple_staged [OF assms] ended]]) simp
  qed (auto intro: triple_never)
  show ?thesis
    unfolding put_holding_def layouts(4) [OF settingD(1) [OF assms(1)]] sum.case
    by (rule triple_bind [OF draw], rule triple_case_sum) (simp_all only: failed body)
qed

lemma triple_Put:
  assumes "setting vn s d k" "clean src"
  shows "triple vn s d (blob_added k (script_bytes src)) (blank vn (st_prefix s) d n)
    (Put vn s (Some c) k (Some src)) (put_done vn s n k (script_bytes src))"
proof -
  let ?p = "st_prefix s" and ?content = "script_bytes src"
  let ?E = "blob_added k ?content" and ?Q = "put_done vn s n k ?content" and ?P = "blank vn ?p d n"
  have key: "validateBlobKey vn k = None"
    using assms(1) by (simp add: setting_def key_ok_def validateBlobKey_def)
  have bounded: "triple vn s d ?E ?P (put_bounded vn s b k (Some src)) ?Q" if "ctx_deadline b \<noteq> NoDeadline" for b
    unfolding put_bounded_def key option.case
  proof (rule triple_holding_slot [OF stable_blank that])
    show "triple vn s d ?E ?P (pbind (put_holding vn s b k src) (\<lambda>e. pbind releaseTransfer (\<lambda>_. Ret e))) ?Q"
      by (rule triple_release [where f = "\<lambda>e. e", OF triple_holding [OF assms] stable_put_done])
    show "triple vn s d ?E ?P (Ret (Some e)) ?Q" if "bland e" for e
      by (rule triple_Ret [OF stable_blank]) (use that in \<open>simp add: blank_def told_bland\<close>)
  qed
  show ?thesis
    unfolding Put_def
  proof (rule triple_guarded [OF stable_blank])
    show "triple vn s d ?E ?P (pbind (put_bounded vn s b k (Some src)) (\<lambda>e. pbind (cancel i) (\<lambda>_. Ret e))) ?Q"
      if "ctx_deadline b \<noteq> NoDeadline" for b i
      by (rule triple_cancel [where f = "\<lambda>e. e", OF bounded [OF that] stable_put_done])
  qed
qed

section \<open>Delete\<close>

definition delete_told :: "name_validator \<Rightarrow> string \<Rightarrow> nat \<Rightarrow> string \<Rightarrow> hist \<Rightarrow> err option \<Rightarrow> bool" where
  "delete_told vn p n k hs e \<longleftrightarrow>
     (case e of None \<Rightarrow> within n hs (\<lambda>ob. blobs vn p ob k = None) | Some x \<Rightarrow> bland x)"

abbreviation delete_done :: "name_validator \<Rightarrow> store \<Rightarrow> nat \<Rightarrow> string \<Rightarrow> hist \<Rightarrow> err option \<Rightarrow> bool" where
  "delete_done vn s n k hs e \<equiv> begun vn (st_prefix s) n hs \<and> delete_told vn (st_prefix s) n k hs e"

lemma stable_delete_done: "stable vn (st_prefix s) d (\<lambda>hs. delete_done vn s n k hs e)"
  unfolding delete_told_def by (cases e) (simp_all add: stable_and)

text \<open>A payload named at \<open>mk\<close>, and nowhere else as long as it is named at all.\<close>

definition doomed :: "name_validator \<Rightarrow> string \<Rightarrow> string \<Rightarrow> string \<Rightarrow> hist \<Rightarrow> bool" where
  "doomed vn p mk pk hs \<longleftrightarrow> named vn p hs pk
     \<and> (\<forall>mk' m. manifest_at vn p (hd hs) mk' m \<and> PayloadKey m = pk \<longrightarrow> mk' = mk)"

lemma kept_doomed: "kept vn p d (doomed vn p mk pk)"
  unfolding kept_def
proof (intro allI impI; elim conjE)
  fix hs hs' assume h: "doomed vn p mk pk hs" "sound vn p hs" "disturbs vn p d hs hs'"
  then have "named vn p hs' pk" using named_append by (auto simp: disturbs_def doomed_def)
  moreover have "mk' = mk" if "manifest_at vn p (hd hs') mk' m" "PayloadKey m = pk" for mk' m
    using disturbed_manifest [OF h(3,2) _ that(1)] h(1) that(2) unfolding doomed_def by blast
  ultimately show "doomed vn p mk pk hs'" unfolding doomed_def by blast
qed

lemma doomed_now:
  assumes "sound vn p hs" "manifest_at vn p (hd hs) mk m"
  shows "doomed vn p mk (PayloadKey m) hs" "\<not> has_prefix (PayloadKey m) (manifest_root p)"
proof -
  have "names_payload vn p (hd hs) (PayloadKey m)" using assms(2) by (auto simp: names_payload_def)
  from named_now [OF assms(1) this] manifest_at_only [OF sound_now [OF assms(1)] _ assms(2)]
  show "doomed vn p mk (PayloadKey m) hs" by (auto simp: doomed_def)
  show "\<not> has_prefix (PayloadKey m) (manifest_root p)"
    by (rule named_in_place(2) [OF sound_now [OF assms(1)]]) fact
qed

text \<open>
  One row of the loop: \<open>B\<close> held at a moment before, \<open>C\<close> does once the row is known to be absent.
\<close>

lemma triple_unlink:
  assumes "mk \<in> set (layout_keys vn (st_prefix s) k)"
    and absent: "\<And>hs. begun vn (st_prefix s) n hs \<Longrightarrow> within n hs B \<Longrightarrow> hd hs mk = None \<Longrightarrow> within n hs C"
  shows "triple vn s d (blob_removed k)
    (\<lambda>hs. begun vn (st_prefix s) n hs \<and> within n hs B \<and> doomed vn (st_prefix s) mk pk hs)
    (call (DeleteObject c (object_at s mk)) as_err)
    (\<lambda>hs e. begun vn (st_prefix s) n hs \<and>
       (e = None \<longrightarrow> within n hs C \<and> named vn (st_prefix s) hs pk \<and> unnamed vn (st_prefix s) pk hs))"
proof (rule triple_call)
  let ?p = "st_prefix s"
  let ?P = "\<lambda>hs. begun vn ?p n hs \<and> within n hs B \<and> doomed vn ?p mk pk hs"
    and ?Q = "\<lambda>hs e. begun vn ?p n hs \<and> (e = None \<longrightarrow> within n hs C \<and> named vn ?p hs pk \<and> unnamed vn ?p pk hs)"
  show "stable vn ?p d ?P" by (intro stable_and stable_begun kept_conj kept_within kept_doomed)
  show "stable vn ?p d (\<lambda>hs. ?Q hs e)" for e :: "err option"
    by (intro stable_and stable_begun kept_imp kept_conj kept_within kept_named_unnamed)
  show "confined (ro_bucket (st_options s)) (DeleteObject c (object_at s mk))" by (simp add: object_at_def)
  fix hs r ob assume P: "?P hs" and sent: "shaky_step d (hd hs) (DeleteObject c (object_at s mk)) r ob"
  then have begun: "begun vn ?p n hs" and sound: "sound vn ?p hs" by (auto simp: begun_def)
  note step = unpublish_step [OF sound assms(1)]
  let ?hs = "(hd hs)(mk := None) # hs"
  have begun': "begun vn ?p n ?hs" using begun step(2) by (simp add: begun_def del: sound.simps)
  have "within n ?hs C"
    using absent [OF begun'] P within_later [of n hs B "[(hd hs)(mk := None)]"] by simp
  moreover have "unnamed vn ?p pk ?hs"
    using P step(3) by (auto simp: unnamed_def names_payload_def doomed_def)
  moreover have "named vn ?p ?hs pk" using P by (simp add: doomed_def)
  ultimately have gone: "?Q ?hs e" for e using begun' by blast
  from sent consider "ob = (hd hs)(mk := None)" | "ob = hd hs" "as_err r \<noteq> None"
    by (auto simp: object_at_def)
  then show "grants vn ?p d (blob_removed k) hs (ob # hs) \<and> ?Q (ob # hs) (as_err r)"
  proof cases
    case 1
    with step(1) gone show ?thesis by blast
  next
    case 2
    with grants_quiet kept_quiet [OF stableD(2) [OF stable_begun] begun sound] show ?thesis by (simp del: not_None_eq)
  qed
qed

text \<open>A manifest is removed, then its payload, then the rest of the keys are looked at.\<close>

lemma triple_remove:
  assumes mk: "mk \<in> set (layout_keys vn (st_prefix s) k)" and pk: "\<not> has_prefix pk (manifest_root (st_prefix s))"
    and absent: "\<And>hs. begun vn (st_prefix s) n hs \<Longrightarrow> within n hs B \<Longrightarrow> hd hs mk = None \<Longrightarrow> within n hs C"
    and rest: "triple vn s d (blob_removed k) (\<lambda>hs. begun vn (st_prefix s) n hs \<and> within n hs C) q (delete_done vn s n k)"
  shows "triple vn s d (blob_removed k)
    (\<lambda>hs. begun vn (st_prefix s) n hs \<and> within n hs B \<and> doomed vn (st_prefix s) mk pk hs)
    (pbind (call (DeleteObject c (object_at s mk)) as_err) (\<lambda>e.
       case e of
         Some _ \<Rightarrow> pbind (ctx_or c (BackendError ''manifest delete'')) (\<lambda>x. Ret (Some x))
       | None \<Rightarrow> pbind (deletePayloadBestEffort s c pk) (\<lambda>_. q))) (delete_done vn s n k)"
proof -
  let ?p = "st_prefix s" and ?E = "blob_removed k"
    and ?S = "\<lambda>hs (e :: err option). begun vn (st_prefix s) n hs
      \<and> (e = None \<longrightarrow> within n hs C \<and> named vn (st_prefix s) hs pk \<and> unnamed vn (st_prefix s) pk hs)"
  have S: "stable vn ?p d (\<lambda>hs. ?S hs e)" for e
    by (intro stable_and stable_begun kept_imp kept_conj kept_within kept_named_unnamed)
  have discard: "triple vn s d ?E (\<lambda>hs. ?S hs None) (deletePayloadBestEffort s c pk)
      (\<lambda>hs _. begun vn ?p n hs \<and> within n hs C)"
  proof (rule triple_discard [OF S pk])
    show "stable vn ?p d (\<lambda>hs. begun vn ?p n hs \<and> within n hs C)" by (intro stable_and stable_begun kept_within)
    show "begun vn ?p n (x # hs) \<and> within n (x # hs) C"
      if "?S hs None" "sound vn ?p (x # hs)" for x hs
      using that within_later [of n hs C "[x]"] by (simp add: begun_def del: sound.simps)
  qed auto
  have failed: "triple vn s d ?E (\<lambda>hs. ?S hs (Some e))
      (pbind (ctx_or c (BackendError ''manifest delete'')) (\<lambda>x. Ret (Some x))) (delete_done vn s n k)" for e
    by (rule triple_fail [OF S]) (simp_all add: delete_told_def)
  show ?thesis
    by (rule triple_bind [OF triple_unlink [OF mk absent]], assumption+, rule triple_case_option)
      (simp_all only: failed triple_bind [OF discard rest])
qed

lemma triple_delete_row:
  assumes mk: "mk \<in> set (layout_keys vn (st_prefix s) k)"
    and absent: "\<And>hs. begun vn (st_prefix s) n hs \<Longrightarrow> within n hs B \<Longrightarrow> hd hs mk = None \<Longrightarrow> within n hs C"
    and rest: "triple vn s d (blob_removed k) (\<lambda>hs. begun vn (st_prefix s) n hs \<and> within n hs C)
      (delete_in vn s c k True rest) (delete_done vn s n k)"
  shows "triple vn s d (blob_removed k) (\<lambda>hs. begun vn (st_prefix s) n hs \<and> within n hs B)
    (delete_in vn s c k legacy (mk # rest)) (delete_done vn s n k)"
proof -
  let ?p = "st_prefix s" and ?E = "blob_removed k" and ?Q = "delete_done vn s n k"
  let ?P = "\<lambda>hs. begun vn ?p n hs \<and> within n hs B" and ?N = "\<lambda>hs. within n hs C"
    and ?R = "\<lambda>m hs. doomed vn ?p mk (PayloadKey m) hs \<and> \<not> has_prefix (PayloadKey m) (manifest_root ?p)"
  have P: "stable vn ?p d ?P" by (intro stable_and stable_begun kept_within)
  have R: "kept vn ?p d (?R m)" for m by (intro kept_conj kept_doomed kept_const)
  have read: "triple vn s d ?E ?P (readManifestAt vn s c mk k legacy) (\<lambda>hs r. ?P hs \<and> read_tells k ?R ?N hs r)"
    by (rule triple_read [where R = ?R and N = ?N, OF P layout_root [OF mk] R kept_within])
      (use absent doomed_now in \<open>auto dest: begunD(1)\<close>)
  have removed: "triple vn s d ?E (\<lambda>hs. ?P hs \<and> read_tells k ?R ?N hs (Inr m))
      (pbind (call (DeleteObject c (object_at s mk)) as_err) (\<lambda>e.
         case e of
           Some _ \<Rightarrow> pbind (ctx_or c (BackendError ''manifest delete'')) (\<lambda>x. Ret (Some x))
         | None \<Rightarrow> pbind (deletePayloadBestEffort s c (PayloadKey m)) (\<lambda>_. delete_in vn s c k True rest))) ?Q" for m
  proof (cases "has_prefix (PayloadKey m) (manifest_root ?p)")
    case True
    then show ?thesis by (intro triple_never) (simp add: read_tells_def)
  next
    case False
    show ?thesis
      by (rule triple_pre [OF triple_remove [OF mk False absent rest]])
        (assumption | simp only: read_tells_def sum.case simp_thms)+
  qed
  have failed: "triple vn s d ?E (\<lambda>hs. ?P hs \<and> read_tells k ?R ?N hs (Inl e)) (Ret (Some e)) ?Q"
    if "\<not> is_not_found e" for e
    by (rule triple_tells [OF P R kept_within])
      (use that in \<open>auto simp: read_tells_def delete_told_def is_not_found_def\<close>)
  have gone: "triple vn s d ?E (\<lambda>hs. ?P hs \<and> read_tells k ?R ?N hs (Inl e)) (delete_in vn s c k True rest) ?Q"
    if "is_not_found e" for e
    by (rule triple_pre [OF rest]) (use that in \<open>simp add: read_tells_def bland_def\<close>)
  show ?thesis
    unfolding delete_in.simps
    by (rule triple_bind [OF read], intro triple_case_sum triple_if) (simp only: gone, simp only: failed not_False_eq_True, simp only: removed)
qed

text \<open>The current key, then the legacy one where there is one.\<close>

lemma triple_delete_rows:
  assumes "key_ok vn (st_prefix s) k"
  shows "triple vn s d (blob_removed k) (begun vn (st_prefix s) n)
    (delete_in vn s b k False (mkey vn (st_prefix s) k # tl (layout_keys vn (st_prefix s) k))) (delete_done vn s n k)"
proof -
  let ?p = "st_prefix s" and ?mk = "mkey vn (st_prefix s) k" and ?E = "blob_removed k" and ?Q = "delete_done vn s n k"
  note lay = layouts [OF assms]
  have finish: "triple vn s d ?E (\<lambda>hs. begun vn ?p n hs \<and> within n hs (\<lambda>ob. blobs vn ?p ob k = None))
      (delete_in vn s b k legacy []) ?Q" for legacy
    unfolding delete_in.simps
    by (rule triple_Ret) (auto simp: delete_told_def intro: stable_and)
  have "triple vn s d ?E (\<lambda>hs. begun vn ?p n hs \<and> within n hs (\<lambda>_. True))
      (delete_in vn s b k False (?mk # tl (layout_keys vn ?p k))) ?Q"
  proof (cases "tl (layout_keys vn ?p k)")
    case Nil
    show ?thesis
      unfolding Nil
      by (rule triple_delete_row [OF lay(2) absent_within [OF _ assms] finish]) (simp_all add: Nil within_now)
  next
    case (Cons old olds)
    with lay(6) have tl: "tl (layout_keys vn ?p k) = [old]" by (auto split: option.splits)
    then have old: "old \<in> set (layout_keys vn ?p k)" using old_layout_root [of old vn ?p k] by simp
    have "triple vn s d ?E (\<lambda>hs. begun vn ?p n hs \<and> within n hs (\<lambda>ob. ob ?mk = None))
        (delete_in vn s b k True [old]) ?Q"
      by (rule triple_delete_row [OF old absent_within [OF _ assms] finish]) (simp_all add: tl)
    from triple_delete_row [where B = "\<lambda>_. True", OF lay(2) within_now this] show ?thesis
      unfolding tl by simp
  qed
  from triple_pre [OF this] show ?thesis by (simp add: within_now)
qed

lemma triple_Delete:
  assumes "key_ok vn (st_prefix s) k"
  shows "triple vn s d (blob_removed k) (begun vn (st_prefix s) n) (Delete vn s (Some c) k) (delete_done vn s n k)"
proof -
  let ?p = "st_prefix s" and ?mk = "mkey vn (st_prefix s) k" and ?E = "blob_removed k" and ?Q = "delete_done vn s n k"
  have key: "validateBlobKey vn k = None" using assms by (simp add: key_ok_def validateBlobKey_def)
  have candidates: "manifestCandidates vn ?p k = Inr (?mk # tl (layout_keys vn ?p k))"
    using layouts(1,5) [OF assms] by simp
  have bounded: "triple vn s d ?E (begun vn ?p n) (delete_bounded vn s b k) ?Q" if "ctx_deadline b \<noteq> NoDeadline" for b
    unfolding delete_bounded_def key option.case candidates sum.case
  proof (rule triple_holding_slot [OF stable_begun that])
    show "triple vn s d ?E (begun vn ?p n) (pbind (delete_in vn s b k False (?mk # tl (layout_keys vn ?p k)))
        (\<lambda>e. pbind releaseTransfer (\<lambda>_. Ret e))) ?Q"
      by (rule triple_release [where f = "\<lambda>e. e", OF triple_delete_rows [OF assms] stable_delete_done])
    show "triple vn s d ?E (begun vn ?p n) (Ret (Some e)) ?Q" if "bland e" for e
      by (rule triple_Ret [OF stable_begun]) (simp add: that delete_told_def)
  qed
  show ?thesis
    unfolding Delete_def
  proof (rule triple_guarded [OF stable_begun])
    show "triple vn s d ?E (begun vn ?p n) (pbind (delete_bounded vn s b k) (\<lambda>e. pbind (cancel i) (\<lambda>_. Ret e))) ?Q"
      if "ctx_deadline b \<noteq> NoDeadline" for b i
      by (rule triple_cancel [where f = "\<lambda>e. e", OF bounded [OF that] stable_delete_done])
  qed
qed

end
