(* ===== verification/BlobInterleavings.thy ===== *)
theory BlobInterleavings
  imports SharedWrites
begin

text \<open>
  Any number of calls of \<open>Put\<close>, \<open>Get\<close>, \<open>Delete\<close> and \<open>List\<close>, of one store or of several over the same
  prefix and bucket, that run beside each other: a call may begin at any time, their requests
  interleave in any order, each can fail, and any call may stop for good between two of its
  requests, as when its process dies. \<open>SharedReads\<close> and \<open>SharedWrites\<close> prove each call under its
  rely; here every guarantee is inside the others' relies.
\<close>

section \<open>Guarantees inside relies\<close>

lemma pkey_inject: "length d = 16 \<Longrightarrow> length d' = 16 \<Longrightarrow> pkey p d k = pkey p d' k' \<Longrightarrow> d = d'"
  unfolding pkey_def by (drule append_eq_same_length_right) simp_all

lemma grants_disturbs:
  assumes "grants vn p d E hs hs'" "sound vn p hs" "length d = 16" "length d' = 16" "d \<noteq> d'"
  shows "disturbs vn p d' hs hs'"
proof -
  from assms(1,2) obtain ob where hs': "hs' = ob # hs" "follows vn p hs ob"
    and change: "\<And>x. ob x \<noteq> hd hs x \<Longrightarrow>
      has_prefix x (manifest_root p) \<or> named vn p hs x \<or> (\<exists>k. x = pkey p d k)"
    and names: "\<And>mk m. manifest_at vn p ob mk m \<Longrightarrow>
      manifest_at vn p (hd hs) mk m \<or> (\<exists>k. PayloadKey m = pkey p d k)"
    unfolding grants_def by blast
  have apart: "pkey p d' k \<noteq> pkey p d k'" for k k' using pkey_inject [OF assms(3,4)] assms(5) by metis
  show ?thesis
    unfolding disturbs_def
  proof (intro conjI allI impI)
    show "\<exists>xs. hs' = xs @ hs" using hs'(1) by simp
    show "sound vn p hs'" using hs' assms(2) by simp
    fix k assume new: "\<not> named vn p hs (pkey p d' k)"
    then have "\<not> names_payload vn p (hd hs) (pkey p d' k)" using named_now [OF assms(2)] by blast
    with names apart have "\<not> names_payload vn p ob (pkey p d' k)" unfolding names_payload_def by metis
    with new show "\<not> named vn p hs' (pkey p d' k)" by (simp add: hs'(1))
    show "hd hs' (pkey p d' k) = hd hs (pkey p d' k)"
      using change [of "pkey p d' k"] new apart pkey_not_root [OF assms(4)] hs'(1) by auto
  qed
qed

section \<open>One call\<close>

primrec op_effect :: "blob_op \<Rightarrow> objs \<Rightarrow> objs \<Rightarrow> bool" where
  "op_effect (OpPut k src) = blob_added k (script_bytes src)"
| "op_effect (OpGet k) = (\<lambda>_ _. False)"
| "op_effect (OpDelete k) = blob_removed k"
| "op_effect (OpList prefix) = (\<lambda>_ _. False)"

text \<open>
  A reply is right about the bucket at one of the moments since the history had \<open>n\<close> entries:
  \<open>Put\<close>'s nil and its conflict, \<open>Get\<close>'s content and its not-found, \<open>Delete\<close>'s nil, every key of
  \<open>List\<close>. Other errors claim nothing.
\<close>

primrec accounts ::
    "name_validator \<Rightarrow> string \<Rightarrow> nat \<Rightarrow> blob_op \<Rightarrow> hist \<Rightarrow> blob_reply \<Rightarrow> bool" where
  "accounts vn p n (OpPut k src) hs r \<longleftrightarrow> (\<exists>e. r = Outcome e \<and> put_told vn p n k (script_bytes src) hs e)"
| "accounts vn p n (OpGet k) hs r \<longleftrightarrow> (\<exists>x. r = Content x \<and> fetched vn p n k hs x)"
| "accounts vn p n (OpDelete k) hs r \<longleftrightarrow> (\<exists>e. r = Outcome e \<and> delete_told vn p n k hs e)"
| "accounts vn p n (OpList prefix) hs r \<longleftrightarrow>
     (\<exists>x. r = Listing x \<and> (\<forall>ks. x = Some (Inr ks) \<longrightarrow> shown vn p n prefix (set ks) hs))"

definition store_ok :: "name_validator \<Rightarrow> string \<Rightarrow> string \<Rightarrow> store \<Rightarrow> bool" where
  "store_ok vn p bucket s \<longleftrightarrow> canonical_names vn \<and> vn p = None \<and> length p \<le> 256
     \<and> st_prefix s = p \<and> ro_bucket (st_options s) = bucket
     \<and> 0 \<le> ro_maxAccountedObjectSize (st_options s)
     \<and> ro_maxAccountedObjectSize (st_options s) \<le> max_int64"

lemma triple_reply:
  assumes "triple vn s d E P q Q" "\<And>x. stable vn (st_prefix s) d (\<lambda>hs. Q hs x)"
    and "\<And>hs x. Q hs x \<Longrightarrow> R hs (f x)"
  shows "triple vn s d E P (pbind q (\<lambda>x. Ret (f x))) R"
  by (rule triple_bind [OF assms(1)], rule triple_Ret [OF assms(2)], rule assms(3))

lemma triple_perform:
  assumes "store_ok vn p bucket s" "op_ok vn op" "length d = 16"
  shows "triple vn s d (op_effect op) (blank vn p d n) (perform vn s c fuel op)
    (\<lambda>hs r. accounts vn p n op hs r)"
proof -
  have p: "st_prefix s = p" and ok: "key_ok vn p k" if "vn k = None" for k
    using assms(1) that by (simp_all add: store_ok_def key_ok_def)
  have prefix: "st_prefix s = p" using assms(1) by (simp add: store_ok_def)
  have begun: "begun vn p n hs" if "blank vn p d n hs" for hs using that by (simp add: blank_def)
  show ?thesis
  proof (cases op)
    case (OpPut k src)
    with assms have "setting vn s d k" "clean src"
      by (simp_all add: setting_def store_ok_def key_ok_def)
    from triple_reply [where R = "\<lambda>hs r. accounts vn p n op hs r", OF triple_Put [OF this] stable_put_done]
    show ?thesis by (simp add: OpPut prefix)
  next
    case (OpGet k)
    with assms(2) ok prefix have key: "key_ok vn (st_prefix s) k" by simp
    have "stable vn (st_prefix s) d (\<lambda>hs. begun vn (st_prefix s) n hs \<and> fetched vn (st_prefix s) n k hs x)" for x
      unfolding fetched_def by (intro stable_and stable_begun kept_rules kept_within)
    from triple_reply [where R = "\<lambda>hs r. accounts vn p n op hs r", OF triple_pre [OF triple_get_all [OF key]] this]
    show ?thesis by (simp add: OpGet prefix begun)
  next
    case (OpDelete k)
    with assms(2) ok prefix have key: "key_ok vn (st_prefix s) k" by simp
    have "triple vn s d (blob_removed k) (blank vn p d n) (Delete vn s (Some c) k) (delete_done vn s n k)"
      by (rule triple_pre [OF triple_Delete [OF key]]) (simp add: prefix begun)
    from triple_reply [where R = "\<lambda>hs r. accounts vn p n op hs r", OF this stable_delete_done]
    show ?thesis by (simp add: OpDelete prefix)
  next
    case (OpList prefix')
    with assms(2) have key: "validateListPrefix vn prefix' = None" by simp
    have "stable vn (st_prefix s) d (\<lambda>hs. begun vn (st_prefix s) n hs
        \<and> (\<forall>ks. x = Some (Inr ks) \<longrightarrow> shown vn (st_prefix s) n prefix' (set ks) hs))" for x
      by (intro stable_and stable_begun kept_rules kept_shown)
    from triple_reply [where R = "\<lambda>hs r. accounts vn p n op hs r", OF triple_pre [OF triple_List [OF key]] this]
    show ?thesis by (simp add: OpList prefix begun)
  qed
qed

section \<open>Calls beside each other\<close>

text \<open>\<open>ca_since\<close> is the length of the history before the moment the call began at.\<close>

record blob_call =
  ca_op :: blob_op
  ca_store :: store
  ca_block :: bytes
  ca_since :: nat
  ca_rest :: "blob_reply prog"

text \<open>
  The random block of a call (only \<open>Put\<close> draws it) is none of another call's, and nothing was ever
  stored under it.
\<close>

definition admitted ::
    "name_validator \<Rightarrow> string \<Rightarrow> string \<Rightarrow> hist \<Rightarrow> blob_call list \<Rightarrow> blob_call \<Rightarrow> bool" where
  "admitted vn p bucket hs cs c \<longleftrightarrow> store_ok vn p bucket (ca_store c) \<and> op_ok vn (ca_op c)
     \<and> length (ca_block c) = 16 \<and> ca_block c \<notin> set (map ca_block cs)
     \<and> (\<forall>ob \<in> set hs. \<forall>k. ob (pkey p (ca_block c) k) = None)
     \<and> ca_since c = length hs - 1
     \<and> (\<exists>ctx fuel. ca_rest c = perform vn (ca_store c) ctx fuel (ca_op c))"

inductive calls_run ::
    "name_validator \<Rightarrow> string \<Rightarrow> string \<Rightarrow> objs \<Rightarrow> hist \<Rightarrow> blob_call list \<Rightarrow> bool"
  for vn p bucket ob0 where
  calls_start: "calls_run vn p bucket ob0 [ob0] []"
| calls_begin: "calls_run vn p bucket ob0 hs cs \<Longrightarrow> admitted vn p bucket hs cs c \<Longrightarrow>
    calls_run vn p bucket ob0 hs (cs @ [c])"
| calls_step: "calls_run vn p bucket ob0 hs cs \<Longrightarrow> i < length cs \<Longrightarrow> ca_rest (cs ! i) = Do cmd f \<Longrightarrow>
    shaky_step (ca_block (cs ! i)) (hd hs) cmd r ob \<Longrightarrow>
    calls_run vn p bucket ob0 (ob # hs) (cs[i := (cs ! i)\<lparr>ca_rest := f r\<rparr>])"

text \<open>Every change of the map of blobs is the effect of a call that had begun.\<close>

primrec explained :: "name_validator \<Rightarrow> string \<Rightarrow> blob_call list \<Rightarrow> hist \<Rightarrow> bool" where
  "explained vn p cs [] \<longleftrightarrow> True"
| "explained vn p cs (ob # hs) \<longleftrightarrow> explained vn p cs hs
     \<and> (hs = [] \<or> blobs vn p ob = blobs vn p (hd hs)
        \<or> (\<exists>c \<in> set cs. ca_since c < length hs \<and> op_effect (ca_op c) (blobs vn p (hd hs)) (blobs vn p ob)))"

lemma explained_mono:
  "explained vn p cs hs \<Longrightarrow> (\<And>c. c \<in> set cs \<Longrightarrow> \<exists>c' \<in> set cs'. ca_op c' = ca_op c \<and> ca_since c' = ca_since c) \<Longrightarrow>
   explained vn p cs' hs"
  by (induction hs) (simp, metis explained.simps(2))

section \<open>The invariant\<close>

definition call_under :: "name_validator \<Rightarrow> string \<Rightarrow> hist \<Rightarrow> blob_call \<Rightarrow> bool" where
  "call_under vn p hs c \<longleftrightarrow> st_prefix (ca_store c) = p \<and> length (ca_block c) = 16 \<and> ca_since c < length hs
     \<and> under vn (ca_store c) (ca_block c) (op_effect (ca_op c)) (ca_rest c) hs
         (\<lambda>hs r. accounts vn p (ca_since c) (ca_op c) hs r)"

definition calls_ok :: "name_validator \<Rightarrow> string \<Rightarrow> hist \<Rightarrow> blob_call list \<Rightarrow> bool" where
  "calls_ok vn p hs cs \<longleftrightarrow> sound vn p hs \<and> explained vn p cs hs \<and> distinct (map ca_block cs)
     \<and> (\<forall>c \<in> set cs. call_under vn p hs c)"

lemma begin_ok:
  assumes "calls_ok vn p hs cs" "admitted vn p bucket hs cs c"
  shows "calls_ok vn p hs (cs @ [c])"
proof -
  have sound: "sound vn p hs" using assms(1) by (simp add: calls_ok_def)
  then have hs: "hs \<noteq> []" by simp
  have unnamed: "\<not> named vn p hs (pkey p (ca_block c) k)" for k
    using assms(2) named_in_place(1) [OF sound_blobs_ok [OF sound]]
    unfolding named_def admitted_def by blast
  then have blank: "blank vn p (ca_block c) (ca_since c) hs"
    using assms(2) sound hs by (cases hs) (auto simp: blank_def begun_def admitted_def)
  from assms(2) obtain ctx fuel where c: "ca_rest c = perform vn (ca_store c) ctx fuel (ca_op c)"
    "store_ok vn p bucket (ca_store c)" "op_ok vn (ca_op c)" "length (ca_block c) = 16"
    by (auto simp: admitted_def)
  from triple_perform [OF c(2-4), of "ca_since c" ctx fuel] blank c
  have "call_under vn p hs c"
    using blank by (auto simp: call_under_def triple_def blank_def begun_def store_ok_def)
  moreover have "explained vn p (cs @ [c]) hs"
    by (rule explained_mono [of _ _ cs]) (use assms(1) in \<open>auto simp: calls_ok_def\<close>)
  ultimately show ?thesis using assms by (auto simp: calls_ok_def admitted_def)
qed

lemma stepped_calls:
  assumes "i < length cs" "c \<in> set cs" "ca_op c' = ca_op (cs ! i)" "ca_since c' = ca_since (cs ! i)"
  shows "\<exists>c'' \<in> set (cs[i := c']). ca_op c'' = ca_op c \<and> ca_since c'' = ca_since c"
proof -
  from assms(2) obtain j where j: "j < length cs" "c = cs ! j" by (metis in_set_conv_nth)
  then have "cs[i := c'] ! j \<in> set (cs[i := c'])" by (metis length_list_update nth_mem)
  with j assms show ?thesis by (cases "j = i") (auto intro!: bexI [of _ "cs[i := c'] ! j"])
qed

lemma other_calls:
  assumes "distinct (map ca_block cs)" "i < length cs" "c \<in> set (cs[i := c'])"
  shows "c = c' \<or> (c \<in> set cs \<and> ca_block c \<noteq> ca_block (cs ! i))"
proof -
  from assms(3) obtain j where j: "j < length cs" "c = cs[i := c'] ! j"
    by (metis in_set_conv_nth length_list_update)
  with assms(1,2) show ?thesis by (cases "j = i") (auto simp: distinct_conv_nth)
qed

lemma step_ok:
  assumes "calls_ok vn p hs cs" "i < length cs" "ca_rest (cs ! i) = Do cmd f"
    and "shaky_step (ca_block (cs ! i)) (hd hs) cmd r ob"
  shows "calls_ok vn p (ob # hs) (cs[i := (cs ! i)\<lparr>ca_rest := f r\<rparr>])"
proof -
  let ?c = "cs ! i" and ?c' = "(cs ! i)\<lparr>ca_rest := f r\<rparr>"
  have sound: "sound vn p hs" and expl: "explained vn p cs hs" and distinct: "distinct (map ca_block cs)"
    and each: "\<And>c. c \<in> set cs \<Longrightarrow> call_under vn p hs c" and mem: "?c \<in> set cs"
    using assms(1,2) by (simp_all add: calls_ok_def)
  from each [OF mem] assms(3,4)
  have g: "grants vn p (ca_block ?c) (op_effect (ca_op ?c)) hs (ob # hs)"
    and u: "call_under vn p (ob # hs) ?c'"
    unfolding call_under_def by (auto simp: under.simps dest: spec [of _ hs])
  have "call_under vn p (ob # hs) c" if "c \<in> set cs" "ca_block c \<noteq> ca_block ?c" for c
    using grants_disturbs [OF g sound] each [OF that(1)] each [OF mem] under_later that(2)
    unfolding call_under_def by fastforce
  with u other_calls [OF distinct assms(2)]
  have all: "call_under vn p (ob # hs) c" if "c \<in> set (cs[i := ?c'])" for c using that by blast
  have "explained vn p (cs[i := ?c']) hs"
    by (rule explained_mono [OF expl], rule stepped_calls [OF assms(2)]) simp_all
  moreover have "blobs vn p ob = blobs vn p (hd hs)
      \<or> op_effect (ca_op ?c') (blobs vn p (hd hs)) (blobs vn p ob)"
    using g sound by (auto simp: grants_def)
  moreover have "ca_since ?c' < length hs" "?c' \<in> set (cs[i := ?c'])"
    using each [OF mem] assms(2) by (simp_all add: call_under_def set_update_memI)
  ultimately have "explained vn p (cs[i := ?c']) (ob # hs)" unfolding explained.simps by blast
  moreover have "map ca_block (cs[i := ?c']) = map ca_block cs"
    using assms(2) by (simp add: map_update) (metis list_update_id nth_map)
  ultimately show ?thesis
    using g sound all distinct by (simp add: calls_ok_def grants_def)
qed

lemma calls_run_ok:
  assumes "calls_run vn p bucket ob0 hs cs" "blobs_ok vn p ob0"
  shows "calls_ok vn p hs cs"
  using assms(1)
proof induction
  case calls_start
  with assms(2) show ?case by (simp add: calls_ok_def)
qed (auto intro: begin_ok step_ok simp del: sound.simps)

lemma explained_grown:
  "explained vn p cs hs \<Longrightarrow> (\<And>c k. c \<in> set cs \<Longrightarrow> ca_op c \<noteq> OpDelete k) \<Longrightarrow> ob \<in> set hs \<Longrightarrow>
   blobs vn p ob \<subseteq>\<^sub>m blobs vn p (hd hs)"
proof (induction hs)
  case (Cons ob' hs)
  have "blobs vn p (hd hs) \<subseteq>\<^sub>m blobs vn p ob'" if "hs \<noteq> []"
  proof -
    have "op_effect (ca_op c) m m' \<Longrightarrow> m \<subseteq>\<^sub>m m'" if "c \<in> set cs" for c m m'
      using Cons.prems(2) [OF that] by (cases "ca_op c") (auto simp: blob_added_def map_le_def)
    with Cons.prems(1) that show ?thesis by auto
  qed
  moreover have "blobs vn p ob \<subseteq>\<^sub>m blobs vn p (hd hs)" if "ob \<in> set hs"
    using Cons that by simp
  ultimately show ?case
    using Cons.prems(3) map_le_trans [of "blobs vn p ob"] by (cases "ob = ob'") fastforce+
qed simp

lemma calls_run_told:
  assumes "calls_run vn p bucket ob0 hs cs" "blobs_ok vn p ob0"
  shows "sound vn p hs \<and> explained vn p cs hs
    \<and> (\<forall>c r. c \<in> set cs \<and> ca_rest c = Ret r \<longrightarrow> accounts vn p (ca_since c) (ca_op c) hs r)"
proof (intro conjI allI impI; (elim conjE)?)
  note ok = calls_run_ok [OF assms]
  then show "sound vn p hs" "explained vn p cs hs" by (simp_all add: calls_ok_def)
  fix c r assume c: "c \<in> set cs" "ca_rest c = Ret r"
  with ok have "call_under vn p hs c" by (simp add: calls_ok_def)
  with c(2) show "accounts vn p (ca_since c) (ca_op c) hs r"
    unfolding call_under_def by (metis disturbs_refl under.simps(1))
qed

text \<open>Every request of a call is to the bucket, and creates nothing unless conditionally.\<close>

lemma running_confined:
  assumes "calls_run vn p bucket ob0 hs cs" "blobs_ok vn p ob0" "c \<in> set cs" "ca_rest c = Do cmd f"
  shows "confined bucket cmd"
proof -
  have "ro_bucket (st_options (ca_store c)) = bucket" if "c \<in> set cs" for c
    using assms(1) that
    by (induction arbitrary: c) (auto simp: admitted_def store_ok_def dest!: set_update_subset_insert [THEN subsetD])
  moreover have "call_under vn p hs c" using calls_run_ok [OF assms(1,2)] assms(3) by (simp add: calls_ok_def)
  ultimately show ?thesis using assms(3,4) unfolding call_under_def by (metis disturbs_refl under.simps(2))
qed

section \<open>No call is stuck\<close>

lemma shaky_answers: "\<exists>r ob'. shaky_step d ob c r ob'"
proof (cases c)
  case (HeadObject c i)
  have "shaky_step d ob (HeadObject c i) (RHead (Inl CtxCanceled)) ob" by (simp add: isHTTPStatus_def)
  with HeadObject show ?thesis by blast
next
  case (UploadObject c u)
  have "shaky_step d ob (UploadObject c u) (RUpload (Inl CtxCanceled) []) ob" by (simp add: upload_answer_def)
  with UploadObject show ?thesis by blast
next
  case (ListObjectsV2 c i)
  have "shaky_step d ob (ListObjectsV2 c i) (RList (Inl CtxCanceled)) ob" by simp
  with ListObjectsV2 show ?thesis by blast
next
  case Fresh
  have "shaky_step d ob Fresh (RFresh 0 0) ob" by simp
  with Fresh show ?thesis by blast
qed (auto simp: ctx_answer_def split: resp.splits)

lemma calls_run_goes_on:
  assumes "calls_run vn p bucket ob0 hs cs" "i < length cs" "ca_rest (cs ! i) = Do c f"
  obtains r ob where "calls_run vn p bucket ob0 (ob # hs) (cs[i := (cs ! i)\<lparr>ca_rest := f r\<rparr>])"
  using shaky_answers [of "ca_block (cs ! i)" "hd hs" c] calls_step [OF assms] by blast

section \<open>Properties\<close>

text \<open>One call run to its end, the others standing still: the answers and the buckets after them.\<close>

primrec goes :: "bytes \<Rightarrow> objs \<Rightarrow> 'a prog \<Rightarrow> (resp \<times> objs) list \<Rightarrow> 'a \<Rightarrow> bool" where
  "goes d ob q [] x \<longleftrightarrow> q = Ret x"
| "goes d ob q (a # as) x \<longleftrightarrow>
     (case q of Ret _ \<Rightarrow> False | Do c f \<Rightarrow> shaky_step d ob c (fst a) (snd a) \<and> goes d (snd a) (f (fst a)) as x)"

lemma goes_bind: "goes d ob q as x \<Longrightarrow> f x = Ret y \<Longrightarrow> goes d ob (pbind q f) as y"
  by (induction as arbitrary: ob q) (auto split: prog.splits)

lemma calls_run_goes:
  "goes (ca_block (cs ! i)) (hd hs) (ca_rest (cs ! i)) as x \<Longrightarrow> calls_run vn p bucket ob0 hs cs \<Longrightarrow>
   i < length cs \<Longrightarrow>
   calls_run vn p bucket ob0 (rev (map snd as) @ hs) (cs[i := (cs ! i)\<lparr>ca_rest := Ret x\<rparr>])"
proof (induction as arbitrary: hs cs)
  case Nil
  then have "(cs ! i)\<lparr>ca_rest := Ret x\<rparr> = cs ! i" by (cases "cs ! i") simp
  with Nil show ?case by (metis append_self_conv2 list.simps(8) list_update_id rev.simps(1))
next
  case (Cons a as)
  from Cons.prems(1) obtain c f where q: "ca_rest (cs ! i) = Do c f"
    "shaky_step (ca_block (cs ! i)) (hd hs) c (fst a) (snd a)"
    and g: "goes (ca_block (cs ! i)) (snd a) (f (fst a)) as x" by (auto split: prog.splits)
  from calls_step [OF Cons.prems(2,3) q]
  have "calls_run vn p bucket ob0 (snd a # hs) (cs[i := (cs ! i)\<lparr>ca_rest := f (fst a)\<rparr>])" .
  from Cons.IH [OF _ this] g Cons.prems(3) show ?case by simp
qed


text \<open>A call of the witnesses: the sample store puts no bytes under \<open>''a''\<close>.\<close>

definition putting :: "byte \<Rightarrow> nat \<Rightarrow> blob_call" where
  "putting b n = \<lparr>ca_op = OpPut ''a'' [], ca_store = sample_store, ca_block = replicate 16 b, ca_since = n,
     ca_rest = perform grammar_validator sample_store sample_ctx 0 (OpPut ''a'' [])\<rparr>"

lemma putting_admitted:
  assumes "replicate 16 b \<notin> set (map ca_block cs)" "n = length hs - 1"
    and "\<forall>ob \<in> set hs. \<forall>k. ob (pkey ''dep'' (replicate 16 b) k) = None"
  shows "admitted grammar_validator ''dep'' ''bucket'' hs cs (putting b n)"
proof -
  have "grammar_validator ''dep'' = None" "grammar_validator ''a'' = None" by code_simp+
  moreover have "ro_maxAccountedObjectSize (st_options sample_store) \<le> max_int64"
    by (simp add: sample_store_def sample_resolved_def newStore_def max_int64_def)
  ultimately show ?thesis
    using sample_max assms by (auto simp: admitted_def putting_def store_ok_def)
qed

text \<open>The first call runs through; a second is then refused a slot.\<close>

lemma racing_first:
  "\<exists>as. goes (replicate 16 7) Map.empty (ca_rest (putting 7 0)) as (Outcome None)"
proof -
  obtain mk pk enc where names:
    "manifestObjectKey grammar_validator ''dep'' ''a'' = Inr mk"
    "newPayloadObjectKey grammar_validator (Some (replicate 16 7)) ''dep'' ''a'' = Inr pk"
    "encodeManifest grammar_validator \<lparr>LogicalKey = ''a'', PayloadKey = pk, Size = 0,
       Digest = sum256 []\<rparr> = Inr enc"
    "legacyManifestObjectKey ''dep'' ''a'' = None" by (rule put_example_names)
  have v: "grammar_validator ''dep'' = None" "grammar_validator ''a'' = None" by code_simp+
  have "has_prefix mk (namespaceRoot ''dep'' manifestNamespace)"
    using names(1) by (auto simp: manifestObjectKey_Inr manifestDigestRoot_def has_prefix_iff)
  moreover have "\<not> has_prefix pk (namespaceRoot ''dep'' manifestNamespace)"
    by (rule payload_not_root [OF own_payload_key_matches [OF names(2)]]) simp
  ultimately have ne: "mk \<noteq> pk" by blast
  let ?u = "upload_of sample_store pk []" and ?ob = "[pk \<mapsto> []] :: objs"
  have acc: "acc_size (read_by_upload ?u [2]) = 0" "fst (accounted_digest (read_by_upload ?u [2])) = sum256 []"
    by (simp_all add: read_by_upload_def newAccountedHashReader_def accounted_digest_def accounted_read_def)
  have "ui_key ?u = pk" "\<exists>rest. read_seq (accounted_read script_read) (ui_body ?u) [2] = (([], [] @ [Some EOF]), rest)"
    by (auto simp: upload_of_def applyTransferEncryption_def newAccountedHashReader_def accounted_read_def
        split: prod.splits)
  then have up: "upload_answer Map.empty ?u (RUpload (Inr (Some 0)) [2]) ?ob"
    unfolding upload_answer_def by fastforce
  have "goes (replicate 16 7) Map.empty (Put grammar_validator sample_store (Some sample_ctx) ''a'' (Some []))
    [(RErr None, Map.empty), (RRand (Some (replicate 16 7)), Map.empty), (RUpload (Inr (Some 0)) [2], ?ob),
     (RHead (Inr \<lparr>ho_length = Some 0, ho_etag = None\<rparr>), ?ob), (RErr None, ?ob(mk \<mapsto> enc)),
     (RDone, ?ob(mk \<mapsto> enc))] None"
    using up ne by (simp add: put_unfold names v acc verifyPayload_def verify_ranges.simps
        settleAgainstLegacyManifest_def put_publish_def publishManifest_def ctx_answer_def object_at_def
        applyEncryption_def)
  from goes_bind [OF this, of "\<lambda>e. Ret (Outcome e)"] show ?thesis
    unfolding putting_def perform.simps blob_call.simps by blast
qed

lemma racing_second: "goes (replicate 16 8) ob (ca_rest (putting 8 0)) [(RErr (Some CtxCanceled), ob)]
    (Outcome (Some CtxCanceled))"
proof -
  have "grammar_validator ''a'' = None" by code_simp
  then show ?thesis by (simp add: putting_def put_unfold ctx_answer_def)
qed

definition raced :: "blob_call list" where
  "raced = [(putting 7 0)\<lparr>ca_rest := Ret (Outcome None)\<rparr>,
     (putting 8 0)\<lparr>ca_rest := Ret (Outcome (Some CtxCanceled))\<rparr>]"

lemma racing_run: "\<exists>hs. calls_run grammar_validator ''dep'' ''bucket'' Map.empty hs raced"
proof -
  let ?run = "calls_run grammar_validator ''dep'' ''bucket'' Map.empty" and ?c = "putting 7 0" and ?e = "putting 8 0"
  have blocks: "ca_block ?c = replicate 16 7" "ca_block ?e = replicate 16 8" by (simp_all add: putting_def)
  have "?run [Map.empty] ([] @ [?c])"
    by (intro calls_begin calls_start putting_admitted) simp_all
  then have "?run [Map.empty] (([] @ [?c]) @ [?e])"
    by (rule calls_begin) (rule putting_admitted; simp add: blocks)
  then have start: "?run [Map.empty] [?c, ?e]" by simp
  obtain as where "goes (replicate 16 7) Map.empty (ca_rest ?c) as (Outcome None)" using racing_first by blast
  with calls_run_goes [of "[?c, ?e]" 0 "[Map.empty]" as, OF _ start] blocks
  obtain hs where one: "?run hs [?c\<lparr>ca_rest := Ret (Outcome None)\<rparr>, ?e]" by auto
  from calls_run_goes [OF _ one, of 1, simplified, unfolded blocks, OF racing_second]
  show ?thesis by (auto simp: raced_def)
qed




end
