(* ===== verification/SharedWorld.thy ===== *)
theory SharedWorld
  imports BlobInterleavings
begin

text \<open>
  The shared bucket of \<open>SharedBucket\<close> as an interface: calls that race over a world that answers
  their requests, and the locale \<open>shaky_bucket\<close> of the worlds whose every answer to a confined
  request is a \<open>shaky_step\<close> on the objects they store. What \<open>BlobInterleavings\<close> proves of racing
  calls holds over each of them.
\<close>

primrec is_request :: "cmd \<Rightarrow> bool" where
  "is_request (HeadObject c i) \<longleftrightarrow> True"
| "is_request (GetObject c g) \<longleftrightarrow> True"
| "is_request (PutObject c i) \<longleftrightarrow> True"
| "is_request (DeleteObject c i) \<longleftrightarrow> True"
| "is_request (ListObjectsV2 c i) \<longleftrightarrow> True"
| "is_request (UploadObject c u) \<longleftrightarrow> True"
| "is_request (CtxErr c) \<longleftrightarrow> False"
| "is_request Fresh \<longleftrightarrow> False"
| "is_request (Cancel i) \<longleftrightarrow> False"
| "is_request (RandRead n) \<longleftrightarrow> False"
| "is_request (Acquire c) \<longleftrightarrow> False"
| "is_request Release \<longleftrightarrow> False"

text \<open>
  Calls that race over a world: it answers their requests; what a call asks of its own process
  (contexts, slots, its random block) is answered beside it. Between requests \<open>meddle\<close> may change the
  world, as a test that arms faults does.
\<close>

inductive calls_over ::
    "'w world \<Rightarrow> ('w \<Rightarrow> objs) \<Rightarrow> ('w \<Rightarrow> 'w \<Rightarrow> bool) \<Rightarrow> name_validator \<Rightarrow> string \<Rightarrow> string \<Rightarrow> 'w
      \<Rightarrow> 'w \<Rightarrow> hist \<Rightarrow> blob_call list \<Rightarrow> bool"
  for world objects meddle vn p bucket w0 where
  over_start: "calls_over world objects meddle vn p bucket w0 w0 [objects w0] []"
| over_begin: "calls_over world objects meddle vn p bucket w0 w hs cs \<Longrightarrow>
    admitted vn p bucket hs cs c \<Longrightarrow>
    calls_over world objects meddle vn p bucket w0 w hs (cs @ [c])"
| over_request: "calls_over world objects meddle vn p bucket w0 w hs cs \<Longrightarrow> i < length cs \<Longrightarrow>
    ca_rest (cs ! i) = Do cmd f \<Longrightarrow> is_request cmd \<Longrightarrow> world cmd w = (r, w') \<Longrightarrow>
    calls_over world objects meddle vn p bucket w0 w' (objects w' # hs)
      (cs[i := (cs ! i)\<lparr>ca_rest := f r\<rparr>])"
| over_local: "calls_over world objects meddle vn p bucket w0 w hs cs \<Longrightarrow> i < length cs \<Longrightarrow>
    ca_rest (cs ! i) = Do cmd f \<Longrightarrow> \<not> is_request cmd \<Longrightarrow>
    shaky_step (ca_block (cs ! i)) (hd hs) cmd r (hd hs) \<Longrightarrow>
    calls_over world objects meddle vn p bucket w0 w (hd hs # hs)
      (cs[i := (cs ! i)\<lparr>ca_rest := f r\<rparr>])"
| over_meddle: "calls_over world objects meddle vn p bucket w0 w hs cs \<Longrightarrow> meddle w w' \<Longrightarrow>
    calls_over world objects meddle vn p bucket w0 w' hs cs"

locale shaky_bucket =
  fixes world :: "'w world"
    and objects :: "'w \<Rightarrow> objs"
    and fair :: "'w \<Rightarrow> bool"
    and bucket :: string
  assumes request_shaky: "fair w \<Longrightarrow> is_request c \<Longrightarrow> confined bucket c \<Longrightarrow> world c w = (r, w') \<Longrightarrow>
    fair w' \<and> shaky_step d (objects w) c r (objects w')"
begin

lemma calls_over_run:
  assumes "calls_over world objects meddle vn p bucket w0 w hs cs" "fair w0" "blobs_ok vn p (objects w0)"
    and "\<And>w w'. fair w \<Longrightarrow> meddle w w' \<Longrightarrow> fair w' \<and> objects w' = objects w"
  shows "calls_run vn p bucket (objects w0) hs cs \<and> fair w \<and> objects w = hd hs"
  using assms(1)
proof induction
  case over_start
  show ?case using calls_start assms(2) by simp
next
  case (over_begin w hs cs c)
  then show ?case using calls_begin by blast
next
  case (over_request w hs cs i cmd f r w')
  then have run: "calls_run vn p bucket (objects w0) hs cs" and w: "fair w" "objects w = hd hs" by simp_all
  have "confined bucket cmd"
    using running_confined [OF run assms(3) _ over_request(3)] over_request(2) by simp
  with request_shaky [OF w(1) over_request(4) _ over_request(5)] w(2)
  have "fair w'" "shaky_step (ca_block (cs ! i)) (hd hs) cmd r (objects w')" by simp_all
  with calls_step [OF run over_request(2,3)] show ?case by simp
next
  case (over_local w hs cs i cmd f r)
  then show ?case using calls_step by simp
next
  case (over_meddle w hs cs w')
  with assms(4) show ?case by metis
qed

end

end
