(* ===== verification/TestServer.thy ===== *)
theory TestServer
  imports GoIO GoEncoding "HOL-Library.DAList"
begin

text \<open>
  internal/testserver/server.go: the in-process S3 service. Its state, the operations that arm
  faults and read the state back, and \<open>serveHTTP\<close> with every handler. A request is served
  from beginning to end; responses are values, an XML body is the structure that is marshaled. MD5,
  which only makes ETags here, is the argument \<open>md5\<close>.
\<close>

unbundle bit_operations_syntax

section \<open>State\<close>

record object =
  ob_body :: bytes
  ob_etag :: string

record upload =
  up_bucket :: string
  up_key :: string
  up_parts :: "(int, bytes) alist"

record fault =
  ft_status :: nat
  ft_code :: string

text \<open>Of a block only that it is queued matters here, of a stall its prefix.\<close>

record server =
  sv_objects :: "(string, object) alist"
  sv_uploads :: "(string, upload) alist"
  sv_nextID :: "64 word"
  sv_counts :: "string \<Rightarrow> nat"
  sv_faults :: "string \<Rightarrow> fault list"
  sv_blocks :: "string \<Rightarrow> unit list"
  sv_commitBlocks :: "string \<Rightarrow> unit list"
  sv_commitFaults :: "string \<Rightarrow> fault list"
  sv_payloadStalls :: "int list"
  sv_createdUploads :: "string list"
  sv_abortedUploads :: "string list"
  sv_objectHeaders :: "string \<Rightarrow> (string \<times> string) list list"
  sv_pageLimit :: int
  sv_segmentLimit :: int
  sv_ranges :: "string list"
  sv_rangeIfMatches :: "string list"
  sv_corruptPayloads :: "string list"

definition New :: server where
  "New = \<lparr>sv_objects = DAList.empty, sv_uploads = DAList.empty, sv_nextID = 0,
     sv_counts = \<lambda>_. 0, sv_faults = \<lambda>_. [], sv_blocks = \<lambda>_. [], sv_commitBlocks = \<lambda>_. [],
     sv_commitFaults = \<lambda>_. [], sv_payloadStalls = [], sv_createdUploads = [],
     sv_abortedUploads = [], sv_objectHeaders = \<lambda>_. [], sv_pageLimit = 0, sv_segmentLimit = 0,
     sv_ranges = [], sv_rangeIfMatches = [], sv_corruptPayloads = []\<rparr>"

definition objectID :: "string \<Rightarrow> string \<Rightarrow> string" where
  "objectID bucket key = bucket @ CHR 0x00 # key"

text \<open>\<open>strings.Cut(id, "\x00")\<close>.\<close>

definition cutID :: "string \<Rightarrow> string \<times> string" where
  "cutID i = (takeWhile (\<lambda>c. c \<noteq> CHR 0x00) i, drop 1 (dropWhile (\<lambda>c. c \<noteq> CHR 0x00) i))"

definition newObject :: "(bytes \<Rightarrow> bytes) \<Rightarrow> bytes \<Rightarrow> object" where
  "newObject md5 body = \<lparr>ob_body = body, ob_etag = ''\"'' @ hex_encode (md5 body) @ ''\"''\<rparr>"

section \<open>Operations of the tests\<close>

definition newUpload :: "string \<Rightarrow> string \<Rightarrow> server \<Rightarrow> string \<times> server" where
  "newUpload bucket key s =
     (let next = sv_nextID s + 1; i = utoa (unat next)
      in (i, s\<lparr>sv_nextID := next,
               sv_uploads := DAList.update i
                 \<lparr>up_bucket = bucket, up_key = key, up_parts = DAList.empty\<rparr> (sv_uploads s),
               sv_createdUploads := sv_createdUploads s @ [i]\<rparr>))"

definition OpenForeignUpload :: "string \<Rightarrow> string \<Rightarrow> server \<Rightarrow> string \<times> server" where
  "OpenForeignUpload bucket key s = newUpload bucket key s"

text \<open>The keys of one bucket with a prefix, sorted.\<close>

definition keys_with :: "server \<Rightarrow> string \<Rightarrow> string \<Rightarrow> string list" where
  "keys_with s bucket prefix =
     sort (map (snd \<circ> cutID)
       (filter (\<lambda>i. fst (cutID i) = bucket \<and> has_prefix (snd (cutID i)) prefix)
         (map fst (DAList.impl_of (sv_objects s)))))"

definition Keys_of :: "string \<Rightarrow> server \<Rightarrow> string list" where
  "Keys_of bucket s = keys_with s bucket []"

definition ActiveUploads :: "server \<Rightarrow> nat" where
  "ActiveUploads s = length (DAList.impl_of (sv_uploads s))"

text \<open>Copies of what was recorded.\<close>

definition CreatedUploads :: "server \<Rightarrow> string list" where
  "CreatedUploads s = sv_createdUploads s"

definition AbortedUploads :: "server \<Rightarrow> string list" where
  "AbortedUploads s = sv_abortedUploads s"

definition ObjectHeaders :: "string \<Rightarrow> server \<Rightarrow> (string \<times> string) list list" where
  "ObjectHeaders operation s = sv_objectHeaders s operation"

definition Count :: "string \<Rightarrow> server \<Rightarrow> nat" where
  "Count operation s = sv_counts s operation"

definition Ranges :: "server \<Rightarrow> string list" where
  "Ranges s = sv_ranges s"

definition RangeIfMatches :: "server \<Rightarrow> string list" where
  "RangeIfMatches s = sv_rangeIfMatches s"

definition FailNext :: "string \<Rightarrow> nat \<Rightarrow> nat \<Rightarrow> string \<Rightarrow> server \<Rightarrow> server" where
  "FailNext operation count status code s =
     s\<lparr>sv_faults := (sv_faults s)(operation :=
          sv_faults s operation @ replicate count \<lparr>ft_status = status, ft_code = code\<rparr>)\<rparr>"

definition BlockNext :: "string \<Rightarrow> server \<Rightarrow> server" where
  "BlockNext operation s =
     s\<lparr>sv_blocks := (sv_blocks s)(operation := sv_blocks s operation @ [()])\<rparr>"

definition CommitThenBlockNext :: "string \<Rightarrow> server \<Rightarrow> server" where
  "CommitThenBlockNext operation s =
     s\<lparr>sv_commitBlocks := (sv_commitBlocks s)(operation := sv_commitBlocks s operation @ [()])\<rparr>"

definition CommitThenFailNext :: "string \<Rightarrow> nat \<Rightarrow> string \<Rightarrow> server \<Rightarrow> server" where
  "CommitThenFailNext operation status code s =
     s\<lparr>sv_commitFaults := (sv_commitFaults s)(operation :=
          sv_commitFaults s operation @ [\<lparr>ft_status = status, ft_code = code\<rparr>])\<rparr>"

definition SetPageLimit :: "int \<Rightarrow> server \<Rightarrow> server" where
  "SetPageLimit limit s = s\<lparr>sv_pageLimit := limit\<rparr>"

definition StallNextPayloadRead :: "int \<Rightarrow> server \<Rightarrow> server" where
  "StallNextPayloadRead prefix s = s\<lparr>sv_payloadStalls := sv_payloadStalls s @ [prefix]\<rparr>"

definition PutRaw :: "(bytes \<Rightarrow> bytes) \<Rightarrow> string \<Rightarrow> string \<Rightarrow> bytes \<Rightarrow> server \<Rightarrow> server" where
  "PutRaw md5 bucket key body s =
     s\<lparr>sv_objects := DAList.update (objectID bucket key) (newObject md5 body) (sv_objects s)\<rparr>"

definition RefuseSegmentsOver :: "int \<Rightarrow> server \<Rightarrow> server" where
  "RefuseSegmentsOver limit s = s\<lparr>sv_segmentLimit := limit\<rparr>"

definition MoveRaw :: "string \<Rightarrow> string \<Rightarrow> string \<Rightarrow> server \<Rightarrow> bool \<times> server" where
  "MoveRaw bucket src dst s =
     (case DAList.lookup (sv_objects s) (objectID bucket src) of
        None \<Rightarrow> (False, s)
      | Some stored \<Rightarrow>
          (True, s\<lparr>sv_objects := DAList.update (objectID bucket dst) stored
                     (DAList.delete (objectID bucket src) (sv_objects s))\<rparr>))"

definition CorruptNextPayload :: "string \<Rightarrow> server \<Rightarrow> server" where
  "CorruptNextPayload mode s = s\<lparr>sv_corruptPayloads := sv_corruptPayloads s @ [mode]\<rparr>"

section \<open>Requests and responses\<close>

text \<open>The path is decoded, the query parsed, header names are in canonical form.\<close>

record http_request =
  rq_method :: string
  rq_path :: string
  rq_query :: "(string \<times> string) list"
  rq_header :: "(string \<times> string) list"
  rq_body :: script

definition value_of :: "(string \<times> string) list \<Rightarrow> string \<Rightarrow> string" where
  "value_of kvs name = (case map_of kvs name of None \<Rightarrow> [] | Some v \<Rightarrow> v)"

definition hasQueryKey :: "(string \<times> string) list \<Rightarrow> string \<Rightarrow> bool" where
  "hasQueryKey query key \<longleftrightarrow> map_of query key \<noteq> None"

record content =
  ct_key :: string
  ct_size :: nat
  ct_etag :: string

record list_doc =
  ld_name :: string
  ld_prefix :: string
  ld_keyCount :: int
  ld_maxKeys :: int
  ld_truncated :: bool
  ld_next :: string
  ld_contents :: "content list"

datatype document =
    NoDoc
  | Bytes bytes
  | ErrorDoc string
  | ListDoc list_doc
  | UploadsDoc string "(string \<times> string) list"
  | InitiateDoc string string string
  | CompleteDoc string string string

record response =
  rs_status :: nat
  rs_header :: "(string \<times> string) list"
  rs_doc :: document

text \<open>\<open>Withheld\<close>: nothing is answered until the client goes away. \<open>Stalled\<close>: the
  headers and these bytes are written and then nothing more.\<close>

datatype outcome = Replied response | Withheld | Stalled response

definition writeXML :: "(string \<times> string) list \<Rightarrow> nat \<Rightarrow> document \<Rightarrow> response" where
  "writeXML header status doc =
     \<lparr>rs_status = status, rs_header = header @ [(''Content-Type'', ''application/xml'')],
      rs_doc = doc\<rparr>"

definition writeError :: "(string \<times> string) list \<Rightarrow> nat \<Rightarrow> string \<Rightarrow> response" where
  "writeError header status code = writeXML header status (ErrorDoc code)"

text \<open>\<open>io.ReadAll\<close>: the bytes up to the end or to an error.\<close>

fun readBody :: "script \<Rightarrow> bytes \<times> err option" where
  "readBody [] = ([], None)"
| "readBody ((b, Some e) # s) = (b, if e = EOF then None else Some e)"
| "readBody ((b, None) # s) = (case readBody s of (bs, e) \<Rightarrow> (b @ bs, e))"

lemma readBody_clean: "clean s \<Longrightarrow> readBody s = (script_bytes s, None)"
  by (induction s rule: readBody.induct) auto

section \<open>Names of operations\<close>

definition payload_part :: string where "payload_part = ''/payloads/v1/''"
definition manifest_part :: string where "manifest_part = ''/blobs/v1/''"

definition operationName :: "string \<Rightarrow> string \<Rightarrow> (string \<times> string) list \<Rightarrow> string" where
  "operationName m key query =
     (if m = ''GET'' \<and> key = [] \<and> value_of query ''list-type'' = ''2'' then ''ListObjectsV2''
      else if m = ''GET'' \<and> key = [] \<and> hasQueryKey query ''uploads'' then ''ListMultipartUploads''
      else if m = ''POST'' \<and> hasQueryKey query ''uploads'' then ''CreateMultipartUpload''
      else if m = ''PUT'' \<and> value_of query ''uploadId'' \<noteq> [] then ''UploadPart''
      else if m = ''POST'' \<and> value_of query ''uploadId'' \<noteq> [] then ''CompleteMultipartUpload''
      else if m = ''DELETE'' \<and> value_of query ''uploadId'' \<noteq> [] then ''AbortMultipartUpload''
      else if m = ''PUT'' \<and> contains key payload_part then ''PutPayload''
      else if m = ''PUT'' \<and> contains key manifest_part then ''PutManifest''
      else if m = ''HEAD'' \<and> contains key payload_part then ''HeadPayload''
      else if m = ''HEAD'' \<and> contains key manifest_part then ''HeadManifest''
      else if m = ''GET'' \<and> contains key payload_part then ''GetPayload''
      else if m = ''GET'' \<and> contains key manifest_part then ''GetManifest''
      else if m = ''DELETE'' \<and> contains key payload_part then ''DeletePayload''
      else if m = ''DELETE'' \<and> contains key manifest_part then ''DeleteManifest''
      else m)"

definition isObjectCreating :: "string \<Rightarrow> bool" where
  "isObjectCreating operation \<longleftrightarrow>
     operation \<in> {''PutPayload'', ''PutManifest'', ''CreateMultipartUpload''}"

text \<open>\<open>strings.SplitN\<close> with 2 cuts once: the rest keeps its slashes.\<close>

definition splitPath :: "string \<Rightarrow> (string \<times> string) option" where
  "splitPath path =
     (case split_on slash (trim_prefix path ''/'') of
        [] \<Rightarrow> None
      | b # ks \<Rightarrow> if b = [] then None else Some (b, join ''/'' ks))"

section \<open>Handlers\<close>

definition corrupt :: "string \<Rightarrow> bytes \<Rightarrow> bytes" where
  "corrupt mode body =
     (if mode = ''truncate'' then butlast body
      else if mode = ''flip'' then (case body of [] \<Rightarrow> [] | b # bs \<Rightarrow> (b XOR 0xff) # bs)
      else if mode = ''extend'' then body @ [0]
      else body)"

definition putObject ::
    "(bytes \<Rightarrow> bytes) \<Rightarrow> http_request \<Rightarrow> string \<Rightarrow> string \<Rightarrow> server \<Rightarrow> response \<times> server" where
  "putObject md5 rq bucket key s =
     (case readBody (rq_body rq) of
        (_, Some e) \<Rightarrow> (writeError [] 400 ''IncompleteBody'', s)
      | (sent, None) \<Rightarrow>
          (let (body, s1) =
             (if contains key payload_part then
                (case sv_corruptPayloads s of
                   [] \<Rightarrow> (sent, s)
                 | mode # modes \<Rightarrow> (corrupt mode sent, s\<lparr>sv_corruptPayloads := modes\<rparr>))
              else (sent, s));
             i = objectID bucket key
           in if value_of (rq_header rq) ''If-None-Match'' = ''*''
                 \<and> DAList.lookup (sv_objects s1) i \<noteq> None
              then (writeError [] 412 ''PreconditionFailed'', s1)
              else (let stored = newObject md5 body
                    in (\<lparr>rs_status = 200, rs_header = [(''ETag'', ob_etag stored)], rs_doc = NoDoc\<rparr>,
                        s1\<lparr>sv_objects := DAList.update i stored (sv_objects s1)\<rparr>))))"

definition headObject :: "string \<Rightarrow> string \<Rightarrow> server \<Rightarrow> response" where
  "headObject bucket key s =
     (case DAList.lookup (sv_objects s) (objectID bucket key) of
        None \<Rightarrow> writeError [] 404 ''NoSuchKey''
      | Some stored \<Rightarrow>
          \<lparr>rs_status = 200,
           rs_header = [(''Content-Length'', itoa (int (length (ob_body stored)))),
             (''ETag'', ob_etag stored), (''Accept-Ranges'', ''bytes'')],
           rs_doc = NoDoc\<rparr>)"

definition parseRange :: "string \<Rightarrow> int \<Rightarrow> (int \<times> int) option" where
  "parseRange value len =
     (if \<not> has_prefix value ''bytes='' \<or> contains value '','' then None
      else case split_on (CHR ''-'') (trim_prefix value ''bytes='') of
        [a, b] \<Rightarrow>
          (if a = [] \<or> b = [] then None
           else case (atoi a, atoi b) of
             (Some start, Some stop) \<Rightarrow>
               (if start < 0 \<or> stop < start \<or> start \<ge> len then None
                else Some (start, if stop \<ge> len then len - 1 else stop))
           | _ \<Rightarrow> None)
      | _ \<Rightarrow> None)"

definition stallPayload :: "object \<Rightarrow> int \<Rightarrow> outcome" where
  "stallPayload stored prefix =
     (let n = min prefix (int (length (ob_body stored)))
      in Stalled \<lparr>rs_status = 200,
           rs_header = [(''ETag'', ob_etag stored),
             (''Content-Length'', itoa (int (length (ob_body stored))))],
           rs_doc = Bytes (if n > 0 then take (nat n) (ob_body stored) else [])\<rparr>)"

text \<open>What is served of an object that is there and not stalled.\<close>

definition serveObject :: "http_request \<Rightarrow> object \<Rightarrow> response" where
  "serveObject rq stored =
     (let etag = [(''ETag'', ob_etag stored)]; body = ob_body stored;
          ifMatch = value_of (rq_header rq) ''If-Match''; range = value_of (rq_header rq) ''Range''
      in if ifMatch \<noteq> [] \<and> ifMatch \<noteq> ob_etag stored
         then writeError etag 412 ''PreconditionFailed''
         else if range \<noteq> [] then
           (case parseRange range (int (length body)) of
              None \<Rightarrow> writeError
                (etag @ [(''Content-Range'', ''bytes */'' @ itoa (int (length body)))])
                416 ''InvalidRange''
            | Some (start, stop) \<Rightarrow>
                (let part = take (nat (stop + 1 - start)) (drop (nat start) body)
                 in \<lparr>rs_status = 206,
                     rs_header = etag @ [(''Content-Range'', ''bytes '' @ itoa start @ ''-'' @ itoa stop
                         @ ''/'' @ itoa (int (length body))),
                       (''Content-Length'', itoa (int (length part)))],
                     rs_doc = Bytes part\<rparr>))
         else \<lparr>rs_status = 200,
               rs_header = etag @ [(''Content-Length'', itoa (int (length body)))],
               rs_doc = Bytes body\<rparr>)"

definition getObject ::
    "http_request \<Rightarrow> string \<Rightarrow> string \<Rightarrow> server \<Rightarrow> outcome \<times> server" where
  "getObject rq bucket key s =
     (let range = value_of (rq_header rq) ''Range'';
          s1 = (if range \<noteq> []
                then s\<lparr>sv_ranges := sv_ranges s @ [range],
                       sv_rangeIfMatches :=
                         sv_rangeIfMatches s @ [value_of (rq_header rq) ''If-Match'']\<rparr>
                else s)
      in case DAList.lookup (sv_objects s1) (objectID bucket key) of
           None \<Rightarrow> (Replied (writeError [] 404 ''NoSuchKey''), s1)
         | Some stored \<Rightarrow>
             (if range = [] \<and> contains key payload_part then
                (case sv_payloadStalls s1 of
                   [] \<Rightarrow> (Replied (serveObject rq stored), s1)
                 | prefix # stalls \<Rightarrow>
                     (stallPayload stored prefix, s1\<lparr>sv_payloadStalls := stalls\<rparr>))
              else (Replied (serveObject rq stored), s1)))"

definition deleteObject :: "string \<Rightarrow> string \<Rightarrow> server \<Rightarrow> response \<times> server" where
  "deleteObject bucket key s =
     (\<lparr>rs_status = 204, rs_header = [], rs_doc = NoDoc\<rparr>,
      s\<lparr>sv_objects := DAList.delete (objectID bucket key) (sv_objects s)\<rparr>)"

definition object_or_zero :: "server \<Rightarrow> string \<Rightarrow> object" where
  "object_or_zero s i =
     (case DAList.lookup (sv_objects s) i of None \<Rightarrow> \<lparr>ob_body = [], ob_etag = []\<rparr> | Some x \<Rightarrow> x)"

definition page_size :: "http_request \<Rightarrow> server \<Rightarrow> int" where
  "page_size rq s =
     (let limit = (case atoi (value_of (rq_query rq) ''max-keys'') of
            Some requested \<Rightarrow> if 0 < requested \<and> requested < 1000 then requested else 1000
          | None \<Rightarrow> 1000)
      in if 0 < sv_pageLimit s \<and> sv_pageLimit s < limit then sv_pageLimit s else limit)"

definition list_page :: "http_request \<Rightarrow> string \<Rightarrow> string list \<Rightarrow> int \<Rightarrow> server \<Rightarrow> list_doc" where
  "list_page rq bucket keys start s =
     (let limit = page_size rq s; stop = min (start + limit) (int (length keys))
      in \<lparr>ld_name = bucket, ld_prefix = value_of (rq_query rq) ''prefix'',
          ld_keyCount = stop - start, ld_maxKeys = limit,
          ld_truncated = (stop < int (length keys)),
          ld_next = (if stop < int (length keys) then itoa stop else []),
          ld_contents = map (\<lambda>key. let stored = object_or_zero s (objectID bucket key)
               in \<lparr>ct_key = key, ct_size = length (ob_body stored), ct_etag = ob_etag stored\<rparr>)
             (take (nat (stop - start)) (drop (nat start) keys))\<rparr>)"

definition listObjects :: "http_request \<Rightarrow> string \<Rightarrow> server \<Rightarrow> response" where
  "listObjects rq bucket s =
     (let keys = keys_with s bucket (value_of (rq_query rq) ''prefix'');
          token = value_of (rq_query rq) ''continuation-token''
      in if token = [] then writeXML [] 200 (ListDoc (list_page rq bucket keys 0 s))
         else case atoi token of
           None \<Rightarrow> writeError [] 400 ''InvalidToken''
         | Some parsed \<Rightarrow>
             (if parsed < 0 \<or> int (length keys) < parsed then writeError [] 400 ''InvalidToken''
              else writeXML [] 200 (ListDoc (list_page rq bucket keys parsed s))))"

definition listMultipartUploads :: "string \<Rightarrow> server \<Rightarrow> response" where
  "listMultipartUploads bucket s =
     writeXML [] 200 (UploadsDoc bucket
       (List.map_filter (\<lambda>i. case DAList.lookup (sv_uploads s) i of
            Some active \<Rightarrow> if up_bucket active = bucket then Some (up_key active, i) else None
          | None \<Rightarrow> None)
         (sort (map fst (DAList.impl_of (sv_uploads s))))))"

definition createMultipart :: "string \<Rightarrow> string \<Rightarrow> server \<Rightarrow> response \<times> server" where
  "createMultipart bucket key s =
     (case newUpload bucket key s of (i, s') \<Rightarrow> (writeXML [] 200 (InitiateDoc bucket key i), s'))"

definition uploadPart ::
    "(bytes \<Rightarrow> bytes) \<Rightarrow> http_request \<Rightarrow> string \<Rightarrow> string \<Rightarrow> server \<Rightarrow> response \<times> server" where
  "uploadPart md5 rq uploadID rawPart s =
     (case atoi rawPart of
        None \<Rightarrow> (writeError [] 400 ''InvalidPart'', s)
      | Some part \<Rightarrow>
          (if part \<le> 0 then (writeError [] 400 ''InvalidPart'', s)
           else case readBody (rq_body rq) of
             (_, Some e) \<Rightarrow> (writeError [] 400 ''IncompleteBody'', s)
           | (body, None) \<Rightarrow>
               (case DAList.lookup (sv_uploads s) uploadID of
                  None \<Rightarrow> (writeError [] 404 ''NoSuchUpload'', s)
                | Some active \<Rightarrow>
                    (\<lparr>rs_status = 200, rs_header = [(''ETag'', ob_etag (newObject md5 body))],
                      rs_doc = NoDoc\<rparr>,
                     s\<lparr>sv_uploads := DAList.update uploadID
                          (active\<lparr>up_parts := DAList.update part body (up_parts active)\<rparr>)
                          (sv_uploads s)\<rparr>))))"

text \<open>The parts in the order of their numbers.\<close>

definition assemble :: "(int, bytes) alist \<Rightarrow> bytes" where
  "assemble parts =
     concat (map (\<lambda>n. case DAList.lookup parts n of Some b \<Rightarrow> b | None \<Rightarrow> [])
       (sort (map fst (DAList.impl_of parts))))"

definition completeMultipart ::
    "(bytes \<Rightarrow> bytes) \<Rightarrow> http_request \<Rightarrow> string \<Rightarrow> string \<Rightarrow> string \<Rightarrow> server \<Rightarrow> response \<times> server" where
  "completeMultipart md5 rq bucket key uploadID s =
     (case DAList.lookup (sv_uploads s) uploadID of
        None \<Rightarrow> (writeError [] 404 ''NoSuchUpload'', s)
      | Some active \<Rightarrow>
          (if up_bucket active \<noteq> bucket \<or> up_key active \<noteq> key
           then (writeError [] 404 ''NoSuchUpload'', s)
           else
             (let i = objectID bucket key;
                  finished = s\<lparr>sv_uploads := DAList.delete uploadID (sv_uploads s)\<rparr>
              in if value_of (rq_header rq) ''If-None-Match'' = ''*''
                    \<and> DAList.lookup (sv_objects s) i \<noteq> None
                 then (writeError [] 412 ''PreconditionFailed'', finished)
                 else (let stored = newObject md5 (assemble (up_parts active))
                       in (writeXML [] 200 (CompleteDoc bucket key (ob_etag stored)),
                           finished\<lparr>sv_objects := DAList.update i stored (sv_objects s)\<rparr>)))))"

definition abortMultipart :: "string \<Rightarrow> server \<Rightarrow> response \<times> server" where
  "abortMultipart uploadID s =
     (\<lparr>rs_status = 204, rs_header = [], rs_doc = NoDoc\<rparr>,
      s\<lparr>sv_abortedUploads := sv_abortedUploads s @ [uploadID],
        sv_uploads := DAList.delete uploadID (sv_uploads s)\<rparr>)"

section \<open>serveHTTP\<close>

text \<open>The bookkeeping under the lock: what is counted, and what each queue gives this request.\<close>

record armed =
  ar_fault :: "fault option"
  ar_blocked :: bool
  ar_committed :: bool
  ar_commitFailure :: "fault option"

definition pop :: "(string \<Rightarrow> 'a list) \<Rightarrow> string \<Rightarrow> 'a option \<times> (string \<Rightarrow> 'a list)" where
  "pop queues operation =
     (case queues operation of
        [] \<Rightarrow> (None, queues)
      | x # xs \<Rightarrow> (Some x, queues(operation := xs)))"

definition admit :: "http_request \<Rightarrow> string \<Rightarrow> server \<Rightarrow> armed \<times> server" where
  "admit rq operation s =
     (\<lparr>ar_fault = fst (pop (sv_faults s) operation),
       ar_blocked = (fst (pop (sv_blocks s) operation) \<noteq> None),
       ar_committed = (fst (pop (sv_commitBlocks s) operation) \<noteq> None),
       ar_commitFailure = fst (pop (sv_commitFaults s) operation)\<rparr>,
      s\<lparr>sv_counts := (sv_counts s)(operation := sv_counts s operation + 1),
        sv_objectHeaders :=
          (if isObjectCreating operation
           then (sv_objectHeaders s)(operation := sv_objectHeaders s operation @ [rq_header rq])
           else sv_objectHeaders s),
        sv_faults := snd (pop (sv_faults s) operation),
        sv_blocks := snd (pop (sv_blocks s) operation),
        sv_commitBlocks := snd (pop (sv_commitBlocks s) operation),
        sv_commitFaults := snd (pop (sv_commitFaults s) operation)\<rparr>)"

definition replied :: "response \<times> server \<Rightarrow> outcome \<times> server" where
  "replied r = (Replied (fst r), snd r)"

definition route ::
    "(bytes \<Rightarrow> bytes) \<Rightarrow> http_request \<Rightarrow> string \<Rightarrow> string \<Rightarrow> server \<Rightarrow> outcome \<times> server" where
  "route md5 rq bucket key s =
     (let m = rq_method rq; q = rq_query rq; uploadID = value_of q ''uploadId''
      in if m = ''GET'' \<and> key = [] \<and> value_of q ''list-type'' = ''2''
         then (Replied (listObjects rq bucket s), s)
         else if m = ''GET'' \<and> key = [] \<and> hasQueryKey q ''uploads''
         then (Replied (listMultipartUploads bucket s), s)
         else if m = ''POST'' \<and> key \<noteq> [] \<and> hasQueryKey q ''uploads''
         then replied (createMultipart bucket key s)
         else if m = ''PUT'' \<and> key \<noteq> [] \<and> uploadID \<noteq> []
         then replied (uploadPart md5 rq uploadID (value_of q ''partNumber'') s)
         else if m = ''POST'' \<and> key \<noteq> [] \<and> uploadID \<noteq> []
         then replied (completeMultipart md5 rq bucket key uploadID s)
         else if m = ''DELETE'' \<and> key \<noteq> [] \<and> uploadID \<noteq> []
         then replied (abortMultipart uploadID s)
         else if m = ''PUT'' \<and> key \<noteq> [] then replied (putObject md5 rq bucket key s)
         else if m = ''HEAD'' \<and> key \<noteq> [] then (Replied (headObject bucket key s), s)
         else if m = ''GET'' \<and> key \<noteq> [] then getObject rq bucket key s
         else if m = ''DELETE'' \<and> key \<noteq> [] then replied (deleteObject bucket key s)
         else (Replied (writeError [] 501 ''NotImplemented''), s))"

definition long_segment :: "int \<Rightarrow> string \<Rightarrow> bool" where
  "long_segment limit key \<longleftrightarrow>
     0 < limit \<and> key \<noteq> [] \<and> (\<exists>p \<in> set (split_on slash key). limit < int (length p))"

definition serveHTTP :: "(bytes \<Rightarrow> bytes) \<Rightarrow> http_request \<Rightarrow> server \<Rightarrow> outcome \<times> server" where
  "serveHTTP md5 rq s =
     (case splitPath (rq_path rq) of
        None \<Rightarrow> (Replied (writeError [] 400 ''InvalidURI''), s)
      | Some (bucket, key) \<Rightarrow>
          (case admit rq (operationName (rq_method rq) key (rq_query rq)) s of
             (armed, s1) \<Rightarrow>
               (if long_segment (sv_segmentLimit s) key
                then (Replied (writeError [] 400 ''XMinioInvalidObjectName''), s1)
                else if ar_blocked armed then (Withheld, s1)
                else case ar_fault armed of
                  Some f \<Rightarrow> (Replied (writeError [] (ft_status f) (ft_code f)), s1)
                | None \<Rightarrow>
                    (case ar_commitFailure armed of
                       Some f \<Rightarrow> (Replied (writeError [] (ft_status f) (ft_code f)),
                                  snd (putObject md5 rq bucket key s1))
                     | None \<Rightarrow>
                         (if ar_committed armed
                          then (Withheld, snd (putObject md5 rq bucket key s1))
                          else route md5 rq bucket key s1)))))"

end
