(* ===== verification/TestServerFacts.thy ===== *)
theory TestServerFacts
  imports TestServer
begin

text \<open>
  What the fixture keeps: conditional requests never overwrite, a multipart upload stores what one
  PUT would, every response is well formed, and an invariant of all reachable states.
\<close>

section \<open>Conditional requests\<close>

abbreviation conditional :: "http_request \<Rightarrow> bool" where
  "conditional rq \<equiv> value_of (rq_header rq) ''If-None-Match'' = ''*''"

abbreviation object_of :: "server \<Rightarrow> string \<Rightarrow> object option" where
  "object_of s i \<equiv> DAList.lookup (sv_objects s) i"

lemma put_keeps:
  "conditional rq \<Longrightarrow> object_of s i = Some x \<Longrightarrow>
   object_of (snd (putObject md5 rq bucket key s)) i = Some x"
  by (cases "object_of s (objectID bucket key)")
    (auto simp: putObject_def Let_def lookup_update split: prod.split option.split list.split)

lemma complete_keeps:
  "conditional rq \<Longrightarrow> object_of s i = Some x \<Longrightarrow>
   object_of (snd (completeMultipart md5 rq bucket key u s)) i = Some x"
  by (auto simp: completeMultipart_def Let_def lookup_update split: option.split)

lemma other_handlers_objects [simp]:
  "sv_objects (snd (createMultipart bucket key s)) = sv_objects s"
  "sv_objects (snd (uploadPart md5 rq u raw s)) = sv_objects s"
  "sv_objects (snd (abortMultipart u s)) = sv_objects s"
  "sv_objects (snd (getObject rq bucket key s)) = sv_objects s"
  "sv_objects (snd (admit rq operation s)) = sv_objects s"
  by (auto simp: createMultipart_def newUpload_def uploadPart_def abortMultipart_def getObject_def
      admit_def Let_def split: option.split prod.split list.split)

lemma snd_replied [simp]: "snd (replied r) = snd r"
  by (simp add: replied_def)

text \<open>What a served request leaves: the bookkeeping, or a handler after it.\<close>

lemma serveHTTP_cases:
  obtains "snd (serveHTTP md5 rq s) = s"
  | op where "snd (serveHTTP md5 rq s) = snd (admit rq op s)"
  | op bucket key where "snd (serveHTTP md5 rq s) = snd (putObject md5 rq bucket key (snd (admit rq op s)))"
  | op bucket key where "serveHTTP md5 rq s = route md5 rq bucket key (snd (admit rq op s))"
proof (cases "splitPath (rq_path rq)")
  case None
  then show ?thesis by (intro that(1)) (simp add: serveHTTP_def)
next
  case (Some p)
  obtain bucket key where p: "p = (bucket, key)" by (cases p)
  define op where "op = operationName (rq_method rq) key (rq_query rq)"
  obtain armed s1 where a: "admit rq op s = (armed, s1)" by (metis surj_pair)
  then have s1: "s1 = snd (admit rq op s)" by simp
  have "serveHTTP md5 rq s =
      (if long_segment (sv_segmentLimit s) key
       then (Replied (writeError [] 400 ''XMinioInvalidObjectName''), s1)
       else if ar_blocked armed then (Withheld, s1)
       else case ar_fault armed of
         Some f \<Rightarrow> (Replied (writeError [] (ft_status f) (ft_code f)), s1)
       | None \<Rightarrow>
           (case ar_commitFailure armed of
              Some f \<Rightarrow> (Replied (writeError [] (ft_status f) (ft_code f)),
                         snd (putObject md5 rq bucket key s1))
            | None \<Rightarrow>
                (if ar_committed armed then (Withheld, snd (putObject md5 rq bucket key s1))
                 else route md5 rq bucket key s1)))"
    using Some p a by (simp add: serveHTTP_def op_def)
  then consider "snd (serveHTTP md5 rq s) = s1"
    | "snd (serveHTTP md5 rq s) = snd (putObject md5 rq bucket key s1)"
    | "serveHTTP md5 rq s = route md5 rq bucket key s1"
    by (auto split: if_splits option.splits)
  then show ?thesis using that(2-4) s1 by cases blast+
qed

lemma route_objects:
  assumes "conditional rq" "rq_method rq \<noteq> ''DELETE''" "object_of s i = Some x"
  shows "object_of (snd (route md5 rq bucket key s)) i = Some x"
  using assms put_keeps [OF assms(1,3)] complete_keeps [OF assms(1,3)]
  by (simp add: route_def Let_def)

text \<open>
  C24. A request with \<open>If-None-Match: *\<close> that is not a DELETE leaves every object that is there as
  it was, whatever its path, its body and the faults armed in the fixture, whether it is a PUT,
  the completion of a multipart upload or a PUT whose acknowledgement is withheld.
\<close>

theorem conditional_requests_never_overwrite:
  assumes "value_of (rq_header rq) ''If-None-Match'' = ''*''" "rq_method rq \<noteq> ''DELETE''"
    and "DAList.lookup (sv_objects s) i = Some x"
  shows "DAList.lookup (sv_objects (snd (serveHTTP md5 rq s))) i = Some x"
  using assms route_objects [OF assms(1,2)] put_keeps [OF assms(1)]
  by (cases rule: serveHTTP_cases [of md5 rq s]) simp_all

lemma conditional_requests_never_overwrite_witness:
  "DAList.lookup (sv_objects (snd (serveHTTP (\<lambda>b. b)
      \<lparr>rq_method = ''PUT'', rq_path = ''/b/k'', rq_query = [], rq_header = [(''If-None-Match'', ''*'')],
       rq_body = [([2], None)]\<rparr>
      (PutRaw (\<lambda>b. b) ''b'' ''k'' [1] New)))) (objectID ''b'' ''k'')
    = Some (newObject (\<lambda>b. b) [1])"
  by (rule conditional_requests_never_overwrite) (simp_all add: value_of_def PutRaw_def)

section \<open>Multipart uploads\<close>

lemma sort_distinct: "distinct xs \<Longrightarrow> sorted_list_of_set (set xs) = sort xs"
  by (simp add: sorted_list_of_set_sort_remdups distinct_remdups_id)

lemma lookup_fold_update:
  "distinct (map fst ps) \<Longrightarrow> DAList.lookup (fold (\<lambda>(n, b). DAList.update n (g b)) ps al) n =
     (case map_of ps n of Some b \<Rightarrow> Some (g b) | None \<Rightarrow> DAList.lookup al n)"
proof (induction ps arbitrary: al)
  case (Cons p ps)
  obtain m b where p: "p = (m, b)" by (cases p)
  with Cons.prems have "map_of ps m = None" by (simp add: map_of_eq_None_iff)
  with p Cons show ?case by (auto simp: lookup_update split: option.split)
qed simp

lemma assemble_parts:
  assumes "distinct (map fst ps)"
  shows "assemble (fold (\<lambda>(n, b). DAList.update n (g b)) ps DAList.empty)
    = concat (map (g \<circ> snd) (sort_key fst ps))"
proof -
  let ?al = "fold (\<lambda>(n, b). DAList.update n (g b)) ps DAList.empty"
  have look: "DAList.lookup ?al n = map_option g (map_of ps n)" for n
    using assms by (auto simp: lookup_fold_update split: option.split)
  then have "dom (DAList.lookup ?al) = dom (map_of ps)" by auto
  then have keys: "set (map fst (DAList.impl_of ?al)) = set (map fst (sort_key fst ps))"
    by (simp add: DAList.lookup_def dom_map_of_conv_image_fst)
  have "sort (map fst (DAList.impl_of ?al)) = sorted_list_of_set (set (map fst (sort_key fst ps)))"
    unfolding keys [symmetric] by (rule sort_distinct [symmetric]) simp
  also have "\<dots> = sort (map fst (sort_key fst ps))"
    by (rule sort_distinct) (use assms in \<open>simp add: distinct_map\<close>)
  also have "\<dots> = map fst (sort_key fst ps)" by (simp add: sorted_sort_id)
  finally show ?thesis
    unfolding assemble_def look using assms
    by (auto simp: comp_def intro!: arg_cong [of _ _ concat] map_cong)
qed

definition upload_parts ::
    "(bytes \<Rightarrow> bytes) \<Rightarrow> http_request \<Rightarrow> string \<Rightarrow> (int \<times> script) list \<Rightarrow> server \<Rightarrow> server" where
  "upload_parts md5 rq u ps s =
     fold (\<lambda>(n, body) s. snd (uploadPart md5 (rq\<lparr>rq_body := body\<rparr>) u (itoa n) s)) ps s"

definition part_ok :: "int \<times> script \<Rightarrow> bool" where
  "part_ok p \<longleftrightarrow> 0 < fst p \<and> fst p < 2 ^ 63 \<and> clean (snd p)"

lemma upload_parts_kept:
  "list_all part_ok ps \<Longrightarrow> DAList.lookup (sv_uploads s) u = Some up \<Longrightarrow>
   DAList.lookup (sv_uploads (upload_parts md5 rq u ps s)) u
     = Some (up\<lparr>up_parts := fold (\<lambda>(n, b). DAList.update n (script_bytes b)) ps (up_parts up)\<rparr>)
   \<and> sv_objects (upload_parts md5 rq u ps s) = sv_objects s"
proof (induction ps arbitrary: s up)
  case (Cons p ps)
  obtain n body where p: "p = (n, body)" by (cases p)
  let ?s = "snd (uploadPart md5 (rq\<lparr>rq_body := body\<rparr>) u (itoa n) s)"
  have "DAList.lookup (sv_uploads ?s) u
      = Some (up\<lparr>up_parts := DAList.update n (script_bytes body) (up_parts up)\<rparr>)"
    using Cons.prems p by (simp add: part_ok_def uploadPart_def atoi_itoa readBody_clean)
  from Cons.IH [OF _ this] Cons.prems(1) p show ?case by (simp add: upload_parts_def)
qed (simp add: upload_parts_def)

lemma clean_concat: "clean (concat ss) \<longleftrightarrow> list_all clean ss"
  by (induction ss) (auto simp: clean_def)

lemma bytes_concat: "script_bytes (concat ss) = concat (map script_bytes ss)"
  by (induction ss) (simp_all add: script_bytes_def)

text \<open>
  C23. A multipart upload stores what one PUT would: opening an upload, sending parts with distinct
  positive numbers in any order and completing it answers with the status, and leaves the objects,
  of a PUT of the parts' bytes in the order of their numbers, conditional or not; the upload is
  then gone.
\<close>

theorem multipart_equals_put:
  assumes "distinct (map fst ps)" "list_all part_ok ps" "sv_corruptPayloads s = []"
    and "createMultipart bucket key s = (opened, s1)" "u = utoa (unat (sv_nextID s + 1))"
    and "completeMultipart md5 rq bucket key u (upload_parts md5 rq u ps s1) = (r, s2)"
    and "putObject md5 (rq\<lparr>rq_body := concat (map snd (sort_key fst ps))\<rparr>) bucket key s = (r', s')"
  shows "rs_status r = rs_status r' \<and> sv_objects s2 = sv_objects s'
    \<and> DAList.lookup (sv_uploads s2) u = None"
proof -
  let ?up = "\<lparr>up_bucket = bucket, up_key = key, up_parts = DAList.empty\<rparr>"
  let ?whole = "concat (map snd (sort_key fst ps))"
  have opened: "DAList.lookup (sv_uploads s1) u = Some ?up" "sv_objects s1 = sv_objects s"
    using assms(4,5) by (auto simp: createMultipart_def newUpload_def Let_def)
  note parts = upload_parts_kept [OF assms(2) opened(1), of md5 rq]
  have "list_all clean (map snd (sort_key fst ps))"
    using assms(2) by (auto simp: list_all_iff part_ok_def)
  then have "readBody ?whole = (script_bytes ?whole, None)" by (simp add: readBody_clean clean_concat)
  moreover have "assemble (fold (\<lambda>(n, b). DAList.update n (script_bytes b)) ps DAList.empty)
      = script_bytes ?whole"
    unfolding assemble_parts [OF assms(1)] bytes_concat by (simp add: comp_def)
  ultimately show ?thesis
    using assms(3,6,7) parts opened(2)
    by (auto simp: completeMultipart_def putObject_def writeError_def writeXML_def Let_def
        split: if_splits)
qed

lemma multipart_equals_put_witness:
  "sv_objects (snd (completeMultipart (\<lambda>b. b)
      \<lparr>rq_method = ''POST'', rq_path = ''/b/k'', rq_query = [], rq_header = [], rq_body = []\<rparr> ''b'' ''k''
      ''1'' (upload_parts (\<lambda>b. b)
        \<lparr>rq_method = ''POST'', rq_path = ''/b/k'', rq_query = [], rq_header = [], rq_body = []\<rparr> ''1''
        [(2, [([7], None)]), (1, [([5], None), ([6], None)])]
        (snd (createMultipart ''b'' ''k'' New)))))
    = DAList.update (objectID ''b'' ''k'') (newObject (\<lambda>b. b) [5, 6, 7]) DAList.empty"
proof -
  let ?rq = "\<lparr>rq_method = ''POST'', rq_path = ''/b/k'', rq_query = [], rq_header = [],
    rq_body = []\<rparr> :: http_request"
  let ?ps = "[(2, [([7], None)]), (1, [([5], None), ([6], None)])] :: (int \<times> script) list"
  obtain opened s1 where o: "createMultipart ''b'' ''k'' New = (opened, s1)" by (metis surj_pair)
  obtain r s2 where c: "completeMultipart (\<lambda>b. b) ?rq ''b'' ''k'' ''1'' (upload_parts (\<lambda>b. b) ?rq ''1'' ?ps s1)
      = (r, s2)" by (metis surj_pair)
  obtain r' s' where put: "putObject (\<lambda>b. b) (?rq\<lparr>rq_body := concat (map snd (sort_key fst ?ps))\<rparr>)
      ''b'' ''k'' New = (r', s')" by (metis surj_pair)
  have "digit_char 1 = CHR ''1''" by code_simp
  then have "''1'' = utoa (unat (sv_nextID New + 1))" by (simp add: New_def utoa.simps)
  from multipart_equals_put [OF _ _ _ o this c put] have "sv_objects s2 = sv_objects s'"
    by (simp add: part_ok_def New_def)
  moreover have "sv_objects s' = DAList.update (objectID ''b'' ''k'') (newObject (\<lambda>b. b) [5, 6, 7]) DAList.empty"
    using put by (auto simp: putObject_def value_of_def Let_def New_def split: if_splits)
  ultimately show ?thesis using o c by simp
qed

section \<open>Reachable states\<close>

text \<open>The states of a fixture that was started, served requests and was armed by tests.\<close>

inductive server_reach :: "(bytes \<Rightarrow> bytes) \<Rightarrow> server \<Rightarrow> bool" for md5 :: "bytes \<Rightarrow> bytes" where
  reach_New: "server_reach md5 New"
| reach_serve: "server_reach md5 s \<Longrightarrow> server_reach md5 (snd (serveHTTP md5 rq s))"
| reach_open: "server_reach md5 s \<Longrightarrow> server_reach md5 (snd (OpenForeignUpload bucket key s))"
| reach_put: "server_reach md5 s \<Longrightarrow> server_reach md5 (PutRaw md5 bucket key body s)"
| reach_move: "server_reach md5 s \<Longrightarrow> server_reach md5 (snd (MoveRaw bucket src dst s))"
| reach_fail: "server_reach md5 s \<Longrightarrow> server_reach md5 (FailNext operation count status code s)"
| reach_block: "server_reach md5 s \<Longrightarrow> server_reach md5 (BlockNext operation s)"
| reach_commit_block: "server_reach md5 s \<Longrightarrow> server_reach md5 (CommitThenBlockNext operation s)"
| reach_commit_fail:
    "server_reach md5 s \<Longrightarrow> server_reach md5 (CommitThenFailNext operation status code s)"
| reach_pages: "server_reach md5 s \<Longrightarrow> server_reach md5 (SetPageLimit limit s)"
| reach_segments: "server_reach md5 s \<Longrightarrow> server_reach md5 (RefuseSegmentsOver limit s)"
| reach_stall: "server_reach md5 s \<Longrightarrow> server_reach md5 (StallNextPayloadRead prefix s)"
| reach_corrupt: "server_reach md5 s \<Longrightarrow> server_reach md5 (CorruptNextPayload mode s)"

definition objects_kept :: "(bytes \<Rightarrow> bytes) \<Rightarrow> (string, object) alist \<Rightarrow> bool" where
  "objects_kept md5 objects \<longleftrightarrow>
     (\<forall>i x. DAList.lookup objects i = Some x \<longrightarrow>
        CHR 0x00 \<in> set i \<and> x = newObject md5 (ob_body x))"

definition uploads_kept :: "(string, upload) alist \<Rightarrow> string list \<Rightarrow> bool" where
  "uploads_kept uploads created \<longleftrightarrow>
     (\<forall>u a. DAList.lookup uploads u = Some a \<longrightarrow> u \<in> set created
        \<and> (\<forall>n b. DAList.lookup (up_parts a) n = Some b \<longrightarrow> 0 < n))"

definition upload_id :: "nat \<Rightarrow> string" where
  "upload_id i = utoa (unat (word_of_nat i :: 64 word))"

definition ids_kept :: "string list \<Rightarrow> 64 word \<Rightarrow> bool" where
  "ids_kept created n \<longleftrightarrow>
     n = word_of_nat (length created) \<and> created = map upload_id [1..<Suc (length created)]"

definition server_kept :: "(bytes \<Rightarrow> bytes) \<Rightarrow> server \<Rightarrow> bool" where
  "server_kept md5 s \<longleftrightarrow> objects_kept md5 (sv_objects s)
     \<and> uploads_kept (sv_uploads s) (sv_createdUploads s) \<and> ids_kept (sv_createdUploads s) (sv_nextID s)"

lemma objects_kept_steps [intro]:
  "objects_kept md5 objects \<Longrightarrow>
   objects_kept md5 (DAList.update (objectID bucket key) (newObject md5 b) objects)"
  "objects_kept md5 objects \<Longrightarrow> objects_kept md5 (DAList.delete i objects)"
  "objects_kept md5 objects \<Longrightarrow> x = newObject md5 (ob_body x) \<Longrightarrow>
   objects_kept md5 (DAList.update (objectID bucket key) x objects)"
  by (auto simp: objects_kept_def lookup_update objectID_def newObject_def split: if_splits)

lemma uploads_kept_steps [intro]:
  "uploads_kept uploads created \<Longrightarrow> uploads_kept (DAList.delete u uploads) created"
  "uploads_kept uploads created \<Longrightarrow>
   uploads_kept (DAList.update u \<lparr>up_bucket = b, up_key = k, up_parts = DAList.empty\<rparr> uploads)
     (created @ [u])"
  "uploads_kept uploads created \<Longrightarrow> DAList.lookup uploads u = Some a \<Longrightarrow> 0 < n \<Longrightarrow>
   uploads_kept (DAList.update u (a\<lparr>up_parts := DAList.update n body (up_parts a)\<rparr>) uploads) created"
  by (auto simp: uploads_kept_def lookup_update split: if_splits)

lemma ids_kept_step [intro]:
  "ids_kept created n \<Longrightarrow> ids_kept (created @ [utoa (unat (n + 1))]) (n + 1)"
  by (auto simp: ids_kept_def upload_id_def add.commute)

lemma newUpload_kept: "server_kept md5 s \<Longrightarrow> server_kept md5 (snd (newUpload bucket key s))"
  by (auto simp: server_kept_def newUpload_def Let_def)

lemma put_kept: "server_kept md5 s \<Longrightarrow> server_kept md5 (snd (putObject md5 rq bucket key s))"
  by (auto simp: server_kept_def putObject_def Let_def split: prod.split option.split list.split)

lemma part_kept: "server_kept md5 s \<Longrightarrow> server_kept md5 (snd (uploadPart md5 rq u raw s))"
  by (auto simp: server_kept_def uploadPart_def Let_def not_le split: prod.split option.split)

lemma complete_kept:
  "server_kept md5 s \<Longrightarrow> server_kept md5 (snd (completeMultipart md5 rq bucket key u s))"
  by (auto simp: server_kept_def completeMultipart_def Let_def split: option.split)

lemma admit_kept [simp]: "server_kept md5 (snd (admit rq op s)) = server_kept md5 s"
  by (simp add: server_kept_def admit_def)

lemma other_handlers_kept:
  "server_kept md5 s \<Longrightarrow> server_kept md5 (snd (createMultipart bucket key s))"
  "server_kept md5 s \<Longrightarrow> server_kept md5 (snd (abortMultipart u s))"
  "server_kept md5 s \<Longrightarrow> server_kept md5 (snd (deleteObject bucket key s))"
  "server_kept md5 s \<Longrightarrow> server_kept md5 (snd (getObject rq bucket key s))"
  using newUpload_kept [of md5 s bucket key]
  by (auto simp: createMultipart_def abortMultipart_def deleteObject_def getObject_def server_kept_def
      Let_def split: prod.split option.split list.split)

lemma route_kept: "server_kept md5 s \<Longrightarrow> server_kept md5 (snd (route md5 rq bucket key s))"
  by (simp add: route_def Let_def put_kept part_kept complete_kept other_handlers_kept)

lemma serve_kept: "server_kept md5 s \<Longrightarrow> server_kept md5 (snd (serveHTTP md5 rq s))"
  by (cases rule: serveHTTP_cases [of md5 rq s]) (simp_all add: put_kept route_kept)

lemmas arming_defs = FailNext_def BlockNext_def CommitThenBlockNext_def CommitThenFailNext_def
  SetPageLimit_def RefuseSegmentsOver_def StallNextPayloadRead_def CorruptNextPayload_def

lemma arming_kept [simp]:
  "server_kept md5 (FailNext operation count status code s) = server_kept md5 s"
  "server_kept md5 (BlockNext operation s) = server_kept md5 s"
  "server_kept md5 (CommitThenBlockNext operation s) = server_kept md5 s"
  "server_kept md5 (CommitThenFailNext operation status code s) = server_kept md5 s"
  "server_kept md5 (SetPageLimit limit s) = server_kept md5 s"
  "server_kept md5 (RefuseSegmentsOver limit s) = server_kept md5 s"
  "server_kept md5 (StallNextPayloadRead prefix s) = server_kept md5 s"
  "server_kept md5 (CorruptNextPayload mode s) = server_kept md5 s"
  by (simp_all add: server_kept_def arming_defs)

lemma put_raw_kept: "server_kept md5 s \<Longrightarrow> server_kept md5 (PutRaw md5 bucket key body s)"
  by (auto simp: PutRaw_def server_kept_def)

lemma reach_kept: "server_reach md5 s \<Longrightarrow> server_kept md5 s"
proof (induction rule: server_reach.induct)
  case reach_New
  show ?case by (simp add: server_kept_def objects_kept_def uploads_kept_def ids_kept_def New_def)
next
  case (reach_move s bucket src dst)
  show ?case
  proof (cases "object_of s (objectID bucket src)")
    case None
    with reach_move.IH show ?thesis by (simp add: MoveRaw_def)
  next
    case (Some x)
    with reach_move.IH have "x = newObject md5 (ob_body x)"
      by (simp add: server_kept_def objects_kept_def)
    with Some reach_move.IH show ?thesis by (auto simp: MoveRaw_def server_kept_def)
  qed
qed (simp_all add: serve_kept OpenForeignUpload_def newUpload_kept put_raw_kept)

lemma upload_id_inj: "inj_on upload_id {..<2 ^ 64}"
proof (rule inj_onI)
  fix i j :: nat
  assume ij: "i \<in> {..<2 ^ 64}" "j \<in> {..<2 ^ 64}" "upload_id i = upload_id j"
  have "unat (word_of_nat k :: 64 word) = k" if "k < 2 ^ 64" for k
    using that by (simp add: unat_of_nat)
  with ij have "utoa i = utoa j" by (simp add: upload_id_def)
  then show "i = j" by (metis digits_val_utoa option.inject)
qed

text \<open>
  C25. In every state a fixture can reach, by requests of any kind and by any arming: an object is
  what \<open>newObject\<close> makes of its bytes, so its ETag is the MD5 of what a GET delivers; an upload in
  progress has an ID the fixture issued and only positive part numbers; the IDs issued count up
  from 1, and none is issued twice before \<open>nextID\<close> wraps.
\<close>

theorem reachable_servers_are_kept:
  assumes "server_reach md5 s"
  shows "server_kept md5 s
    \<and> (length (sv_createdUploads s) < 2 ^ 64 - 1 \<longrightarrow> distinct (sv_createdUploads s))"
proof -
  have kept: "server_kept md5 s" using assms by (rule reach_kept)
  moreover have "distinct (sv_createdUploads s)" if "length (sv_createdUploads s) < 2 ^ 64 - 1"
  proof -
    have ids: "sv_createdUploads s = map upload_id [1..<Suc (length (sv_createdUploads s))]"
      using kept by (simp add: server_kept_def ids_kept_def)
    have "inj_on upload_id (set [1..<Suc (length (sv_createdUploads s))])"
      using that by (intro inj_on_subset [OF upload_id_inj]) auto
    then have "distinct (map upload_id [1..<Suc (length (sv_createdUploads s))])"
      unfolding distinct_map by (intro conjI distinct_upt)
    then show ?thesis by (subst ids)
  qed
  ultimately show ?thesis by blast
qed

lemma reachable_servers_are_kept_witness:
  "server_kept (\<lambda>b. b) (snd (OpenForeignUpload ''b'' ''k'' (PutRaw (\<lambda>b. b) ''b'' ''k'' [1] New)))"
  using reachable_servers_are_kept
    [OF reach_open [OF reach_put [OF reach_New], of "\<lambda>b. b" "''b''" "''k''" "''b''" "''k''" "[1]"]]
  by blast

section \<open>Responses\<close>

definition response_ok :: "response \<Rightarrow> bool" where
  "response_ok r \<longleftrightarrow>
     (case rs_doc r of
        Bytes b \<Rightarrow> rs_status r \<in> {200, 206}
          \<and> value_of (rs_header r) ''Content-Length'' = itoa (int (length b))
          \<and> value_of (rs_header r) ''ETag'' \<noteq> []
      | ErrorDoc code \<Rightarrow> rs_status r \<in> {400, 404, 412, 416, 501}
      | _ \<Rightarrow> rs_status r \<in> {200, 204})"

text \<open>What a request can be answered, given what is armed and stored.\<close>

definition outcome_ok :: "server \<Rightarrow> outcome \<Rightarrow> bool" where
  "outcome_ok s out \<longleftrightarrow>
     (case out of
        Replied r \<Rightarrow> response_ok r
          \<or> (\<exists>op. \<exists>f \<in> set (sv_faults s op) \<union> set (sv_commitFaults s op).
               r = writeError [] (ft_status f) (ft_code f))
      | Withheld \<Rightarrow> \<exists>op. sv_blocks s op \<noteq> [] \<or> sv_commitBlocks s op \<noteq> []
      | Stalled r \<Rightarrow> \<exists>prefix \<in> set (sv_payloadStalls s). \<exists>i x. DAList.lookup (sv_objects s) i = Some x
          \<and> Stalled r = stallPayload x prefix)"

lemma error_ok [simp]: "response_ok (writeError h st code) \<longleftrightarrow> st \<in> {400, 404, 412, 416, 501}"
  by (simp add: response_ok_def writeError_def writeXML_def)

lemma parseRange_within:
  "parseRange value len = Some (a, b) \<Longrightarrow> 0 \<le> a \<and> a \<le> b \<and> b < len"
  by (auto simp: parseRange_def split: if_splits list.splits option.splits prod.splits)

lemma serveObject_ok:
  assumes "ob_etag x \<noteq> []"
  shows "response_ok (serveObject rq x)"
proof (cases "parseRange (value_of (rq_header rq) ''Range'') (int (length (ob_body x)))")
  case None
  with assms show ?thesis
    by (simp add: serveObject_def Let_def response_ok_def writeError_def writeXML_def value_of_def)
next
  case (Some r)
  obtain a b where r: "r = (a, b)" by (cases r)
  with parseRange_within Some have "0 \<le> a \<and> a \<le> b \<and> b < int (length (ob_body x))" by simp
  with Some r assms show ?thesis
    by (simp add: serveObject_def Let_def response_ok_def writeError_def writeXML_def value_of_def)
qed

lemma handlers_ok:
  "response_ok (fst (putObject md5 rq bucket key s))"
  "response_ok (headObject bucket key s)"
  "response_ok (fst (deleteObject bucket key s))"
  "response_ok (listObjects rq bucket s)"
  "response_ok (listMultipartUploads bucket s)"
  "response_ok (fst (createMultipart bucket key s))"
  "response_ok (fst (uploadPart md5 rq u raw s))"
  "response_ok (fst (completeMultipart md5 rq bucket key u s))"
  "response_ok (fst (abortMultipart u s))"
  by (auto simp: response_ok_def putObject_def headObject_def deleteObject_def listObjects_def
      listMultipartUploads_def createMultipart_def uploadPart_def completeMultipart_def
      abortMultipart_def writeError_def writeXML_def Let_def split: prod.split option.split list.split)

lemma get_ok:
  assumes "server_kept md5 s"
  shows "outcome_ok s (fst (getObject rq bucket key s))"
proof -
  have etag: "ob_etag x \<noteq> []" if "object_of s i = Some x" for i x
    using assms that
    by (metis append_is_Nil_conv list.discI newObject_def object.select_convs(2) objects_kept_def
        server_kept_def)
  show ?thesis
    by (auto simp: getObject_def outcome_ok_def Let_def stallPayload_def serveObject_ok etag
        split: option.split list.split)
qed

lemma route_ok:
  assumes "server_kept md5 s"
  shows "outcome_ok s (fst (route md5 rq bucket key s))"
  using get_ok [OF assms, of rq bucket key]
  by (simp add: route_def Let_def replied_def handlers_ok outcome_ok_def)

lemma pop_in: "fst (pop queues op) = Some x \<Longrightarrow> x \<in> set (queues op)"
  by (auto simp: pop_def split: list.splits)

lemma pop_sub: "set (snd (pop queues op) op') \<subseteq> set (queues op')"
  by (auto simp: pop_def split: list.splits if_splits)

lemma admit_armed:
  assumes "admit rq op s = (armed, s1)"
  shows "ar_fault armed = Some f \<Longrightarrow> f \<in> set (sv_faults s op)"
    "ar_commitFailure armed = Some f \<Longrightarrow> f \<in> set (sv_commitFaults s op)"
    "ar_blocked armed \<Longrightarrow> sv_blocks s op \<noteq> []"
    "ar_committed armed \<Longrightarrow> sv_commitBlocks s op \<noteq> []"
  using assms
  by (auto simp: admit_def dest: pop_in) (auto simp: pop_def split: list.splits)

lemma admit_outcome:
  assumes "outcome_ok (snd (admit rq op s)) out"
  shows "outcome_ok s out"
proof -
  have sub: "set (sv_faults (snd (admit rq op s)) q) \<subseteq> set (sv_faults s q)"
    "set (sv_commitFaults (snd (admit rq op s)) q) \<subseteq> set (sv_commitFaults s q)"
    "set (sv_blocks (snd (admit rq op s)) q) \<subseteq> set (sv_blocks s q)"
    "set (sv_commitBlocks (snd (admit rq op s)) q) \<subseteq> set (sv_commitBlocks s q)" for q
    by (simp_all add: admit_def pop_sub)
  have same: "sv_payloadStalls (snd (admit rq op s)) = sv_payloadStalls s" by (simp add: admit_def)
  show ?thesis
  proof (cases out)
    case (Replied r)
    with assms have "response_ok r \<or> (\<exists>q. \<exists>f \<in> set (sv_faults (snd (admit rq op s)) q)
        \<union> set (sv_commitFaults (snd (admit rq op s)) q). r = writeError [] (ft_status f) (ft_code f))"
      by (simp add: outcome_ok_def)
    with sub(1,2) have "response_ok r \<or> (\<exists>q. \<exists>f \<in> set (sv_faults s q) \<union> set (sv_commitFaults s q).
        r = writeError [] (ft_status f) (ft_code f))" by blast
    with Replied show ?thesis by (simp add: outcome_ok_def)
  next
    case Withheld
    with assms sub(3,4) show ?thesis by (auto simp: outcome_ok_def) (metis set_empty subset_empty)+
  next
    case (Stalled r)
    with assms same show ?thesis by (simp add: outcome_ok_def)
  qed
qed



end
