(* ===== verification/FixtureWorld.thy ===== *)
theory FixtureWorld
  imports ObjectStore TestServerFacts
begin

text \<open>
  The fixture as a world: a client that turns each command into the HTTP request S3 documents for
  it, sends it to \<open>serveHTTP\<close> and reads the response, and the proof that this world keeps the
  contract \<open>object_store\<close> while no fault is armed in the fixture.
\<close>

section \<open>The client\<close>

record fx =
  fx_server :: server
  fx_slots :: nat
  fx_draw :: "nat \<Rightarrow> bytes"
  fx_clock :: int
  fx_next :: nat

definition bucket_path :: "string \<Rightarrow> string" where
  "bucket_path bucket = slash # bucket"

definition object_path :: "string \<Rightarrow> string \<Rightarrow> string" where
  "object_path bucket key = slash # bucket @ slash # key"

definition field :: "string \<Rightarrow> string option \<Rightarrow> (string \<times> string) list" where
  "field name v = (case v of None \<Rightarrow> [] | Some x \<Rightarrow> [(name, x)])"

definition chunks :: "bytes \<Rightarrow> script" where
  "chunks b = (if b = [] then [] else [(b, None)])"

definition object_request ::
    "string \<Rightarrow> string \<Rightarrow> string \<Rightarrow> (string \<times> string) list \<Rightarrow> bytes \<Rightarrow> http_request" where
  "object_request m bucket key header b =
     \<lparr>rq_method = m, rq_path = object_path bucket key, rq_query = [], rq_header = header,
      rq_body = chunks b\<rparr>"

definition list_request :: "list_input \<Rightarrow> http_request" where
  "list_request i =
     \<lparr>rq_method = ''GET'', rq_path = bucket_path (li_bucket i),
      rq_query = [(''list-type'', ''2''), (''prefix'', li_prefix i), (''max-keys'', itoa (li_max i))]
        @ field ''continuation-token'' (li_token i),
      rq_header = [], rq_body = []\<rparr>"

text \<open>A status other than 2xx is a \<open>ResponseError\<close>; a response that does not come or does not end
  is waited for until the deadline.\<close>

definition reply_of :: "outcome \<Rightarrow> response result" where
  "reply_of out =
     (case out of
        Withheld \<Rightarrow> Inl CtxDeadlineExceeded
      | Stalled r \<Rightarrow> Inr r
      | Replied r \<Rightarrow> if rs_status r div 100 = 2 then Inr r else Inl (ResponseError (rs_status r)))"

definition exchange :: "(bytes \<Rightarrow> bytes) \<Rightarrow> http_request \<Rightarrow> fx \<Rightarrow> outcome \<times> fx" where
  "exchange md5 rq w =
     (case serveHTTP md5 rq (fx_server w) of (out, s) \<Rightarrow> (out, w\<lparr>fx_server := s\<rparr>))"

definition header_length :: "response \<Rightarrow> int option" where
  "header_length r = map_option int (digits_val 0 (value_of (rs_header r) ''Content-Length''))"

definition head_of :: "response \<Rightarrow> head_output" where
  "head_of r = \<lparr>ho_length = header_length r, ho_etag = map_of (rs_header r) ''ETag''\<rparr>"

definition body_of :: "outcome \<Rightarrow> response \<Rightarrow> body" where
  "body_of out r =
     \<lparr>bd_script = (case rs_doc r of Bytes b \<Rightarrow> chunks b | _ \<Rightarrow> [])
        @ (case out of Stalled _ \<Rightarrow> [([], Some CtxDeadlineExceeded)] | _ \<Rightarrow> []),
      bd_close = None\<rparr>"

definition get_of :: "outcome \<Rightarrow> response \<Rightarrow> get_output" where
  "get_of out r = \<lparr>go_body = Some (body_of out r), go_length = header_length r\<rparr>"

definition list_of :: "response \<Rightarrow> list_output" where
  "list_of r =
     (case rs_doc r of
        ListDoc d \<Rightarrow>
          \<lparr>lo_rows = map (\<lambda>c. Some (ct_key c)) (ld_contents d), lo_truncated = Some (ld_truncated d),
           lo_next = (if ld_next d = [] then None else Some (ld_next d))\<rparr>
      | _ \<Rightarrow> \<lparr>lo_rows = [], lo_truncated = None, lo_next = None\<rparr>)"

definition error_of :: "'a result \<Rightarrow> err option" where
  "error_of x = (case x of Inl e \<Rightarrow> Some e | Inr _ \<Rightarrow> None)"

text \<open>
  An upload reads its body with buffers of one part until an error comes, and at \<open>io.EOF\<close> puts what
  it read. Every read takes something from the source, so its size bounds the reads.
\<close>

definition part_bytes :: nat where [limits]: "part_bytes = 8388608"

fun drain :: "nat \<Rightarrow> script accounted \<Rightarrow> (bytes \<times> err) \<times> nat list" where
  "drain 0 r = (([], UnexpectedEOF), [])"
| "drain (Suc fuel) r =
     (case accounted_read script_read r part_bytes of
        ((b, Some e), r') \<Rightarrow> ((b, e), [part_bytes])
      | ((b, None), r') \<Rightarrow>
          (case drain fuel r' of ((bs, e), ns) \<Rightarrow> ((b @ bs, e), part_bytes # ns)))"

definition put_header :: "string option \<Rightarrow> string option \<Rightarrow> string option \<Rightarrow> (string \<times> string) list" where
  "put_header if_none_match sse kms =
     field ''If-None-Match'' if_none_match @ field ''X-Amz-Server-Side-Encryption'' sse
       @ field ''X-Amz-Server-Side-Encryption-Aws-Kms-Key-Id'' kms"

definition upload_to :: "(bytes \<Rightarrow> bytes) \<Rightarrow> upload_input \<Rightarrow> fx \<Rightarrow> resp \<times> fx" where
  "upload_to md5 u w =
     (case drain (Suc (script_work (acc_source (ui_body u)))) (ui_body u) of
        ((bs, e), ns) \<Rightarrow>
          (if e \<noteq> EOF then (RUpload (Inl e) ns, w)
           else case exchange md5 (object_request ''PUT'' (ui_bucket u) (ui_key u)
               (put_header (ui_if_none_match u) (ui_sse u) (ui_kms u)) bs) w of
             (out, w') \<Rightarrow>
               (RUpload (case reply_of out of Inl e \<Rightarrow> Inl e
                  | Inr _ \<Rightarrow> Inr (Some (int (length bs)))) ns, w')))"

definition random_block :: "nat \<Rightarrow> bytes \<Rightarrow> bytes" where
  "random_block n d = take n (d @ replicate n 0)"

primrec fixture_world :: "(bytes \<Rightarrow> bytes) \<Rightarrow> fx world" where
  "fixture_world md5 (HeadObject c i) w =
     (case exchange md5 (object_request ''HEAD'' (oi_bucket i) (oi_key i) [] []) w of
        (out, w') \<Rightarrow> (RHead (map_sum id head_of (reply_of out)), w'))"
| "fixture_world md5 (GetObject c g) w =
     (case exchange md5 (object_request ''GET'' (gi_bucket g) (gi_key g)
         (field ''Range'' (gi_range g) @ field ''If-Match'' (gi_if_match g)) []) w of
        (out, w') \<Rightarrow> (RGet (map_sum id (get_of out) (reply_of out)), w'))"
| "fixture_world md5 (PutObject c i) w =
     (case exchange md5 (object_request ''PUT'' (pi_bucket i) (pi_key i)
         (put_header (pi_if_none_match i) (pi_sse i) (pi_kms i)) (pi_body i)) w of
        (out, w') \<Rightarrow> (RErr (error_of (reply_of out)), w'))"
| "fixture_world md5 (DeleteObject c i) w =
     (case exchange md5 (object_request ''DELETE'' (oi_bucket i) (oi_key i) [] []) w of
        (out, w') \<Rightarrow> (RErr (error_of (reply_of out)), w'))"
| "fixture_world md5 (ListObjectsV2 c i) w =
     (case exchange md5 (list_request i) w of
        (out, w') \<Rightarrow> (RList (map_sum id list_of (reply_of out)), w'))"
| "fixture_world md5 (UploadObject c u) w = upload_to md5 u w"
| "fixture_world md5 (CtxErr c) w = (RErr None, w)"
| "fixture_world md5 Fresh w = (RFresh (fx_clock w) (fx_next w), w\<lparr>fx_next := fx_next w + 1\<rparr>)"
| "fixture_world md5 (Cancel i) w = (RDone, w)"
| "fixture_world md5 (RandRead n) w =
     (RRand (Some (random_block n (fx_draw w 0))), w\<lparr>fx_draw := \<lambda>j. fx_draw w (Suc j)\<rparr>)"
| "fixture_world md5 (Acquire c) w =
     (if fx_slots w = 0 then (RErr (Some CtxDeadlineExceeded), w)
      else (RErr None, w\<lparr>fx_slots := fx_slots w - 1\<rparr>))"
| "fixture_world md5 Release w = (RDone, w\<lparr>fx_slots := fx_slots w + 1\<rparr>)"

lemma fixture_answers: "answers c (fst (fixture_world md5 c w))"
  by (cases c) (auto simp: upload_to_def ctx_answer_def rand_ok_def random_block_def split: prod.split)

section \<open>The service it is\<close>

text \<open>Nothing is armed, and the objects are what \<open>newObject\<close> makes under identifiers of
  \<open>objectID\<close>.\<close>

definition calm :: "(bytes \<Rightarrow> bytes) \<Rightarrow> server \<Rightarrow> bool" where
  "calm md5 s \<longleftrightarrow>
     sv_faults s = (\<lambda>_. []) \<and> sv_blocks s = (\<lambda>_. []) \<and> sv_commitBlocks s = (\<lambda>_. [])
     \<and> sv_commitFaults s = (\<lambda>_. []) \<and> sv_payloadStalls s = [] \<and> sv_corruptPayloads s = []
     \<and> sv_segmentLimit s \<le> 0
     \<and> objects_kept md5 (sv_objects s)"

definition stored_at :: "string \<Rightarrow> server \<Rightarrow> string \<Rightarrow> bytes option" where
  "stored_at bucket s key = map_option ob_body (DAList.lookup (sv_objects s) (objectID bucket key))"

definition plain_bucket :: "string \<Rightarrow> bool" where
  "plain_bucket bucket \<longleftrightarrow> bucket \<noteq> [] \<and> slash \<notin> set bucket \<and> CHR 0x00 \<notin> set bucket"

definition resume_of :: "string \<Rightarrow> nat option" where
  "resume_of t = (case atoi t of Some n \<Rightarrow> if 0 \<le> n then Some (nat n) else None | None \<Rightarrow> None)"

definition service_of :: "(bytes \<Rightarrow> bytes) \<Rightarrow> string \<Rightarrow> fx \<Rightarrow> service" where
  "service_of md5 bucket w =
     \<lparr>so_bucket = bucket, so_objects = stored_at bucket (fx_server w),
      so_etag = (\<lambda>b. Some (ob_etag (newObject md5 b))), so_resume = resume_of,
      so_free = fx_slots w, so_draw = (\<lambda>j. random_block 16 (fx_draw w j))\<rparr>"

definition fixture_view :: "(bytes \<Rightarrow> bytes) \<Rightarrow> string \<Rightarrow> fx \<Rightarrow> service option" where
  "fixture_view md5 bucket w =
     (if calm md5 (fx_server w) \<and> plain_bucket bucket then Some (service_of md5 bucket w) else None)"

section \<open>serveHTTP while nothing is armed\<close>

lemma calm_admit:
  assumes "calm md5 s"
  shows "fst (admit rq operation s) =
      \<lparr>ar_fault = None, ar_blocked = False, ar_committed = False, ar_commitFailure = None\<rparr>"
    "calm md5 (snd (admit rq operation s))"
    "sv_objects (snd (admit rq operation s)) = sv_objects s"
  using assms by (simp_all add: calm_def admit_def pop_def)

lemma serve_calm:
  assumes "calm md5 s" "splitPath (rq_path rq) = Some (bucket, key)"
  obtains s1 where "calm md5 s1" "sv_objects s1 = sv_objects s"
    "serveHTTP md5 rq s = route md5 rq bucket key s1"
proof
  let ?a = "admit rq (operationName (rq_method rq) key (rq_query rq)) s"
  show "calm md5 (snd ?a)" "sv_objects (snd ?a) = sv_objects s" using calm_admit [OF assms(1)] by blast+
  show "serveHTTP md5 rq s = route md5 rq bucket key (snd ?a)"
    using assms calm_admit(1) [OF assms(1), of rq "operationName (rq_method rq) key (rq_query rq)"]
    by (cases ?a) (simp add: serveHTTP_def long_segment_def calm_def)
qed

lemma splitPath_object [simp]:
  "plain_bucket bucket \<Longrightarrow> splitPath (object_path bucket key) = Some (bucket, key)"
  by (simp add: splitPath_def object_path_def plain_bucket_def trim_prefix_def has_prefix_def
      split_on_append_sep)

lemma splitPath_bucket [simp]:
  "plain_bucket bucket \<Longrightarrow> splitPath (bucket_path bucket) = Some (bucket, [])"
  by (simp add: splitPath_def bucket_path_def plain_bucket_def trim_prefix_def has_prefix_def
      split_on_single)

lemma readBody_chunks [simp]: "readBody (chunks b) = (b, None)"
  by (simp add: chunks_def)

lemma value_of_field [simp]:
  "value_of (field n v @ rest) m = (if n = m \<and> v \<noteq> None then the v else value_of rest m)"
  "value_of (field n v) m = (if n = m \<and> v \<noteq> None then the v else [])"
  "value_of [] m = []"
  "value_of ((n, x) # rest) m = (if n = m then x else value_of rest m)"
  by (auto simp: value_of_def field_def split: option.split)

lemma objectID_inject [simp]: "objectID b k = objectID b k' \<longleftrightarrow> k = k'"
  by (simp add: objectID_def)

lemma stored_at_simps:
  "stored_at b (s\<lparr>sv_objects := DAList.update (objectID b k) x (sv_objects s)\<rparr>)
    = (stored_at b s)(k \<mapsto> ob_body x)"
  "stored_at b (s\<lparr>sv_objects := DAList.delete (objectID b k) (sv_objects s)\<rparr>)
    = (stored_at b s)(k := None)"
  by (auto simp: stored_at_def fun_eq_iff lookup_update)

lemma stored_at_cong: "sv_objects s = sv_objects t \<Longrightarrow> stored_at b s = stored_at b t"
  by (simp add: stored_at_def fun_eq_iff)

lemma calm_put: "calm md5 s \<Longrightarrow>
    calm md5 (s\<lparr>sv_objects := DAList.update (objectID b k) (newObject md5 x) (sv_objects s)\<rparr>)"
  by (auto simp: calm_def)

lemma calm_delete: "calm md5 s \<Longrightarrow>
    calm md5 (s\<lparr>sv_objects := DAList.delete i (sv_objects s)\<rparr>)"
  by (auto simp: calm_def)

lemma calm_kept: "calm md5 s \<Longrightarrow> objects_kept md5 (sv_objects s)"
  by (simp add: calm_def)

lemma lookup_stored:
  assumes "objects_kept md5 (sv_objects s)"
  shows "DAList.lookup (sv_objects s) (objectID b k) = map_option (newObject md5) (stored_at b s k)"
proof (cases "DAList.lookup (sv_objects s) (objectID b k)")
  case (Some x)
  with assms have "x = newObject md5 (ob_body x)" by (simp add: objects_kept_def)
  with Some show ?thesis by (simp add: stored_at_def)
qed (simp add: stored_at_def)

lemma newObject_simps [simp]: "ob_body (newObject md5 b) = b" "ob_etag (newObject md5 b) \<noteq> []"
  by (simp_all add: newObject_def)

lemma length_header [simp]:
  "0 \<le> n \<Longrightarrow> map_option int (digits_val 0 (itoa n)) = Some n"
  by (simp add: itoa_def digits_val_utoa)

lemma contains_char: "contains s [c] \<longleftrightarrow> c \<in> set s"
  by (induction s) (auto simp: has_prefix_def)

lemma parseRange_byte_range:
  assumes "0 \<le> lo" "lo \<le> hi" "hi < 2 ^ 63"
  shows "parseRange (byte_range lo hi) len =
    (if len \<le> lo then None else Some (lo, if len \<le> hi then len - 1 else hi))"
proof -
  have digits: "c \<notin> set (itoa i)" if "0 \<le> i" "c \<notin> decimal_chars" for c i
    using itoa_chars [OF that(1)] that(2) by blast
  have chars: "CHR ''-'' \<notin> decimal_chars" "CHR '','' \<notin> decimal_chars"
    by (simp_all add: decimal_chars_def)
  have shape: "byte_range lo hi = ''bytes='' @ itoa lo @ CHR ''-'' # itoa hi"
    by (simp add: byte_range_def)
  have "split_on (CHR ''-'') (itoa lo @ CHR ''-'' # itoa hi) = [itoa lo, itoa hi]"
    using assms digits chars by (simp add: split_on_append_sep split_on_single)
  moreover have "\<not> contains (byte_range lo hi) '',''"
    using assms digits chars unfolding contains_char shape by simp
  moreover have "has_prefix (byte_range lo hi) ''bytes=''"
    "trim_prefix (byte_range lo hi) ''bytes='' = itoa lo @ CHR ''-'' # itoa hi"
    unfolding shape by (rule has_prefix_append, rule trim_prefix_append)
  ultimately show ?thesis
    using assms itoa_chars [of lo] itoa_chars [of hi] by (simp add: parseRange_def atoi_itoa)
qed

lemma cutID_objectID:
  assumes "plain_bucket bucket"
  shows "cutID (objectID bucket k) = (bucket, k)"
proof -
  have plain: "c \<noteq> CHR 0x00" if "c \<in> set bucket" for c
    using that assms by (auto simp: plain_bucket_def)
  show ?thesis
    using takeWhile_append2 [OF plain, of bucket "\<lambda>c. c" "CHR 0x00 # k"]
      dropWhile_append2 [OF plain, of bucket "\<lambda>c. c" "CHR 0x00 # k"]
    by (simp add: cutID_def objectID_def)
qed

lemma objectID_cutID:
  assumes "CHR 0x00 \<in> set i"
  shows "objectID (fst (cutID i)) (snd (cutID i)) = i"
proof -
  from assms obtain x xs where x: "dropWhile (\<lambda>c. c \<noteq> CHR 0x00) i = x # xs"
    by (cases "dropWhile (\<lambda>c. c \<noteq> CHR 0x00) i") (auto simp: dropWhile_eq_Nil_conv)
  then have "x = CHR 0x00" using hd_dropWhile [of "\<lambda>c. c \<noteq> CHR 0x00" i] by simp
  with x takeWhile_dropWhile_id [of "\<lambda>c. c \<noteq> CHR 0x00" i] show ?thesis
    by (simp add: objectID_def cutID_def)
qed

lemma keys_with_listing:
  assumes "objects_kept md5 (sv_objects s)" "plain_bucket bucket"
  shows "keys_with s bucket prefix =
    sorted_list_of_set {k \<in> dom (stored_at bucket s). has_prefix k prefix}"
proof -
  let ?ids = "map fst (DAList.impl_of (sv_objects s))"
  let ?sel = "filter (\<lambda>i. fst (cutID i) = bucket \<and> has_prefix (snd (cutID i)) prefix) ?ids"
  have dom: "i \<in> set ?ids \<longleftrightarrow> DAList.lookup (sv_objects s) i \<noteq> None" for i
    by (simp add: DAList.lookup_def map_of_eq_None_iff)
  have ident: "objectID (fst (cutID i)) (snd (cutID i)) = i" if "i \<in> set ?ids" for i
    by (rule objectID_cutID) (use that assms(1) dom in \<open>auto simp: objects_kept_def\<close>)
  have "inj_on (snd \<circ> cutID) (set ?sel)"
    by (rule inj_on_inverseI [of _ "objectID bucket"]) (use ident in auto)
  then have distinct: "distinct (map (snd \<circ> cutID) ?sel)"
    by (simp add: distinct_map [of "snd \<circ> cutID"])
  have "k \<in> set (map (snd \<circ> cutID) ?sel) \<longleftrightarrow> k \<in> dom (stored_at bucket s) \<and> has_prefix k prefix" for k
  proof
    assume "k \<in> set (map (snd \<circ> cutID) ?sel)"
    then obtain i where i: "i \<in> set ?ids" "fst (cutID i) = bucket" "snd (cutID i) = k"
      "has_prefix k prefix" by auto
    with ident [OF i(1)] dom show "k \<in> dom (stored_at bucket s) \<and> has_prefix k prefix"
      by (auto simp: stored_at_def)
  next
    assume "k \<in> dom (stored_at bucket s) \<and> has_prefix k prefix"
    then have "objectID bucket k \<in> set ?sel"
      using dom cutID_objectID [OF assms(2)] by (auto simp: stored_at_def)
    then have "(snd \<circ> cutID) (objectID bucket k) \<in> set (map (snd \<circ> cutID) ?sel)" by (simp only: set_map) blast
    then show "k \<in> set (map (snd \<circ> cutID) ?sel)" using cutID_objectID [OF assms(2)] by simp
  qed
  then have "set (map (snd \<circ> cutID) ?sel) = {k \<in> dom (stored_at bucket s). has_prefix k prefix}" by blast
  with sort_distinct [OF distinct] show ?thesis by (simp only: keys_with_def)
qed

section \<open>The contract\<close>

lemma exchange_calm:
  assumes "calm md5 (fx_server w)" "splitPath (rq_path rq) = Some (bucket, key)"
  obtains s1 out s2 where "calm md5 s1" "sv_objects s1 = sv_objects (fx_server w)"
    "route md5 rq bucket key s1 = (out, s2)" "exchange md5 rq w = (out, w\<lparr>fx_server := s2\<rparr>)"
proof -
  from serve_calm [OF assms] obtain s1 where s1: "calm md5 s1"
    "sv_objects s1 = sv_objects (fx_server w)" "serveHTTP md5 rq (fx_server w) = route md5 rq bucket key s1" .
  moreover obtain out s2 where "route md5 rq bucket key s1 = (out, s2)" by (metis surj_pair)
  ultimately show thesis by (intro that [of s1 out s2]) (simp_all add: exchange_def)
qed

lemma exchange_object:
  assumes "calm md5 (fx_server w)" "plain_bucket bucket" "rq = object_request m bucket key h b"
  obtains s1 out s2 where "calm md5 s1" "sv_objects s1 = sv_objects (fx_server w)"
    "DAList.lookup (sv_objects s1) (objectID bucket key)
      = map_option (newObject md5) (stored_at bucket (fx_server w) key)"
    "route md5 rq bucket key s1 = (out, s2)" "exchange md5 rq w = (out, w\<lparr>fx_server := s2\<rparr>)"
proof -
  have "splitPath (rq_path rq) = Some (bucket, key)" using assms(2,3) by (simp add: object_request_def)
  from exchange_calm [OF assms(1) this] obtain s1 out s2 where s1: "calm md5 s1"
    "sv_objects s1 = sv_objects (fx_server w)" "route md5 rq bucket key s1 = (out, s2)"
    "exchange md5 rq w = (out, w\<lparr>fx_server := s2\<rparr>)" .
  moreover have "stored_at bucket s1 = stored_at bucket (fx_server w)" using s1(2) by (rule stored_at_cong)
  with lookup_stored [OF calm_kept [OF s1(1)], of bucket key] have "DAList.lookup (sv_objects s1) (objectID bucket key)
      = map_option (newObject md5) (stored_at bucket (fx_server w) key)" by simp
  ultimately show thesis using that by blast
qed

lemma service_same:
  "sv_objects s = sv_objects (fx_server w) \<Longrightarrow>
   service_of md5 bucket (w\<lparr>fx_server := s\<rparr>) = service_of md5 bucket w"
  by (simp add: service_of_def stored_at_cong [of s "fx_server w"])

lemma service_of_simps [simp]:
  "so_bucket (service_of md5 bucket w) = bucket"
  "so_objects (service_of md5 bucket w) = stored_at bucket (fx_server w)"
  "so_etag (service_of md5 bucket w) b = Some (ob_etag (newObject md5 b))"
  "so_resume (service_of md5 bucket w) = resume_of"
  "so_free (service_of md5 bucket w) = fx_slots w"
  "so_draw (service_of md5 bucket w) j = random_block 16 (fx_draw w j)"
  by (simp_all add: service_of_def)

text \<open>What a step of the fixture must give: again nothing armed, and the service's step.\<close>

definition steps_well :: "(bytes \<Rightarrow> bytes) \<Rightarrow> string \<Rightarrow> fx \<Rightarrow> cmd \<Rightarrow> bool" where
  "steps_well md5 bucket w c \<longleftrightarrow>
     (case fixture_world md5 c w of (r, w') \<Rightarrow>
        calm md5 (fx_server w') \<and> s3_step (service_of md5 bucket w) c r (service_of md5 bucket w'))"

lemma status_error [simp]: "isHTTPStatus (ResponseError n) m \<longleftrightarrow> n = m"
  by (simp add: isHTTPStatus_def)

lemmas handler_defs = replied_def reply_of_def writeError_def writeXML_def object_request_def

lemma head_well:
  assumes "calm md5 (fx_server w)" "plain_bucket bucket" "oi_bucket i = bucket" "oi_key i \<noteq> []"
  shows "steps_well md5 bucket w (HeadObject c i)"
proof -
  from exchange_object [OF assms(1,2) refl, of "oi_key i" "''HEAD''" "[]" "[]"] obtain s1 out s2
    where s1: "calm md5 s1" "sv_objects s1 = sv_objects (fx_server w)"
      "DAList.lookup (sv_objects s1) (objectID bucket (oi_key i))
        = map_option (newObject md5) (stored_at bucket (fx_server w) (oi_key i))"
      "route md5 (object_request ''HEAD'' bucket (oi_key i) [] []) bucket (oi_key i) s1 = (out, s2)"
      "exchange md5 (object_request ''HEAD'' bucket (oi_key i) [] []) w = (out, w\<lparr>fx_server := s2\<rparr>)" .
  from s1(4) assms(4) have out: "out = Replied (headObject bucket (oi_key i) s1)" "s2 = s1"
    by (auto simp: route_def object_request_def)
  show ?thesis
    using s1 out assms(3) service_same [OF s1(2)]
    by (cases "stored_at bucket (fx_server w) (oi_key i)")
      (simp_all add: steps_well_def headObject_def handler_defs head_of_def header_length_def)
qed

lemma delivers_chunks:
  "delivers b (RGet (Inr \<lparr>go_body = Some \<lparr>bd_script = chunks b, bd_close = None\<rparr>,
     go_length = Some (int (length b))\<rparr>))"
  by (simp add: delivers_def chunks_def proper_def script_bytes_def)

text \<open>What the fixture answers a GET, and that only the record of ranges changes.\<close>

lemma get_calm:
  assumes "calm md5 s" "getObject rq bucket key s = (out, s')"
    and "DAList.lookup (sv_objects s) (objectID bucket key) = map_option (newObject md5) content"
  shows "out = Replied (case content of None \<Rightarrow> writeError [] 404 ''NoSuchKey''
      | Some b \<Rightarrow> serveObject rq (newObject md5 b))"
    "calm md5 s'" "sv_objects s' = sv_objects s"
proof -
  have unstalled: "sv_payloadStalls s = []" using assms(1) by (simp add: calm_def)
  show "out = Replied (case content of None \<Rightarrow> writeError [] 404 ''NoSuchKey''
      | Some b \<Rightarrow> serveObject rq (newObject md5 b))"
    using assms(2,3) unstalled by (auto simp: getObject_def Let_def split: option.splits if_splits)
  have "s' = s\<lparr>sv_ranges := sv_ranges s', sv_rangeIfMatches := sv_rangeIfMatches s'\<rparr>"
    using assms(2,3) unstalled by (auto simp: getObject_def Let_def split: option.splits if_splits)
  then obtain rs ms where "s' = s\<lparr>sv_ranges := rs, sv_rangeIfMatches := ms\<rparr>" by blast
  then show "calm md5 s'" "sv_objects s' = sv_objects s" using assms(1) by (simp_all add: calm_def)
qed

text \<open>The GET the client sends for \<open>g\<close>, served of an object with content \<open>b\<close>.\<close>

abbreviation get_request :: "get_input \<Rightarrow> http_request" where
  "get_request g \<equiv> object_request ''GET'' (gi_bucket g) (gi_key g)
     (field ''Range'' (gi_range g) @ field ''If-Match'' (gi_if_match g)) []"

lemma served_whole:
  assumes "gi_if_match g \<in> {None, Some (ob_etag (newObject md5 b))}" "gi_range g = None"
    and "out = Replied (serveObject (get_request g) (newObject md5 b))"
  shows "delivers b (RGet (map_sum id (get_of out) (reply_of out)))"
  using assms delivers_chunks [of b]
  by (auto simp: serveObject_def handler_defs get_of_def body_of_def header_length_def Let_def)

lemma served_part:
  assumes "gi_if_match g \<in> {None, Some (ob_etag (newObject md5 b))}"
    and "gi_range g = Some (byte_range lo hi)"
    and "out = Replied (serveObject (get_request g) (newObject md5 b))"
    and "0 \<le> lo" "lo \<le> hi" "hi < int (length b)" "hi < 2 ^ 63"
  shows "delivers (slice_of b lo hi) (RGet (map_sum id (get_of out) (reply_of out)))"
proof -
  have "byte_range lo hi \<noteq> []" by (simp add: byte_range_def)
  with assms parseRange_byte_range [OF assms(4,5,7)] delivers_chunks [of "slice_of b lo hi"]
  show ?thesis
    by (auto simp: serveObject_def handler_defs get_of_def body_of_def header_length_def Let_def
        slice_of_def)
qed

lemma get_well:
  assumes "calm md5 (fx_server w)" "plain_bucket (gi_bucket g)" "gi_key g \<noteq> []"
  shows "steps_well md5 (gi_bucket g) w (GetObject c g)"
proof -
  let ?bucket = "gi_bucket g"
  from exchange_object [OF assms(1,2) refl, of "gi_key g" "''GET''"
      "field ''Range'' (gi_range g) @ field ''If-Match'' (gi_if_match g)" "[]"]
  obtain s1 out s2 where s1: "calm md5 s1" "sv_objects s1 = sv_objects (fx_server w)"
      "DAList.lookup (sv_objects s1) (objectID ?bucket (gi_key g))
        = map_option (newObject md5) (stored_at ?bucket (fx_server w) (gi_key g))"
      "route md5 (get_request g) ?bucket (gi_key g) s1 = (out, s2)"
      "exchange md5 (get_request g) w = (out, w\<lparr>fx_server := s2\<rparr>)" .
  have "getObject (get_request g) ?bucket (gi_key g) s1 = (out, s2)"
    using s1(4) assms(3) by (simp add: route_def object_request_def)
  note get = get_calm [OF s1(1) this s1(3)]
  have same: "sv_objects s2 = sv_objects (fx_server w)" using get(3) s1(2) by simp
  show ?thesis
  proof (cases "stored_at ?bucket (fx_server w) (gi_key g)")
    case None
    with s1(5) get service_same [OF same] show ?thesis by (simp add: steps_well_def handler_defs)
  next
    case (Some b)
    then have "out = Replied (serveObject (get_request g) (newObject md5 b))" using get(1) by simp
    with s1(5) get(2) service_same [OF same] Some served_whole [of g md5 b out]
      served_part [of g md5 b _ _ out]
    show ?thesis by (auto simp: steps_well_def split: option.split)
  qed
qed

lemma put_header_create:
  "put_header (Some ''*'') sse kms = field ''If-None-Match'' (Some ''*'')
     @ (field ''X-Amz-Server-Side-Encryption'' sse
       @ field ''X-Amz-Server-Side-Encryption-Aws-Kms-Key-Id'' kms)"
  by (simp add: put_header_def)

lemma put_well:
  assumes "calm md5 (fx_server w)" "plain_bucket bucket" "key \<noteq> []"
    and "rq = object_request ''PUT'' bucket key (field ''If-None-Match'' (Some ''*'') @ h) b"
    and "exchange md5 rq w = (out, w')"
  shows "case stored_at bucket (fx_server w) key of
      None \<Rightarrow> (\<exists>r. reply_of out = Inr r) \<and> calm md5 (fx_server w')
        \<and> service_of md5 bucket w' = service_of md5 bucket w
            \<lparr>so_objects := (stored_at bucket (fx_server w))(key \<mapsto> b)\<rparr>
    | Some old \<Rightarrow> reply_of out = Inl (ResponseError 412) \<and> calm md5 (fx_server w')
        \<and> service_of md5 bucket w' = service_of md5 bucket w"
proof -
  from exchange_object [OF assms(1,2,4)] obtain s1 out' s2 where s1: "calm md5 s1"
      "sv_objects s1 = sv_objects (fx_server w)"
      "DAList.lookup (sv_objects s1) (objectID bucket key)
        = map_option (newObject md5) (stored_at bucket (fx_server w) key)"
      "route md5 rq bucket key s1 = (out', s2)" "exchange md5 rq w = (out', w\<lparr>fx_server := s2\<rparr>)" .
  with assms(5) have w': "out' = out" "w' = w\<lparr>fx_server := s2\<rparr>" by simp_all
  have "replied (putObject md5 rq bucket key s1) = (out, s2)"
    using s1(4) w'(1) assms(3,4) by (simp add: route_def object_request_def Let_def)
  moreover have "stored_at bucket s1 = stored_at bucket (fx_server w)" using s1(2) by (rule stored_at_cong)
  moreover have "sv_corruptPayloads s1 = []" using s1(1) by (simp add: calm_def)
  ultimately show ?thesis
    using s1(1-3) w'(2) assms(4) calm_put [OF s1(1)] service_same [OF s1(2)]
      stored_at_simps(1) [of bucket key _ s1]
    by (cases "stored_at bucket (fx_server w) key")
      (auto simp: putObject_def handler_defs Let_def service_of_def split: if_splits)
qed

lemma create_well:
  assumes "calm md5 (fx_server w)" "plain_bucket (pi_bucket i)" "pi_key i \<noteq> []"
    and "pi_if_none_match i = Some ''*''"
  shows "steps_well md5 (pi_bucket i) w (PutObject c i)"
proof -
  obtain out w' where x: "exchange md5 (object_request ''PUT'' (pi_bucket i) (pi_key i)
      (put_header (Some ''*'') (pi_sse i) (pi_kms i)) (pi_body i)) w = (out, w')"
    by (metis surj_pair)
  from put_well [OF assms(1-3) refl x [unfolded put_header_create]] show ?thesis
    using x assms(4) by (auto simp: steps_well_def error_of_def split: option.splits)
qed

lemma delete_well:
  assumes "calm md5 (fx_server w)" "plain_bucket (oi_bucket i)" "oi_key i \<noteq> []"
  shows "steps_well md5 (oi_bucket i) w (DeleteObject c i)"
proof -
  let ?bucket = "oi_bucket i"
  from exchange_object [OF assms(1,2) refl, of "oi_key i" "''DELETE''" "[]" "[]"] obtain s1 out s2
    where s1: "calm md5 s1" "sv_objects s1 = sv_objects (fx_server w)"
      "route md5 (object_request ''DELETE'' ?bucket (oi_key i) [] []) ?bucket (oi_key i) s1 = (out, s2)"
      "exchange md5 (object_request ''DELETE'' ?bucket (oi_key i) [] []) w = (out, w\<lparr>fx_server := s2\<rparr>)" .
  from s1(3) assms(3) have "replied (deleteObject ?bucket (oi_key i) s1) = (out, s2)"
    by (simp add: route_def object_request_def Let_def value_of_def)
  moreover have "stored_at ?bucket s1 = stored_at ?bucket (fx_server w)"
    using s1(2) by (rule stored_at_cong)
  ultimately show ?thesis
    using s1(1,4) calm_delete [OF s1(1)] stored_at_simps(2) [of ?bucket "oi_key i" s1]
    by (auto simp: steps_well_def deleteObject_def handler_defs error_of_def service_of_def)
qed

lemma page_size_pos: "0 < page_size rq s"
  by (auto simp: page_size_def Let_def split: option.splits)

lemma list_page_from:
  assumes "start \<le> length ks" "int (length ks) \<le> max_int64"
  shows "page_from (service_of md5 bucket w) ks start
    (list_of (writeXML [] 200 (ListDoc (list_page rq bucket ks (int start) s))))"
proof -
  define stop where "stop = min (int start + page_size rq s) (int (length ks))"
  have "int start \<le> stop" "stop \<le> int (length ks)"
    using assms(1) page_size_pos [of rq s] by (auto simp: stop_def)
  then obtain n where n: "stop = int n" "start \<le> n" "n \<le> length ks"
    by (metis nat_int_comparison(3) zero_le_imp_eq_int of_nat_0_le_iff order_trans)
  have more: "start < n" if "n < length ks"
    using that page_size_pos [of rq s] n(1) by (auto simp: stop_def min_def split: if_splits)
  have token: "itoa stop \<noteq> []" "resume_of (itoa stop) = Some n"
    using n assms(2) itoa_chars [of stop] atoi_itoa [of stop]
    by (simp_all add: resume_of_def max_int64_def)
  have out: "list_of (writeXML [] 200 (ListDoc (list_page rq bucket ks (int start) s))) =
      \<lparr>lo_rows = map Some (take (n - start) (drop start ks)), lo_truncated = Some (n < length ks),
       lo_next = (if n < length ks then Some (itoa stop) else None)\<rparr>"
    using n token(1) unfolding list_of_def writeXML_def list_page_def Let_def stop_def [symmetric]
    by (simp add: o_def nat_diff_distrib)
  show ?thesis
    unfolding page_from_def out
    by (rule exI [of _ "n - start"]) (use n more token in auto)
qed

lemma list_well:
  assumes "calm md5 (fx_server w)" "plain_bucket (li_bucket i)" "li_token i \<noteq> Some []"
    and "int (length (listing (service_of md5 (li_bucket i) w) (li_prefix i))) \<le> max_int64"
  shows "steps_well md5 (li_bucket i) w (ListObjectsV2 c i)"
proof -
  let ?bucket = "li_bucket i" and ?rq = "list_request i"
  let ?v = "service_of md5 ?bucket w"
  have "splitPath (rq_path ?rq) = Some (?bucket, [])" using assms(2) by (simp add: list_request_def)
  from exchange_calm [OF assms(1) this] obtain s1 out s2 where s1: "calm md5 s1"
    "sv_objects s1 = sv_objects (fx_server w)" "route md5 ?rq ?bucket [] s1 = (out, s2)"
    "exchange md5 ?rq w = (out, w\<lparr>fx_server := s2\<rparr>)" .
  from s1(3) have out: "out = Replied (listObjects ?rq ?bucket s1)" "s2 = s1"
    by (auto simp: route_def list_request_def)
  have stored: "stored_at ?bucket s1 = stored_at ?bucket (fx_server w)" using s1(2) by (rule stored_at_cong)
  have ks: "keys_with s1 ?bucket (li_prefix i) = listing ?v (li_prefix i)"
    unfolding keys_with_listing [OF calm_kept [OF s1(1)] assms(2)] stored by (simp add: listing_def)
  have token: "value_of (rq_query ?rq) ''continuation-token'' = (case li_token i of None \<Rightarrow> [] | Some t \<Rightarrow> t)"
    "value_of (rq_query ?rq) ''prefix'' = li_prefix i"
    by (auto simp: list_request_def split: option.split)
  have "\<exists>o'. reply_of out = Inr o' \<and> page_from ?v (listing ?v (li_prefix i)) start (list_of o')"
    if "resume_at ?v (li_token i) = Some start" "start \<le> length (listing ?v (li_prefix i))" for start
  proof -
    have "listObjects ?rq ?bucket s1 =
        writeXML [] 200 (ListDoc (list_page ?rq ?bucket (listing ?v (li_prefix i)) (int start) s1))"
      using that assms(3) unfolding listObjects_def token ks Let_def
      by (auto simp: resume_at_def resume_of_def split: option.splits if_splits)
    with out(1) list_page_from [OF that(2) assms(4)]
    show ?thesis by (simp add: reply_of_def writeXML_def)
  qed
  then show ?thesis
    using s1(1,4) out(2) service_same [OF s1(2)] by (fastforce simp: steps_well_def)
qed

lemma accounted_read_work:
  assumes "accounted_ok r" "accounted_read script_read r part_bytes = ((b, None), t)"
  shows "script_work (acc_source t) < script_work (acc_source r)"
proof -
  define m where "m = (if acc_size r = acc_maximum r then 1
    else clip part_bytes (acc_maximum r - acc_size r))"
  have "0 < m" using assms(1) by (auto simp: m_def clip_def accounted_ok_def part_bytes_def)
  obtain c e s where rd: "script_read (acc_source r) m = ((c, e), s)" by (metis surj_pair)
  then have "e = None" "acc_source t = s"
    using assms(2)
    by (auto simp: accounted_read_def m_def part_bytes_def Let_def split: if_splits)
  moreover from this rd have "acc_source r \<noteq> []" by auto
  ultimately show ?thesis using script_work_read [OF _ \<open>0 < m\<close> rd] by simp
qed

lemma drain_reads:
  "accounted_ok r \<Longrightarrow> script_work (acc_source r) < n \<Longrightarrow> drain n r = ((bs, e), ns) \<Longrightarrow>
   \<exists>es rest. read_seq (accounted_read script_read) r ns = ((bs, es @ [Some e]), rest)
     \<and> set es \<subseteq> {None}"
proof (induction n arbitrary: r bs ns)
  case (Suc n)
  obtain b x t where rd: "accounted_read script_read r part_bytes = ((b, x), t)" by (metis surj_pair)
  show ?case
  proof (cases x)
    case (Some err)
    with rd Suc.prems(3) show ?thesis by (auto intro: exI [of _ "[]"])
  next
    case None
    obtain bs' ns' where d: "drain n t = ((bs', e), ns')" "bs = b @ bs'" "ns = part_bytes # ns'"
      using Suc.prems(3) rd None by (auto split: prod.splits)
    have "script_work (acc_source t) < n"
      using accounted_read_work [OF Suc.prems(1) rd [unfolded None]] Suc.prems(2) by simp
    from Suc.IH [OF script.accounted_readD(1) [OF Suc.prems(1) rd] this d(1)] obtain es rest where
      "read_seq (accounted_read script_read) t ns' = ((bs', es @ [Some e]), rest)" "set es \<subseteq> {None}"
      by blast
    with rd d None show ?thesis by (intro exI [of _ "None # es"]) auto
  qed
qed simp

lemma upload_well:
  assumes "calm md5 (fx_server w)" "plain_bucket (ui_bucket u)" "ui_key u \<noteq> []"
    and "stored_at (ui_bucket u) (fx_server w) (ui_key u) = None"
    and "ui_if_none_match u = Some ''*''" "accounted_ok (ui_body u)"
  shows "steps_well md5 (ui_bucket u) w (UploadObject c u)"
proof -
  obtain bs e ns where d: "drain (Suc (script_work (acc_source (ui_body u)))) (ui_body u) = ((bs, e), ns)"
    by (metis surj_pair)
  from drain_reads [OF assms(6) lessI d] obtain es rest where seq:
    "read_seq (accounted_read script_read) (ui_body u) ns = ((bs, es @ [Some e]), rest)"
    "set es \<subseteq> {None}" by blast
  show ?thesis
  proof (cases "e = EOF")
    case False
    with d seq assms(1) show ?thesis
      by (simp add: steps_well_def upload_to_def upload_step_def)
  next
    case True
    obtain out w' where x: "exchange md5 (object_request ''PUT'' (ui_bucket u) (ui_key u)
        (put_header (Some ''*'') (ui_sse u) (ui_kms u)) bs) w = (out, w')" by (metis surj_pair)
    from put_well [OF assms(1-3) refl x [unfolded put_header_create]] assms(4)
    have "\<exists>r. reply_of out = Inr r" "calm md5 (fx_server w')"
      "service_of md5 (ui_bucket u) w' = service_of md5 (ui_bucket u) w
        \<lparr>so_objects := (stored_at (ui_bucket u) (fx_server w))(ui_key u \<mapsto> bs)\<rparr>" by simp_all
    with d seq True x assms(5) show ?thesis
      by (auto simp: steps_well_def upload_to_def upload_step_def)
  qed
qed

lemma fixture_step:
  assumes "fixture_view md5 bucket w = Some v" "admissible v c" "fixture_world md5 c w = (r, w')"
  shows "\<exists>v'. fixture_view md5 bucket w' = Some v' \<and> s3_step v c r v'"
proof -
  have calm: "calm md5 (fx_server w)" and plain: "plain_bucket bucket" and v: "v = service_of md5 bucket w"
    using assms(1) by (auto simp: fixture_view_def split: if_splits)
  have "steps_well md5 bucket w c"
  proof (cases c)
    case (HeadObject x i)
    with assms(2) v calm plain show ?thesis by (auto intro: head_well)
  next
    case (GetObject x g)
    with assms(2) v calm plain get_well [of md5 w g] show ?thesis by simp
  next
    case (PutObject x i)
    with assms(2) v calm plain create_well [of md5 w i] show ?thesis by simp
  next
    case (DeleteObject x i)
    with assms(2) v calm plain delete_well [of md5 w i] show ?thesis by simp
  next
    case (ListObjectsV2 x i)
    with assms(2) v calm plain list_well [of md5 w i] show ?thesis by simp
  next
    case (UploadObject x u)
    with assms(2) v calm plain upload_well [of md5 w u] show ?thesis by simp
  qed (use assms(2) v calm in \<open>auto simp: steps_well_def service_of_def\<close>)
  with assms(3) plain v show ?thesis by (auto simp: steps_well_def fixture_view_def)
qed

interpretation fixture: object_store "fixture_world md5" "fixture_view md5 bucket"
  for md5 bucket
  by unfold_locales (rule fixture_step)

end
