(* ===== verification/BlobRefinement.thy ===== *)
theory BlobRefinement
  imports BlobHistory FixtureWorld
begin

text \<open>
  The operations over any object store that keeps the contract, and over the fixture, refine the
  abstract map of blobs.
\<close>

section \<open>The fixture\<close>

text \<open>A fresh fixture for one bucket, for the witnesses.\<close>

definition empty_fixture :: fx where
  "empty_fixture =
     \<lparr>fx_server = New, fx_slots = 4, fx_draw = (\<lambda>j. replicate 15 0 @ [word_of_nat j]),
      fx_clock = 0, fx_next = 0\<rparr>"

lemma stored_at_New [simp]: "stored_at bucket New = Map.empty"
  by (simp add: stored_at_def New_def fun_eq_iff)

lemma empty_fixture_view:
  "fixture_view md5 ''bucket'' empty_fixture = Some (service_of md5 ''bucket'' empty_fixture)"
  by (simp add: fixture_view_def calm_def objects_kept_def plain_bucket_def empty_fixture_def New_def)

lemma blobs_ok_empty: "blobs_ok vn p Map.empty"
  by (simp add: blobs_ok_def)

lemma sample_fits: "fits grammar_validator sample_store (service_of md5 ''bucket'' empty_fixture)"
proof -
  have "grammar_validator ''dep'' = None" by code_simp
  then show ?thesis
    by (simp add: fits_def empty_fixture_def blobs_ok_empty)
      (simp add: sample_store_def sample_resolved_def newStore_def max_int64_def)
qed

lemma word_of_nat_byte_inj: "a < 256 \<Longrightarrow> b < 256 \<Longrightarrow> (word_of_nat a :: byte) = word_of_nat b \<longleftrightarrow> a = b"
  by (metis unat_byte_of_nat)

lemma sample_ready: "ready grammar_validator sample_store 50 5 (service_of md5 ''bucket'' empty_fixture)"
  unfolding ready_def fresh_draws_def
  using sample_fits [of md5]
  by (simp add: empty_fixture_def random_block_def inj_on_def word_of_nat_byte_inj)

section \<open>The fixture's contract\<close>



section \<open>Histories\<close>

text \<open>
  C1. Any sequence of Put, Get (read to its end and closed), Delete and List that one store runs
  over a world that keeps the contract of an object store, from a state whose objects are complete
  blobs: every result is the one the abstract map of blobs gives, and the final objects are again
  complete blobs, those of the final map, with every transfer slot returned. A Put of a key that
  is there changes nothing and reports a conflict unless length and SHA-256 agree; an oversized
  source is refused and leaves nothing; Get returns exactly the content.
\<close>

theorem histories_refine_the_blob_map:
  assumes "object_store world view" "view w = Some v" "ready vn s bound (length ops) v"
    and "list_all (op_ok vn) ops" "bound < fuel" "int bound \<le> max_int64"
    and "run world (perform_all vn s c fuel ops) w = (rs, w')"
  shows "\<exists>v'. view w' = Some v' \<and> fits vn s v' \<and> so_free v' = so_free v
    \<and> (rs, held_blobs vn s v') = spec_run (max_blob s) ops (held_blobs vn s v)"
  using object_store.run_ensures [OF assms(1) perform_all_served [OF assms(5,6,3,4)] assms(2,7)]
  by (auto simp: ready_def)

definition sample_history :: "blob_op list" where
  "sample_history =
     [OpPut ''a'' [([1, 2], None), ([3], None)], OpGet ''a'', OpList [], OpDelete ''a'', OpGet ''a'']"

lemma histories_refine_the_blob_map_witness:
  "fst (run (fixture_world (\<lambda>b. b)) (perform_all grammar_validator sample_store sample_ctx 60 sample_history)
      empty_fixture)
    = [Outcome None, Content (Inr [1, 2, 3]), Listing (Some (Inr [''a''])), Outcome None,
       Content (Inl (BlobNotFoundError ''a''))]"
proof -
  let ?v = "service_of (\<lambda>b. b) ''bucket'' empty_fixture"
  obtain rs w' where r: "run (fixture_world (\<lambda>b. b))
      (perform_all grammar_validator sample_store sample_ctx 60 sample_history) empty_fixture = (rs, w')"
    by (metis surj_pair)
  have names: "grammar_validator ''a'' = None" by code_simp
  have none: "held_blobs grammar_validator sample_store ?v = Map.empty"
    by (simp add: fun_eq_iff blobs_None [OF blobs_ok_empty] held_at_None empty_fixture_def)
  have five: "length sample_history = 5" by (simp add: sample_history_def)
  have max: "3 \<le> max_blob sample_store"
    by (simp add: sample_store_def sample_resolved_def newStore_def)
  have "\<exists>v'. fixture_view (\<lambda>b. b) ''bucket'' w' = Some v' \<and> fits grammar_validator sample_store v'
      \<and> so_free v' = so_free ?v
      \<and> (rs, held_blobs grammar_validator sample_store v')
        = spec_run (max_blob sample_store) sample_history (held_blobs grammar_validator sample_store ?v)"
  proof (rule histories_refine_the_blob_map [OF fixture.object_store_axioms empty_fixture_view _ _ _ _ r])
    show "ready grammar_validator sample_store 50 (length sample_history) ?v"
      using sample_ready [of "\<lambda>b. b"] five by (simp only:)
    show "list_all (op_ok grammar_validator) sample_history"
      using names by (simp add: sample_history_def validateListPrefix_def)
  qed (simp_all add: max_int64_def)
  then have "rs = fst (spec_run (max_blob sample_store) sample_history Map.empty)"
    unfolding none by (metis fst_conv)
  with max r show ?thesis
    by (simp add: sample_history_def spec_put_def put_result_def script_bytes_def dom_def)
qed

end
