(* ===== verification/FaultyFixture.thy ===== *)
theory FaultyFixture
  imports SharedWorld BlobRefinement
begin

text \<open>
  The fixture as a \<open>shaky_bucket\<close>: whatever the tests have armed in it, short of answers that lie,
  each request it serves is a \<open>shaky_step\<close> on the objects it stores. So what is proved of racing
  calls holds of calls that race over the fixture while faults are armed.
\<close>

section \<open>What may be armed\<close>

definition head_operation :: "string \<Rightarrow> bool" where
  "head_operation op \<longleftrightarrow> op \<in> {''HeadPayload'', ''HeadManifest'', ''HEAD''}"

definition put_operation :: "string \<Rightarrow> bool" where
  "put_operation op \<longleftrightarrow> op \<in> {''PutPayload'', ''PutManifest''}"

text \<open>A failure that does not pretend success, nor to a HEAD that the object is absent.\<close>

definition honest :: "string \<Rightarrow> fault \<Rightarrow> bool" where
  "honest op f \<longleftrightarrow> ft_status f div 100 \<noteq> 2 \<and> (head_operation op \<longrightarrow> ft_status f \<notin> {400, 404})"

text \<open>
  Any blocks, any stalls, honest failures before or after a commit, no payload to be corrupted; and
  a limit on segments only where no object breaks it.
\<close>

definition fair :: "(bytes \<Rightarrow> bytes) \<Rightarrow> string \<Rightarrow> server \<Rightarrow> bool" where
  "fair md5 bucket s \<longleftrightarrow> objects_kept md5 (sv_objects s) \<and> sv_corruptPayloads s = []
     \<and> (\<forall>op. list_all (honest op) (sv_faults s op) \<and> list_all (honest op) (sv_commitFaults s op)
          \<and> (sv_commitFaults s op \<noteq> [] \<or> sv_commitBlocks s op \<noteq> [] \<longrightarrow> put_operation op))
     \<and> (\<forall>key. stored_at bucket s key \<noteq> None \<longrightarrow> \<not> long_segment (sv_segmentLimit s) key)"

lemma fair_popped:
  assumes "fair md5 bucket s"
  shows "fair md5 bucket (snd (admit rq op s))"
  using assms
  by (auto simp: fair_def admit_def pop_def stored_at_def list_all_iff split: list.splits)

lemma fair_same:
  assumes "fair md5 bucket s" "sv_objects t = sv_objects s" "sv_corruptPayloads t = []"
    "sv_faults t = sv_faults s" "sv_commitFaults t = sv_commitFaults s"
    "sv_commitBlocks t = sv_commitBlocks s" "sv_segmentLimit t = sv_segmentLimit s"
  shows "fair md5 bucket t"
  using assms stored_at_cong [OF assms(2)] by (simp add: fair_def)

lemma operations [simp]:
  "\<not> head_operation ''PutPayload''" "\<not> head_operation ''PutManifest''"
  "put_operation op \<Longrightarrow> \<not> head_operation op"
  by (auto simp: head_operation_def put_operation_def)

lemma named_operations:
  "operationName ''GET'' key q \<noteq> ''PutPayload''" "operationName ''GET'' key q \<noteq> ''PutManifest''"
  "operationName ''HEAD'' key [] \<noteq> ''PutPayload''" "operationName ''HEAD'' key [] \<noteq> ''PutManifest''"
  "operationName ''DELETE'' key [] \<noteq> ''PutPayload''" "operationName ''DELETE'' key [] \<noteq> ''PutManifest''"
  "head_operation (operationName ''HEAD'' key [])"
  by (simp_all add: operationName_def head_operation_def value_of_def hasQueryKey_def)

section \<open>serveHTTP with faults\<close>

abbreviation op_of :: "http_request \<Rightarrow> string \<Rightarrow> string" where
  "op_of rq key \<equiv> operationName (rq_method rq) key (rq_query rq)"

text \<open>A request is refused, or committed and its success held back, or served.\<close>

lemma serve_fair:
  assumes "fair md5 bucket s" "splitPath (rq_path rq) = Some (bucket, key)"
    and "serveHTTP md5 rq s = (out, s')"
  obtains (refused) e where "fair md5 bucket s'" "sv_objects s' = sv_objects s" "reply_of out = Inl e"
      "head_operation (op_of rq key) \<Longrightarrow> isHTTPStatus e 404 \<or> isHTTPStatus e 400 \<Longrightarrow>
        stored_at bucket s key = None"
  | (committed) s1 e where "fair md5 bucket s1" "sv_objects s1 = sv_objects s"
      "\<not> long_segment (sv_segmentLimit s1) key" "put_operation (op_of rq key)"
      "s' = snd (putObject md5 rq bucket key s1)" "reply_of out = Inl e"
  | (routed) s1 where "fair md5 bucket s1" "sv_objects s1 = sv_objects s"
      "\<not> long_segment (sv_segmentLimit s1) key" "route md5 rq bucket key s1 = (out, s')"
proof -
  obtain armed s1 where a: "admit rq (op_of rq key) s = (armed, s1)" by (metis surj_pair)
  have s1: "fair md5 bucket s1" "sv_objects s1 = sv_objects s" "sv_segmentLimit s1 = sv_segmentLimit s"
    using fair_popped [OF assms(1), of rq "op_of rq key"] a by (auto simp: admit_def)
  have honest: "honest (op_of rq key) f" if "ar_fault armed = Some f \<or> ar_commitFailure armed = Some f" for f
    using that admit_armed(1,2) [OF a] assms(1) by (auto simp: fair_def list_all_iff)
  have put: "put_operation (op_of rq key)" if "ar_committed armed \<or> ar_commitFailure armed \<noteq> None"
  proof -
    have "sv_commitFaults s (op_of rq key) \<noteq> [] \<or> sv_commitBlocks s (op_of rq key) \<noteq> []"
      using that admit_armed(2,4) [OF a] by (auto simp del: not_None_eq)
    then show ?thesis using assms(1) by (simp add: fair_def)
  qed
  have error: "reply_of (Replied (writeError [] (ft_status f) (ft_code f))) = Inl (ResponseError (ft_status f))"
    if "honest op f" for op f
    using that by (simp add: reply_of_def writeError_def writeXML_def honest_def)
  note serve = assms(3) [unfolded serveHTTP_def assms(2) option.case prod.case a]
  show thesis
  proof (cases "long_segment (sv_segmentLimit s1) key")
    case True
    with s1 assms(1) have "stored_at bucket s key = None" unfolding fair_def by metis
    with True serve s1 refused show thesis by (auto simp: reply_of_def writeError_def writeXML_def)
  next
    case short: False
    consider "ar_blocked armed" | f where "ar_fault armed = Some f" "\<not> ar_blocked armed"
      | f where "ar_commitFailure armed = Some f" "ar_fault armed = None" "\<not> ar_blocked armed"
      | "ar_committed armed" "ar_commitFailure armed = None" "ar_fault armed = None" "\<not> ar_blocked armed"
      | "\<not> ar_committed armed" "ar_commitFailure armed = None" "ar_fault armed = None" "\<not> ar_blocked armed"
      by (cases "ar_fault armed"; cases "ar_commitFailure armed") auto
    then show thesis
    proof cases
      case 1
      with serve short s1 refused show thesis by (auto simp: reply_of_def isHTTPStatus_def)
    next
      case (2 f)
      with serve short s1 refused error [OF honest] honest [of f] show thesis
        by (auto simp: honest_def)
    next
      case (3 f)
      with serve short s1 committed error [OF honest] put show thesis by auto
    next
      case 4
      with serve short s1 committed put show thesis by (auto simp: reply_of_def)
    next
      case 5
      with serve short s1 routed show thesis by auto
    qed
  qed
qed

section \<open>Each request\<close>

abbreviation fx_objects :: "string \<Rightarrow> fx \<Rightarrow> objs" where
  "fx_objects bucket w \<equiv> stored_at bucket (fx_server w)"

definition steps_shakily :: "(bytes \<Rightarrow> bytes) \<Rightarrow> string \<Rightarrow> fx \<Rightarrow> cmd \<Rightarrow> bool" where
  "steps_shakily md5 bucket w c \<longleftrightarrow>
     (case fixture_world md5 c w of (r, w') \<Rightarrow>
        fair md5 bucket (fx_server w')
        \<and> (\<forall>d. shaky_step d (fx_objects bucket w) c r (fx_objects bucket w')))"

lemma served_request:
  assumes "fair md5 bucket (fx_server w)" "splitPath (rq_path rq) = Some (bucket, key)"
    and "exchange md5 rq w = (out, w')"
  obtains (refused) e where "fair md5 bucket (fx_server w')" "fx_objects bucket w' = fx_objects bucket w"
      "reply_of out = Inl e"
      "head_operation (op_of rq key) \<Longrightarrow> isHTTPStatus e 404 \<or> isHTTPStatus e 400 \<Longrightarrow>
        fx_objects bucket w key = None"
  | (committed) s1 e where "fair md5 bucket s1" "stored_at bucket s1 = fx_objects bucket w"
      "\<not> long_segment (sv_segmentLimit s1) key" "put_operation (op_of rq key)"
      "fx_server w' = snd (putObject md5 rq bucket key s1)" "reply_of out = Inl e"
  | (routed) s1 where "fair md5 bucket s1" "stored_at bucket s1 = fx_objects bucket w"
      "\<not> long_segment (sv_segmentLimit s1) key" "route md5 rq bucket key s1 = (out, fx_server w')"
proof -
  from assms(3) have "serveHTTP md5 rq (fx_server w) = (out, fx_server w')"
    by (auto simp: exchange_def split: prod.splits)
  from assms(1,2) this show thesis
  proof (cases rule: serve_fair)
    case (refused e)
    with stored_at_cong [of "fx_server w'"] that(1) show thesis by simp
  next
    case (committed s1 e)
    with stored_at_cong [of s1] that(2) show thesis by blast
  next
    case (routed s1)
    with stored_at_cong [of s1] that(3) show thesis by blast
  qed
qed

lemma not_implemented:
  "route md5 (object_request m bucket [] h b) bucket [] s = (Replied (writeError [] 501 ''NotImplemented''), s)"
  by (simp add: route_def object_request_def value_of_def hasQueryKey_def)

lemma head_shaky:
  assumes "fair md5 bucket (fx_server w)" "plain_bucket bucket" "oi_bucket i = bucket"
  shows "steps_shakily md5 bucket w (HeadObject c i)"
proof -
  let ?rq = "object_request ''HEAD'' bucket (oi_key i) [] []"
  obtain out w' where x: "exchange md5 ?rq w = (out, w')" by (metis surj_pair)
  have path: "splitPath (rq_path ?rq) = Some (bucket, oi_key i)"
    using assms(2) by (simp add: object_request_def)
  have head: "head_operation (op_of ?rq (oi_key i))"
    by (simp add: object_request_def named_operations)
  from assms(1) path x show ?thesis
  proof (cases rule: served_request)
    case (refused e)
    with x assms(3) head show ?thesis by (auto simp: steps_shakily_def)
  next
    case (committed s1 e)
    with head show ?thesis by simp
  next
    case (routed s1)
    have kept: "objects_kept md5 (sv_objects s1)" using routed(1) by (simp add: fair_def)
    show ?thesis
    proof (cases "oi_key i = []")
      case True
      with routed not_implemented [of md5 "''HEAD''" bucket "[]" "[]" s1] x assms(3) show ?thesis
        by (auto simp: steps_shakily_def handler_defs)
    next
      case False
      with routed(4) have out: "out = Replied (headObject bucket (oi_key i) s1)" "fx_server w' = s1"
        by (auto simp: route_def object_request_def)
      with routed x assms(3) lookup_stored [OF kept, of bucket "oi_key i"] show ?thesis
        by (cases "stored_at bucket (fx_server w) (oi_key i)")
          (auto simp: steps_shakily_def headObject_def handler_defs head_of_def header_length_def)
    qed
  qed
qed

text \<open>A GET is served whole, or its range, or stalled after some bytes of the whole.\<close>

lemma bland_chunks [simp]: "bland_script (chunks b)"
  by (simp add: bland_script_def chunks_def)

lemma chunk_bytes [simp]: "script_bytes (chunks b) = b"
  by (simp add: chunks_def script_bytes_def)

lemma served_slice:
  assumes "out = Replied (serveObject (get_request g) (newObject md5 b))" "reply_of out = Inr rsp"
  obtains c where "bd_script (body_of out rsp) = chunks c"
    "\<And>lo hi. gi_range g = Some (byte_range lo hi) \<Longrightarrow> 0 \<le> lo \<Longrightarrow> lo \<le> hi \<Longrightarrow> hi < 2 ^ 63 \<Longrightarrow>
      c = slice_of b lo hi"
proof -
  let ?c = "case rs_doc rsp of Bytes c \<Rightarrow> c | _ \<Rightarrow> []"
  have "bd_script (body_of out rsp) = chunks ?c"
    using assms(1) by (auto simp: body_of_def chunks_def split: document.split)
  moreover have "?c = slice_of b lo hi"
    if "gi_range g = Some (byte_range lo hi)" "0 \<le> lo" "lo \<le> hi" "hi < 2 ^ 63" for lo hi
  proof -
    have "byte_range lo hi \<noteq> []" by (simp add: byte_range_def)
    with that assms parseRange_byte_range [OF that(2-4), of "int (length b)"]
    show ?thesis
      by (auto simp: serveObject_def handler_defs Let_def slice_of_def min_def split: if_splits)
  qed
  ultimately show thesis by (rule that)
qed

lemma get_fair:
  assumes "fair md5 bucket s" "getObject rq bucket key s = (out, s')"
  shows "fair md5 bucket s'" "stored_at bucket s' = stored_at bucket s"
    "stored_at bucket s key = None \<Longrightarrow> out = Replied (writeError [] 404 ''NoSuchKey'')"
    "stored_at bucket s key = Some b \<Longrightarrow> out = Replied (serveObject rq (newObject md5 b))
      \<or> (value_of (rq_header rq) ''Range'' = [] \<and> (\<exists>n. out = stallPayload (newObject md5 b) n))"
proof -
  have obj: "DAList.lookup (sv_objects s) (objectID bucket key) = map_option (newObject md5) (stored_at bucket s key)"
    by (rule lookup_stored) (use assms(1) in \<open>simp add: fair_def\<close>)
  have same: "sv_objects s' = sv_objects s" "sv_corruptPayloads s' = sv_corruptPayloads s"
    "sv_faults s' = sv_faults s" "sv_commitFaults s' = sv_commitFaults s"
    "sv_commitBlocks s' = sv_commitBlocks s" "sv_segmentLimit s' = sv_segmentLimit s"
    using assms(2) by (auto simp: getObject_def Let_def split: option.splits list.splits if_splits)
  have "sv_corruptPayloads s = []" using assms(1) by (simp add: fair_def)
  with same(2) have "sv_corruptPayloads s' = []" by simp
  from fair_same [OF assms(1) same(1) this same(3-6)] show "fair md5 bucket s'" .
  show "stored_at bucket s' = stored_at bucket s" using same(1) by (rule stored_at_cong)
  show "stored_at bucket s key = None \<Longrightarrow> out = Replied (writeError [] 404 ''NoSuchKey'')"
    using assms(2) obj by (auto simp: getObject_def Let_def split: option.splits if_splits)
  show "stored_at bucket s key = Some b \<Longrightarrow> out = Replied (serveObject rq (newObject md5 b))
      \<or> (value_of (rq_header rq) ''Range'' = [] \<and> (\<exists>n. out = stallPayload (newObject md5 b) n))"
    using assms(2) obj by (auto simp: getObject_def Let_def split: option.splits list.splits if_splits)
qed

lemma get_answered:
  assumes "reply_of out = Inr rsp"
    and "ob (gi_key g) = None \<Longrightarrow> out = Replied (writeError [] 404 ''NoSuchKey'')"
    and "\<And>b. ob (gi_key g) = Some b \<Longrightarrow> out = Replied (serveObject (get_request g) (newObject md5 b))
      \<or> (value_of (rq_header (get_request g)) ''Range'' = []
        \<and> (\<exists>n. out = stallPayload (newObject md5 b) n))"
  shows "get_answer ob g (get_of out rsp)"
proof (cases "ob (gi_key g)")
  case None
  with assms(1,2) show ?thesis by (simp add: handler_defs)
next
  case (Some b)
  from assms(3) [OF this] show ?thesis
  proof (elim disjE conjE exE)
    assume "out = Replied (serveObject (get_request g) (newObject md5 b))"
    from served_slice [OF this assms(1)] obtain x where "bd_script (body_of out rsp) = chunks x"
      "\<And>lo hi. gi_range g = Some (byte_range lo hi) \<Longrightarrow> 0 \<le> lo \<Longrightarrow> lo \<le> hi \<Longrightarrow> hi < 2 ^ 63 \<Longrightarrow>
        x = slice_of b lo hi" by blast
    with Some show ?thesis by (auto simp: get_answer_def get_of_def part_of_def)
  next
    fix n assume "value_of (rq_header (get_request g)) ''Range'' = []"
      and out: "out = stallPayload (newObject md5 b) n"
    then have "gi_range g \<noteq> Some (byte_range lo hi)" for lo hi
      by (auto simp: object_request_def byte_range_def)
    moreover have "bland_script (bd_script (body_of out rsp))"
      using out assms(1) bland_chunks
      by (auto simp: stallPayload_def reply_of_def body_of_def bland_script_def Let_def)
    ultimately show ?thesis using Some by (auto simp: get_answer_def get_of_def)
  qed
qed

lemma get_shaky:
  assumes "fair md5 bucket (fx_server w)" "plain_bucket bucket" "gi_bucket g = bucket"
  shows "steps_shakily md5 bucket w (GetObject c g)"
proof -
  let ?rq = "get_request g"
  obtain out w' where x: "exchange md5 ?rq w = (out, w')" by (metis surj_pair)
  have path: "splitPath (rq_path ?rq) = Some (bucket, gi_key g)"
    using assms(2,3) by (simp add: object_request_def)
  have op: "\<not> put_operation (op_of ?rq (gi_key g))"
    by (simp add: object_request_def named_operations put_operation_def)
  from assms(1) path x show ?thesis
  proof (cases rule: served_request)
    case (refused e)
    with x show ?thesis by (simp add: steps_shakily_def)
  next
    case (committed s1 e)
    with op show ?thesis by simp
  next
    case (routed s1)
    show ?thesis
    proof (cases "gi_key g = []")
      case True
      with routed not_implemented [of md5 "''GET''" bucket _ "[]" s1] x assms(3) show ?thesis
        by (auto simp: steps_shakily_def handler_defs)
    next
      case False
      with routed(4) assms(3) have "getObject ?rq bucket (gi_key g) s1 = (out, fx_server w')"
        by (simp add: route_def object_request_def)
      note get = get_fair [OF routed(1) this]
      have "get_answer (fx_objects bucket w) g (get_of out rsp)" if "reply_of out = Inr rsp" for rsp
        by (rule get_answered [OF that]) (use get(3,4) routed(2) assms(3) in auto)
      with get(1,2) routed(2) x show ?thesis by (cases "reply_of out") (auto simp: steps_shakily_def)
    qed
  qed
qed

text \<open>A conditional PUT: created, or refused and perhaps created.\<close>

lemma put_fair:
  assumes "fair md5 bucket s" "\<not> long_segment (sv_segmentLimit s) key"
    and "rq = object_request ''PUT'' bucket key (field ''If-None-Match'' (Some ''*'') @ h) b"
    and "putObject md5 rq bucket key s = (rsp, s')"
  shows "fair md5 bucket s'"
    "if stored_at bucket s key = None
     then rs_status rsp = 200 \<and> stored_at bucket s' = (stored_at bucket s)(key \<mapsto> b)
     else rs_status rsp = 412 \<and> stored_at bucket s' = stored_at bucket s"
proof -
  have obj: "DAList.lookup (sv_objects s) (objectID bucket key) = map_option (newObject md5) (stored_at bucket s key)"
    by (rule lookup_stored) (use assms(1) in \<open>simp add: fair_def\<close>)
  have "sv_corruptPayloads s = []" using assms(1) by (simp add: fair_def)
  with assms(3,4) obj have "(rsp, s') = (if stored_at bucket s key = None
    then (\<lparr>rs_status = 200, rs_header = [(''ETag'', ob_etag (newObject md5 b))], rs_doc = NoDoc\<rparr>,
      s\<lparr>sv_objects := DAList.update (objectID bucket key) (newObject md5 b) (sv_objects s)\<rparr>)
    else (writeError [] 412 ''PreconditionFailed'', s))"
    by (cases "contains key payload_part") (auto simp: putObject_def object_request_def Let_def)
  then have cases: "if stored_at bucket s key = None
     then rs_status rsp = 200 \<and> s' = s\<lparr>sv_objects := DAList.update (objectID bucket key) (newObject md5 b) (sv_objects s)\<rparr>
     else rs_status rsp = 412 \<and> s' = s"
    by (auto simp: writeError_def writeXML_def split: if_splits)
  then show "if stored_at bucket s key = None
     then rs_status rsp = 200 \<and> stored_at bucket s' = (stored_at bucket s)(key \<mapsto> b)
     else rs_status rsp = 412 \<and> stored_at bucket s' = stored_at bucket s"
    by (auto simp: stored_at_simps split: if_splits)
  have "fair md5 bucket (s\<lparr>sv_objects := DAList.update (objectID bucket key) (newObject md5 b) (sv_objects s)\<rparr>)"
    using assms(1,2) unfolding fair_def stored_at_simps by auto
  with cases assms(1) show "fair md5 bucket s'" by (auto split: if_splits)
qed

lemma put_exchange:
  assumes "fair md5 bucket (fx_server w)" "plain_bucket bucket"
    and "rq = object_request ''PUT'' bucket key (field ''If-None-Match'' (Some ''*'') @ h) b"
    and "exchange md5 rq w = (out, w')"
  shows "fair md5 bucket (fx_server w')"
    "case reply_of out of
       Inr _ \<Rightarrow> fx_objects bucket w key = None \<and> fx_objects bucket w' = (fx_objects bucket w)(key \<mapsto> b)
     | Inl _ \<Rightarrow> fx_objects bucket w' = fx_objects bucket w
         \<or> (fx_objects bucket w key = None \<and> fx_objects bucket w' = (fx_objects bucket w)(key \<mapsto> b))"
proof -
  have path: "splitPath (rq_path rq) = Some (bucket, key)" using assms(2,3) by (simp add: object_request_def)
  from assms(1) path assms(4) have "fair md5 bucket (fx_server w') \<and> (case reply_of out of
       Inr _ \<Rightarrow> fx_objects bucket w key = None \<and> fx_objects bucket w' = (fx_objects bucket w)(key \<mapsto> b)
     | Inl _ \<Rightarrow> fx_objects bucket w' = fx_objects bucket w
         \<or> (fx_objects bucket w key = None \<and> fx_objects bucket w' = (fx_objects bucket w)(key \<mapsto> b)))"
  proof (cases rule: served_request)
    case (refused e)
    then show ?thesis by simp
  next
    case (committed s1 e)
    obtain rsp where "putObject md5 rq bucket key s1 = (rsp, fx_server w')" using committed(5) by (metis prod.collapse)
    from put_fair [OF committed(1,3) assms(3) this] committed(2,6) show ?thesis
      by (auto split: if_splits)
  next
    case (routed s1)
    show ?thesis
    proof (cases "key = []")
      case True
      with routed assms(3) not_implemented [of md5 "''PUT''" bucket _ b s1] show ?thesis
        by (auto simp: handler_defs)
    next
      case False
      with routed(4) assms(3) have "replied (putObject md5 rq bucket key s1) = (out, fx_server w')"
        by (simp add: route_def object_request_def Let_def)
      then obtain rsp where "out = Replied rsp" "putObject md5 rq bucket key s1 = (rsp, fx_server w')"
        by (cases "putObject md5 rq bucket key s1") (auto simp: replied_def)
      with put_fair [OF routed(1,3) assms(3) this(2)] routed(2) show ?thesis
        by (auto simp: reply_of_def split: if_splits)
    qed
  qed
  then show "fair md5 bucket (fx_server w')"
    "case reply_of out of
       Inr _ \<Rightarrow> fx_objects bucket w key = None \<and> fx_objects bucket w' = (fx_objects bucket w)(key \<mapsto> b)
     | Inl _ \<Rightarrow> fx_objects bucket w' = fx_objects bucket w
         \<or> (fx_objects bucket w key = None \<and> fx_objects bucket w' = (fx_objects bucket w)(key \<mapsto> b))"
    by blast+
qed

lemma put_shaky:
  assumes "fair md5 bucket (fx_server w)" "plain_bucket bucket" "pi_bucket i = bucket"
    and "pi_if_none_match i = Some ''*''"
  shows "steps_shakily md5 bucket w (PutObject c i)"
proof -
  obtain out w' where x: "exchange md5 (object_request ''PUT'' bucket (pi_key i)
      (put_header (Some ''*'') (pi_sse i) (pi_kms i)) (pi_body i)) w = (out, w')" by (metis surj_pair)
  from put_exchange [OF assms(1,2) refl x [unfolded put_header_create]] x assms(3,4) show ?thesis
    by (cases "reply_of out") (auto simp: steps_shakily_def error_of_def)
qed

lemma delete_shaky:
  assumes "fair md5 bucket (fx_server w)" "plain_bucket bucket" "oi_bucket i = bucket"
  shows "steps_shakily md5 bucket w (DeleteObject c i)"
proof -
  let ?rq = "object_request ''DELETE'' bucket (oi_key i) [] []"
  obtain out w' where x: "exchange md5 ?rq w = (out, w')" by (metis surj_pair)
  have path: "splitPath (rq_path ?rq) = Some (bucket, oi_key i)"
    using assms(2) by (simp add: object_request_def)
  have op: "\<not> put_operation (op_of ?rq (oi_key i))"
    by (simp add: object_request_def named_operations put_operation_def)
  from assms(1) path x show ?thesis
  proof (cases rule: served_request)
    case (refused e)
    with x assms(3) show ?thesis by (auto simp: steps_shakily_def error_of_def)
  next
    case (committed s1 e)
    with op show ?thesis by simp
  next
    case (routed s1)
    show ?thesis
    proof (cases "oi_key i = []")
      case True
      with routed not_implemented [of md5 "''DELETE''" bucket "[]" "[]" s1] x assms(3) show ?thesis
        by (auto simp: steps_shakily_def handler_defs error_of_def)
    next
      case False
      with routed(4) have "replied (deleteObject bucket (oi_key i) s1) = (out, fx_server w')"
        by (simp add: route_def object_request_def Let_def value_of_def)
      then have out: "reply_of out = Inr \<lparr>rs_status = 204, rs_header = [], rs_doc = NoDoc\<rparr>"
        "fx_server w' = s1\<lparr>sv_objects := DAList.delete (objectID bucket (oi_key i)) (sv_objects s1)\<rparr>"
        by (auto simp: deleteObject_def replied_def reply_of_def)
      have "fair md5 bucket (fx_server w')"
        using routed(1) unfolding out(2) fair_def stored_at_simps by auto
      with out routed(2) x assms(3) show ?thesis
        by (auto simp: steps_shakily_def error_of_def stored_at_simps)
    qed
  qed
qed

lemma finite_stored: "finite (dom (stored_at bucket s))"
proof -
  have "dom (stored_at bucket s) \<subseteq> objectID bucket -` dom (DAList.lookup (sv_objects s))"
    by (auto simp: stored_at_def)
  moreover have "finite (objectID bucket -` dom (DAList.lookup (sv_objects s)))"
    by (rule finite_vimageI) (simp_all add: inj_on_def DAList.lookup_def finite_dom_map_of)
  ultimately show ?thesis by (rule finite_subset)
qed

lemma listed_rows:
  assumes "reply_of (Replied (listObjects rq bucket s)) = Inr rsp" "Some x \<in> set (lo_rows (list_of rsp))"
  shows "x \<in> set (keys_with s bucket (value_of (rq_query rq) ''prefix''))"
  using assms
  by (auto simp: listObjects_def list_page_def list_of_def handler_defs Let_def
      split: if_splits option.splits dest!: in_set_takeD in_set_dropD)

lemma list_shaky:
  assumes "fair md5 bucket (fx_server w)" "plain_bucket bucket" "li_bucket i = bucket"
  shows "steps_shakily md5 bucket w (ListObjectsV2 c i)"
proof -
  let ?rq = "list_request i"
  obtain out w' where x: "exchange md5 ?rq w = (out, w')" by (metis surj_pair)
  have path: "splitPath (rq_path ?rq) = Some (bucket, [])"
    using assms(2,3) by (simp add: list_request_def)
  have op: "\<not> put_operation (op_of ?rq [])"
    by (simp add: list_request_def named_operations put_operation_def)
  from assms(1) path x show ?thesis
  proof (cases rule: served_request)
    case (refused e)
    with x show ?thesis by (simp add: steps_shakily_def)
  next
    case (committed s1 e)
    with op show ?thesis by simp
  next
    case (routed s1)
    have kept: "objects_kept md5 (sv_objects s1)" using routed(1) by (simp add: fair_def)
    have out: "out = Replied (listObjects ?rq bucket s1)" "fx_server w' = s1"
      using routed(4) by (auto simp: route_def list_request_def)
    have prefix: "value_of (rq_query ?rq) ''prefix'' = li_prefix i" by (simp add: list_request_def)
    have finite: "finite {k \<in> dom (stored_at bucket s1). has_prefix k (li_prefix i)}"
      using finite_stored by (rule finite_subset [rotated]) blast
    have "has_prefix k (li_prefix i) \<and> stored_at bucket s1 k \<noteq> None"
      if "reply_of out = Inr rsp" "Some k \<in> set (lo_rows (list_of rsp))" for rsp k
      using listed_rows [OF that(1) [unfolded out(1)] that(2)] finite
      unfolding prefix keys_with_listing [OF kept assms(2)] by auto
    with routed(1,2) out(2) x show ?thesis by (cases "reply_of out") (auto simp: steps_shakily_def)
  qed
qed

text \<open>Draining ends at \<open>io.EOF\<close> only when every byte was read.\<close>

lemma drain_end:
  "drain n r = ((bs, EOF), ns) \<Longrightarrow>
   \<exists>es rest. read_seq (accounted_read script_read) r ns = ((bs, es @ [Some EOF]), rest) \<and> set es \<subseteq> {None}"
proof (induction n arbitrary: r bs ns)
  case (Suc n)
  obtain b x t where rd: "accounted_read script_read r part_bytes = ((b, x), t)" by (metis surj_pair)
  show ?case
  proof (cases x)
    case (Some err)
    with rd Suc.prems show ?thesis by (auto intro: exI [of _ "[]"])
  next
    case None
    obtain bs' ns' where d: "drain n t = ((bs', EOF), ns')" "bs = b @ bs'" "ns = part_bytes # ns'"
      using Suc.prems rd None by (auto split: prod.splits)
    from Suc.IH [OF d(1)] obtain es rest where
      "read_seq (accounted_read script_read) t ns' = ((bs', es @ [Some EOF]), rest)" "set es \<subseteq> {None}"
      by blast
    with rd d None show ?thesis by (intro exI [of _ "None # es"]) auto
  qed
qed simp

lemma upload_shaky:
  assumes "fair md5 bucket (fx_server w)" "plain_bucket bucket" "ui_bucket u = bucket"
    and "ui_if_none_match u = Some ''*''"
  shows "steps_shakily md5 bucket w (UploadObject c u)"
proof -
  obtain bs e ns where d: "drain (Suc (script_work (acc_source (ui_body u)))) (ui_body u) = ((bs, e), ns)"
    by (metis surj_pair)
  show ?thesis
  proof (cases "e = EOF")
    case False
    with d assms(1) show ?thesis by (simp add: steps_shakily_def upload_to_def upload_answer_def)
  next
    case True
    obtain out w' where x: "exchange md5 (object_request ''PUT'' bucket (ui_key u)
        (put_header (Some ''*'') (ui_sse u) (ui_kms u)) bs) w = (out, w')" by (metis surj_pair)
    from put_exchange [OF assms(1,2) refl x [unfolded put_header_create]] drain_end [OF d [unfolded True]]
      d True x assms(3,4)
    show ?thesis
      by (cases "reply_of out") (auto simp: steps_shakily_def upload_to_def upload_answer_def)
  qed
qed

interpretation faulty: shaky_bucket "fixture_world md5" "fx_objects bucket"
    "\<lambda>w. plain_bucket bucket \<and> fair md5 bucket (fx_server w)" bucket
  for md5 bucket
proof
  fix w w' :: fx and c r d
  assume w: "plain_bucket bucket \<and> fair md5 bucket (fx_server w)"
    and c: "is_request c" "confined bucket c" and step: "fixture_world md5 c w = (r, w')"
  have "steps_shakily md5 bucket w c"
    using c w by (cases c) (auto intro: head_shaky get_shaky put_shaky delete_shaky list_shaky upload_shaky)
  with step w show "(plain_bucket bucket \<and> fair md5 bucket (fx_server w'))
      \<and> shaky_step d (fx_objects bucket w) c r (fx_objects bucket w')"
    by (auto simp: steps_shakily_def)
qed

section \<open>The tests arm faults\<close>

inductive arms :: "string \<Rightarrow> server \<Rightarrow> server \<Rightarrow> bool" for bucket s where
  arm_fail: "honest op \<lparr>ft_status = status, ft_code = code\<rparr> \<Longrightarrow> arms bucket s (FailNext op n status code s)"
| arm_block: "arms bucket s (BlockNext op s)"
| arm_commit_block: "put_operation op \<Longrightarrow> arms bucket s (CommitThenBlockNext op s)"
| arm_commit_fail: "put_operation op \<Longrightarrow> honest op \<lparr>ft_status = status, ft_code = code\<rparr> \<Longrightarrow>
    arms bucket s (CommitThenFailNext op status code s)"
| arm_stall: "arms bucket s (StallNextPayloadRead n s)"
| arm_pages: "arms bucket s (SetPageLimit limit s)"
| arm_segments: "(\<And>key. stored_at bucket s key \<noteq> None \<Longrightarrow> \<not> long_segment limit key) \<Longrightarrow>
    arms bucket s (RefuseSegmentsOver limit s)"

lemma arms_fair: "arms bucket s s' \<Longrightarrow> fair md5 bucket s \<Longrightarrow> fair md5 bucket s' \<and> stored_at bucket s' = stored_at bucket s"
  by (cases rule: arms.cases)
    (auto simp: fair_def stored_at_def arming_defs StallNextPayloadRead_def SetPageLimit_def
      RefuseSegmentsOver_def list_all_iff fun_eq_iff split: if_splits)

definition arming :: "string \<Rightarrow> fx \<Rightarrow> fx \<Rightarrow> bool" where
  "arming bucket w w' \<longleftrightarrow> (\<exists>s. arms bucket (fx_server w) s \<and> w' = w\<lparr>fx_server := s\<rparr>)"


text \<open>One call run to its end over the fixture, the others standing still.\<close>

lemma request_server:
  assumes "is_request c" "fx_server u = fx_server w" "fixture_world md5 c w = (r, w')"
  shows "\<exists>u'. fixture_world md5 c u = (r, u') \<and> fx_server u' = fx_server w'" "fx_draw w' = fx_draw w"
  using assms by (cases c; auto simp: exchange_def upload_to_def split: prod.splits if_splits)+

lemma local_answer:
  assumes "\<not> is_request c" "confined bucket c" "fx_draw w = (\<lambda>_. d)" "length d = 16"
    and "fixture_world md5 c w = (r, w')"
  shows "shaky_step d ob c r ob" "fx_server w' = fx_server w" "fx_draw w' = (\<lambda>_. d)"
  using assms by (cases c; auto simp: ctx_answer_def random_block_def split: if_splits)+

lemma run_over:
  assumes "plain_bucket bucket" "fair md5 bucket (fx_server w0)" "blobs_ok vn p (fx_objects bucket w0)"
    and "length d = 16"
  shows "run (fixture_world md5) q w = (x, w') \<Longrightarrow> fx_draw w = (\<lambda>_. d) \<Longrightarrow>
    calls_over (fixture_world md5) (fx_objects bucket) (arming bucket) vn p bucket w0 u hs cs \<Longrightarrow>
    fx_server u = fx_server w \<Longrightarrow> i < length cs \<Longrightarrow> ca_block (cs ! i) = d \<Longrightarrow> ca_rest (cs ! i) = q \<Longrightarrow>
    \<exists>u' hs'. calls_over (fixture_world md5) (fx_objects bucket) (arming bucket) vn p bucket w0 u' hs'
      (cs[i := (cs ! i)\<lparr>ca_rest := Ret x\<rparr>]) \<and> fx_server u' = fx_server w'"
proof (induction q arbitrary: w u hs cs)
  case (Ret y)
  then have "cs[i := (cs ! i)\<lparr>ca_rest := Ret x\<rparr>] = cs" by (cases "cs ! i") (simp add: list_update_same_conv)
  with Ret show ?case by auto
next
  case (Do cmd f)
  obtain r w1 where step: "fixture_world md5 cmd w = (r, w1)" by (metis surj_pair)
  with Do.prems(1) have rest: "run (fixture_world md5) (f r) w1 = (x, w')" by simp
  let ?cs = "cs[i := (cs ! i)\<lparr>ca_rest := f r\<rparr>]"
  have "calls_run vn p bucket (fx_objects bucket w0) hs cs"
    using faulty.calls_over_run [OF Do.prems(3) _ assms(3)] assms(1,2) arms_fair
    unfolding arming_def by force
  from running_confined [OF this assms(3) _ Do.prems(7)] Do.prems(5)
  have confined: "confined bucket cmd" by simp
  obtain u1 hs1 where over: "calls_over (fixture_world md5) (fx_objects bucket) (arming bucket) vn p bucket w0 u1 hs1 ?cs"
    and u1: "fx_server u1 = fx_server w1" and draw: "fx_draw w1 = (\<lambda>_. d)"
  proof (cases "is_request cmd")
    case True
    from request_server [OF this Do.prems(4) step] obtain u1 where
      "fixture_world md5 cmd u = (r, u1)" "fx_server u1 = fx_server w1" "fx_draw w1 = fx_draw w" by blast
    with that [OF over_request [OF Do.prems(3,5,7) True]] Do.prems(2) show thesis by simp
  next
    case False
    note local = local_answer [OF this confined Do.prems(2) assms(4) step]
    with that [OF over_local [OF Do.prems(3,5,7) False]] Do.prems(4,6) show thesis by simp
  qed
  from Do.IH [OF rangeI rest draw over u1] Do.prems(5,6) show ?case by simp
qed

text \<open>
  The witness: a \<open>Put\<close> runs to its end over an empty fixture; then a test arms a publication that
  commits and fails.
\<close>

definition one_draw :: fx where
  "one_draw = empty_fixture\<lparr>fx_draw := \<lambda>_. replicate 16 7\<rparr>"

lemma one_draw_run:
  "\<exists>w. run (fixture_world (\<lambda>b. b)) (ca_rest (putting 7 0)) one_draw = (Outcome None, w)"
proof -
  let ?v = "service_of (\<lambda>b. b) ''bucket'' one_draw"
  have view: "fixture_view (\<lambda>b. b) ''bucket'' one_draw = Some ?v"
    using empty_fixture_view [of "\<lambda>b. b"] by (simp add: fixture_view_def one_draw_def split: if_splits)
  have "ready grammar_validator sample_store 50 (Suc 0) ?v"
    using sample_ready [of "\<lambda>b. b"]
    by (simp add: ready_def fresh_draws_def fits_def one_draw_def empty_fixture_def random_block_def inj_on_def)
  moreover have "op_ok grammar_validator (OpPut ''a'' [])" by code_simp
  ultimately have put: "ensures (perform grammar_validator sample_store sample_ctx 60 (OpPut ''a'' [])) ?v
    (\<lambda>v' r. ready grammar_validator sample_store 50 0 v' \<and> so_free v' = so_free ?v
      \<and> (r, held_blobs grammar_validator sample_store v')
        = spec_step (max_blob sample_store) (OpPut ''a'' []) (held_blobs grammar_validator sample_store ?v))"
    by (rule perform_served) (simp_all add: max_int64_def)
  obtain r w where run: "run (fixture_world (\<lambda>b. b))
      (perform grammar_validator sample_store sample_ctx 60 (OpPut ''a'' [])) one_draw = (r, w)"
    by (metis surj_pair)
  have none: "held_blobs grammar_validator sample_store ?v = Map.empty"
    by (simp add: fun_eq_iff blobs_None [OF blobs_ok_empty] held_at_None one_draw_def empty_fixture_def)
  from fixture.run_ensures [OF put [unfolded none] view run] have "r = Outcome None"
    using sample_max by (auto simp: spec_put_def put_result_def script_bytes_def)
  with run show ?thesis by (auto simp: putting_def)
qed


end
