(* ===== verification/Spec2Isabelle.thy ===== *)
theory Spec2Isabelle
  imports BlobReads FaultyFixture
begin

text \<open>
  A verification development for s3store, a Go module that keeps immutable blobs in an
  S3-compatible object store. A blob is two objects: a payload under
  \<open><prefix>/payloads/v1/<sha256 of key>/<random>\<close> and a manifest under
  \<open><prefix>/blobs/v1/<sha256 of key>/<base64 of key>\<close> that names the payload with its length and
  SHA-256. The manifest decides: \<open>Put\<close> publishes it last and conditionally, \<open>Get\<close> and \<open>List\<close>
  believe nothing else, \<open>Delete\<close> removes it first.

  \<^bold>\<open>Theories and sources.\<close>

  \<^item> \<open>S3Prelude\<close>: bytes and strings, splitting and joining, the collections \<open>limits\<close> (the code's
    constants) and \<open>inr_iff\<close> (when a fallible function succeeds).
  \<^item> \<open>GoSha256\<close>, \<open>GoEncoding\<close>, \<open>GoUtf8\<close>, \<open>GoIO\<close>: what the code uses of Go's library: SHA-256
    computed, base64 (raw URL), hexadecimal, \<open>strconv.Quote\<close>, UTF-8 validity, the \<open>io.Reader\<close>
    contract (locale \<open>io_reader\<close>), \<open>io.ReadFull\<close>, \<open>io.CopyN\<close> and draining loops. A body is a
    script of reads; the contract is interpreted on scripts.
  \<^item> \<open>Errors\<close> (redact.go and the error types): error trees, \<open>errors.As\<close>, texts, redaction.
  \<^item> \<open>EncryptionMode\<close>, \<open>Options\<close> (encryption.go, options.go): \<open>Options.resolve\<close>.
  \<^item> \<open>Guard\<close> (internal/guard/guard.go): contexts with deadlines, \<open>RequireDeadline\<close>, \<open>Bound\<close>.
  \<^item> \<open>Keys\<close> (key.go, end of blob.go): object keys and back. \<open>Manifest\<close> (manifest.go): the codec.
  \<^item> \<open>BlobIO\<close> (blob_io.go): the accounting reader of uploads, the verifying reader of streams.
  \<^item> \<open>BlobReader\<close> (blob_reader.go): \<open>Read\<close> and \<open>Close\<close> by one reading and any number of closing
    goroutines, as an inductive step relation with reachability.
  \<^item> \<open>Sdk\<close>: programs over the commands of the outside world (requests, contexts, the clock, the
    random source, the transfer gate), every behaviour of a program (\<open>exec\<close>), a run against one
    world (\<open>run\<close>), and the calculus \<open>along\<close> that proves facts of every behaviour.
  \<^item> \<open>Store\<close> (s3store.go, transfer.go, the encryption part of blob.go), \<open>Blob\<close> (blob.go): \<open>Open\<close>,
    \<open>Put\<close>, \<open>Get\<close>, \<open>Delete\<close>, \<open>List\<close> and every helper, in the code's order of calls, deferred calls
    run where the function returns.
  \<^item> \<open>BlobRequests\<close>, \<open>BlobPut\<close>, \<open>BlobReads\<close>: what these operations do over every behaviour of the
    service: confinement and encryption of requests, pairing of slots and contexts, guards, the
    safety of publication and cleanup, verified streams, the order of deletion, exact listings.
  \<^item> \<open>ObjectStore\<close>: what S3 documents of the requests the operations send, as a relation on the objects
    of a bucket; the calculus \<open>ensures\<close>; the locale \<open>object_store\<close> of the worlds that answer so.
  \<^item> \<open>BlobStore\<close>: the map of blobs a bucket's objects are, and the invariant under which they are one.
    \<open>BlobServed\<close>, \<open>BlobServedWrites\<close>: each operation against the contract. \<open>BlobHistory\<close>: the abstract
    map of blobs, clients that run sequences of operations, and the simulation.
  \<^item> \<open>TestServer\<close> (internal/testserver/server.go): the in-process S3 service of the tests: its state,
    every handler, the arming of faults, \<open>serveHTTP\<close>. \<open>TestServerFacts\<close>: its reachable states,
    multipart uploads, conditional requests, responses.
  \<^item> \<open>FixtureWorld\<close>: the service behind a client that sends one HTTP request for each command;
    \<open>object_store\<close> is interpreted on it. \<open>BlobRefinement\<close>: the refinement theorems.
  \<^item> \<open>SharedBucket\<close>: a bucket that several calls share and whose requests may fail, done or not. A state
    is the history of the bucket; \<open>sound\<close> is what every request keeps, \<open>disturbs\<close> the rely and \<open>grants\<close>
    the guarantee of a call, \<open>under\<close> and \<open>triple\<close> the calculus. \<open>SharedReads\<close>: locating manifests,
    \<open>Get\<close> with its stream and \<open>List\<close> under it. \<open>SharedWrites\<close>: \<open>Put\<close> and \<open>Delete\<close>, stage by stage.
    \<open>BlobInterleavings\<close>: any number of calls whose requests interleave (\<open>calls_run\<close>).
  \<^item> \<open>SharedWorld\<close>: calls that race over a world (\<open>calls_over\<close>) and the locale \<open>shaky_bucket\<close> of the worlds
    that answer as \<open>shaky_step\<close> says. \<open>FaultyFixture\<close>: the fixture is one whatever its tests arm (\<open>arms\<close>),
    corruption and faults that pretend success or absence excepted (\<open>fair\<close>).

  \<^bold>\<open>Reading the statements.\<close> A behaviour of a program \<open>p\<close> is a trace of commands with the answers
  the world gave, \<open>exec p tr x\<close>; answers are only constrained to have the type of their command, so
  a fact of every \<open>exec\<close> holds for every service, honest or not, and for every interleaving with
  other clients. Histories in predicates are newest first (\<open>rev tr\<close>).

  Where a claim needs a service that works, its hypothesis is \<open>object_store world view\<close>: \<open>view\<close> gives
  the objects, free slots and random blocks to come of a state of the world, and every answer is
  one S3 documents for them. \<open>fits\<close> says that the bucket's objects are complete blobs (with orphaned
  payloads allowed), \<open>ready\<close> that a history's random blocks are fresh. The fixture is such a world
  while no fault is armed in it, so these claims are not about nothing.

  For calls that race and requests that fail there is \<open>shaky_step\<close>: an error may come with or without
  the request's effect, a read may break off, the rows of a listing are of objects that are there
  but may leave some out, and only a success, or a HEAD's 404 or 400, can be believed. \<open>calls_run\<close>
  interleaves the requests of \<open>Put\<close>, \<open>Get\<close>, \<open>Delete\<close> and \<open>List\<close> calls one by one, and keeps every state
  the bucket had, so that a reply can be explained by a moment of its call (\<open>within\<close>) and a change
  by a call that was running (\<open>explained\<close>). The random block of a call is no other call's and new to
  the bucket, as 128 random bits are; a source that fails while it is read is left to \<open>BlobPut\<close>.

  \<^bold>\<open>Parameters.\<close> \<open>storage.ValidateName\<close> is the argument \<open>vn\<close>; where a claim needs its documented
  grammar it is the hypothesis \<open>canonical_names\<close>, which \<open>grammar_validator\<close> satisfies. \<open>url.Parse\<close>
  and \<open>net.ParseIP\<close> are the record \<open>parsers\<close>; the SDK's configuration loader is an argument of
  \<open>Open\<close>.

  \<^bold>\<open>Bounds and fuel.\<close> \<open>List\<close>'s loop has no bound of its own in the code: it ends when the service
  ends its pages. The model gives it fuel, one unit a page; every claim about a returned listing
  holds for every fuel, and over an object store more fuel than rows is enough for the complete
  listing. Draining a stream or a source has as its bound the reads that script can take. Go's
  \<open>int64\<close> is \<open>int\<close>, with wrap-around written out where a sum or a product can reach the bound (the
  memory budget of the options).

  \<^bold>\<open>Not modelled.\<close> Closing the body of a response the code rejects is not a command: it changes
  nothing the code looks at. \<open>ctx.Err()\<close>, which the code calls twice in a row, is asked once:
  a context's error never changes after it is set. The fixture serves one request at a time, from
  beginning to end, and its listening socket is not modelled; MD5, which only makes its ETags, is
  an argument. Tests and the module's build files hold
  no logic of the program.
\<close>

end
